(* ===== verification/Prelude.thy ===== *)
theory Prelude
  imports Main "HOL-Library.Word" "HOL-Library.Signed_Division"
begin

unbundle bit_operations_syntax

text \<open>
  Shared material: the outcome of a piece of C code (a value, or the reason why there is none),
  the sequencing of outcomes, checked array accesses, and the read-modify-write operations on
  \<open>unsigned long\<close> counters that the code performs through a cast to \<open>atomic_t\<close>.
\<close>

named_theorems outcome_simps \<open>rewriting of sequenced outcomes and checked array accesses\<close>
named_theorems const_defs \<open>the numeric constants of the headers\<close>

section \<open>Outcomes\<close>

text \<open>
  A C function that runs to its \<open>return\<close> gives \<open>Inr\<close>. \<open>Inl\<close> says why it does not:
  \<open>Blocked\<close>, the thread sleeps on a mutex that is held; the others are undefined behaviour
  of C (an access outside an object, a dereference of a freed pointer, of a NULL or error pointer
  or of an unmapped address, a string function that runs past the end of its buffer) or a
  \<open>BUG_ON\<close> that fires.
\<close>

datatype fault = Blocked | UseAfterFree | OutOfBounds | NullDeref | PageFault
  | BufferOverflow | OverRead | KernelBug

type_synonym 'a outcome = "fault + 'a"

definition and_then :: "'a outcome \<Rightarrow> ('a \<Rightarrow> 'b outcome) \<Rightarrow> 'b outcome" where
  "and_then m f = (case m of Inl e \<Rightarrow> Inl e | Inr x \<Rightarrow> f x)"

lemma and_then_Inr [simp, outcome_simps]: "and_then (Inr x) f = f x"
  by (simp add: and_then_def)

lemma and_then_Inl [simp, outcome_simps]: "and_then (Inl e) f = Inl e"
  by (simp add: and_then_def)

lemma and_then_InrD: "and_then m f = Inr y \<Longrightarrow> \<exists>x. m = Inr x \<and> f x = Inr y"
  by (cases m) auto

lemma and_then_InrE:
  assumes "and_then m f = Inr y"
  obtains x where "m = Inr x" "f x = Inr y"
  using and_then_InrD [OF assms] by blast

lemma and_then_assoc: "and_then (and_then m f) g = and_then m (\<lambda>x. and_then (f x) g)"
  by (cases m) auto

definition ok :: "'a outcome \<Rightarrow> bool" where
  "ok m = (case m of Inl _ \<Rightarrow> False | Inr _ \<Rightarrow> True)"

lemma ok_simps [simp, outcome_simps]: "ok (Inr x)" "\<not> ok (Inl e)"
  by (simp_all add: ok_def)

lemma ok_iff: "ok m \<longleftrightarrow> (\<exists>x. m = Inr x)"
  by (cases m) auto

section \<open>Checked array accesses\<close>

text \<open>A C array is a list of its allocated length; the index is a C integer.\<close>

definition in_range :: "'a list \<Rightarrow> int \<Rightarrow> bool" where
  "in_range xs i \<longleftrightarrow> 0 \<le> i \<and> i < int (length xs)"

definition arr_get :: "'a list \<Rightarrow> int \<Rightarrow> 'a outcome" where
  "arr_get xs i = (if in_range xs i then Inr (xs ! nat i) else Inl OutOfBounds)"

definition arr_set :: "'a list \<Rightarrow> int \<Rightarrow> 'a \<Rightarrow> 'a list outcome" where
  "arr_set xs i v = (if in_range xs i then Inr (xs[nat i := v]) else Inl OutOfBounds)"

lemma arr_get_in [simp, outcome_simps]: "in_range xs i \<Longrightarrow> arr_get xs i = Inr (xs ! nat i)"
  by (simp add: arr_get_def)

lemma arr_set_in [simp, outcome_simps]: "in_range xs i \<Longrightarrow> arr_set xs i v = Inr (xs[nat i := v])"
  by (simp add: arr_set_def)

lemma arr_get_out [simp, outcome_simps]: "\<not> in_range xs i \<Longrightarrow> arr_get xs i = Inl OutOfBounds"
  by (simp add: arr_get_def)

lemma arr_set_out [simp, outcome_simps]: "\<not> in_range xs i \<Longrightarrow> arr_set xs i v = Inl OutOfBounds"
  by (simp add: arr_set_def)

lemma arr_get_InrD: "arr_get xs i = Inr x \<Longrightarrow> in_range xs i \<and> x = xs ! nat i"
  by (auto simp: arr_get_def split: if_splits)

lemma arr_set_InrD: "arr_set xs i v = Inr ys \<Longrightarrow> in_range xs i \<and> ys = xs[nat i := v]"
  by (auto simp: arr_set_def split: if_splits)

lemma in_range_update [simp]: "in_range (xs[j := v]) i = in_range xs i"
  by (simp add: in_range_def)

lemma in_range_nat: "in_range xs i \<Longrightarrow> nat i < length xs"
  by (auto simp: in_range_def)

section \<open>Counters\<close>

text \<open>
  \<open>atomic_inc((atomic_t *) &x)\<close> on an \<open>unsigned long x\<close>: an \<open>atomic_t\<close> holds an \<open>int\<close>, so on
  x86-64 the operation acts on the low 32 bits of \<open>x\<close> alone and does not carry into the high
  half. \<open>atomic_read\<close> returns the low half as an \<open>int\<close>.
\<close>

definition low32 :: "64 word \<Rightarrow> 32 word" where
  "low32 w = ucast w"

definition with_low32 :: "64 word \<Rightarrow> 32 word \<Rightarrow> 64 word" where
  "with_low32 w l = push_bit 32 (drop_bit 32 w) OR ucast l"

definition atomic_inc :: "64 word \<Rightarrow> 64 word" where
  "atomic_inc w = with_low32 w (low32 w + 1)"

definition atomic_dec :: "64 word \<Rightarrow> 64 word" where
  "atomic_dec w = with_low32 w (low32 w - 1)"

definition atomic_read :: "64 word \<Rightarrow> int" where
  "atomic_read w = sint (low32 w)"

text \<open>As long as the value stays in the low half, the counter behaves like a number.\<close>

lemma high_half_zero:
  assumes "unat w < 2 ^ 32" shows "drop_bit 32 (w :: 64 word) = 0"
proof -
  have "unat (drop_bit 32 w) = 0"
    unfolding unat_drop_bit_eq using assms by (simp add: drop_bit_eq_div)
  then show ?thesis by (simp only: unsigned_eq_0_iff)
qed

lemma unat_with_low32:
  assumes "unat w < 2 ^ 32" shows "unat (with_low32 w l) = unat l"
proof -
  have "unat l < 2 ^ 64"
    using unsigned_less [of l, where 'a = nat] by simp
  then show ?thesis
    by (simp add: with_low32_def high_half_zero [OF assms] unsigned_ucast_eq take_bit_nat_eq_self_iff)
qed

lemma unat_low32: "unat w < 2 ^ 32 \<Longrightarrow> unat (low32 w) = unat w"
  by (simp add: low32_def unsigned_ucast_eq take_bit_nat_eq_self_iff)

lemma unat_atomic_inc:
  assumes "unat w + 1 < 2 ^ 32" shows "unat (atomic_inc w) = unat w + 1"
proof -
  have "unat (atomic_inc w) = unat (low32 w + 1)"
    unfolding atomic_inc_def using assms by (subst unat_with_low32) auto
  also have "\<dots> = unat (low32 w) + 1"
    using assms by (simp add: unat_word_ariths unat_low32)
  finally show ?thesis using assms by (simp add: unat_low32)
qed

lemma unat_atomic_dec:
  assumes "0 < unat w" "unat w < 2 ^ 32" shows "unat (atomic_dec w) = unat w - 1"
proof -
  have l: "unat (low32 w) = unat w" using assms by (simp add: unat_low32)
  then have nz: "low32 w \<noteq> 0" using assms by auto
  have "unat (atomic_dec w) = unat (low32 w - 1)"
    unfolding atomic_dec_def using assms by (subst unat_with_low32) auto
  also have "\<dots> = unat (low32 w) - 1" using nz by (simp add: unat_minus_one)
  finally show ?thesis by (simp add: l)
qed

lemma atomic_read_small:
  assumes "unat w < 2 ^ 31" shows "atomic_read w = int (unat w)"
proof -
  have l: "unat (low32 w) = unat w" using assms by (simp add: unat_low32)
  have "int (unat w) < int (2 ^ 31)" using assms by (simp only: of_nat_less_iff)
  then have b: "int (unat w) < 2 ^ 31" by simp
  have c: "- (2 ^ 31) \<le> int (unat w)" by (rule order_trans [of _ 0]) simp_all
  have "sint (low32 w) = signed_take_bit 31 (int (unat (low32 w)))"
    by (simp add: sint_uint flip: uint_nat)
  also have "\<dots> = int (unat (low32 w))"
    unfolding l by (rule signed_take_bit_int_eq_self) (rule c b)+
  finally show ?thesis by (simp add: atomic_read_def l)
qed

text \<open>Whatever the value, a decrement takes an increment back.\<close>

lemma low32_with_low32: "low32 (with_low32 w l) = l"
  by (rule bit_word_eqI) (auto simp: low32_def with_low32_def bit_simps)

lemma with_low32_twice: "with_low32 (with_low32 w l) m = with_low32 w m"
  by (rule bit_word_eqI) (auto simp: low32_def with_low32_def bit_simps dest: bit_imp_le_length)

lemma with_low32_low32: "with_low32 w (low32 w) = w"
  by (rule bit_word_eqI) (auto simp: low32_def with_low32_def bit_simps)

lemma atomic_dec_inc: "atomic_dec (atomic_inc w) = w"
  by (simp add: atomic_dec_def atomic_inc_def low32_with_low32 with_low32_twice with_low32_low32)

end
