(* ===== verification/C_Strings.thy ===== *)
theory C_Strings
  imports Prelude
begin

text \<open>
  The functions of \<open>linux/string.h\<close> and the conversions of \<open>snprintf\<close> that the driver uses,
  on buffers: a buffer is the list of the bytes allocated for it, so its length is its capacity,
  and a string is the part before the first NUL. An access past the end of a buffer is a fault.
\<close>

type_synonym buffer = "char list"

abbreviation NUL :: char where "NUL \<equiv> CHR 0x00"
abbreviation TAB :: char where "TAB \<equiv> CHR 0x09"
abbreviation NL :: char where "NL \<equiv> CHR 0x0A"

section \<open>Strings in buffers\<close>

definition c_str :: "buffer \<Rightarrow> string" where
  "c_str b = takeWhile (\<lambda>c. c \<noteq> NUL) b"

definition terminated :: "buffer \<Rightarrow> bool" where
  "terminated b \<longleftrightarrow> NUL \<in> set b"

definition nul_free :: "string \<Rightarrow> bool" where
  "nul_free s \<longleftrightarrow> NUL \<notin> set s"

lemma nul_free_simps [simp]:
  "nul_free []" "nul_free (c # s) \<longleftrightarrow> c \<noteq> NUL \<and> nul_free s"
  "nul_free (s @ t) \<longleftrightarrow> nul_free s \<and> nul_free t"
  by (auto simp: nul_free_def)

lemma nul_free_take [simp]: "nul_free s \<Longrightarrow> nul_free (take n s)"
  by (auto simp: nul_free_def dest: in_set_takeD)

lemma nul_free_concat: "(\<And>s. s \<in> set ss \<Longrightarrow> nul_free s) \<Longrightarrow> nul_free (concat ss)"
  by (auto simp: nul_free_def)

lemma c_str_append [simp]: "nul_free s \<Longrightarrow> c_str (s @ NUL # t) = s"
  unfolding c_str_def nul_free_def by (subst takeWhile_append2) auto

lemma c_str_nul_free [simp]: "nul_free s \<Longrightarrow> c_str s = s"
  unfolding c_str_def nul_free_def takeWhile_eq_all_conv by auto

lemma terminated_append [simp]: "terminated (s @ NUL # t)"
  by (simp add: terminated_def)

lemma nul_free_c_str [simp]: "nul_free (c_str b)"
  unfolding nul_free_def c_str_def by (auto dest: set_takeWhileD)

lemma terminated_split:
  assumes "terminated b" obtains t where "b = c_str b @ NUL # t"
proof -
  have "b = takeWhile (\<lambda>c. c \<noteq> NUL) b @ dropWhile (\<lambda>c. c \<noteq> NUL) b" by simp
  moreover have "dropWhile (\<lambda>c. c \<noteq> NUL) b \<noteq> []"
    using assms by (auto simp: terminated_def dropWhile_eq_Nil_conv)
  moreover have "hd (dropWhile (\<lambda>c. c \<noteq> NUL) b) = NUL"
    using hd_dropWhile [of "\<lambda>c. c \<noteq> NUL" b] calculation(2) by auto
  ultimately show ?thesis
    using that [of "tl (dropWhile (\<lambda>c. c \<noteq> NUL) b)"]
    by (metis c_str_def list.collapse)
qed

definition strlen :: "buffer \<Rightarrow> nat outcome" where
  "strlen b = (if terminated b then Inr (length (c_str b)) else Inl OverRead)"

lemma strlen_append [simp]: "nul_free s \<Longrightarrow> strlen (s @ NUL # t) = Inr (length s)"
  by (simp add: strlen_def)

section \<open>Copies\<close>

definition memcpy :: "buffer \<Rightarrow> buffer \<Rightarrow> nat \<Rightarrow> buffer outcome" where
  "memcpy dst src n =
     (if length src < n then Inl OverRead
      else if length dst < n then Inl BufferOverflow
      else Inr (take n src @ drop n dst))"

definition memset0 :: "buffer \<Rightarrow> nat \<Rightarrow> buffer outcome" where
  "memset0 dst n =
     (if length dst < n then Inl BufferOverflow else Inr (replicate n NUL @ drop n dst))"

text \<open>
  \<open>strncpy\<close> copies the characters of the source up to its NUL but at most \<open>n\<close>, and pads with NULs
  up to \<open>n\<close>. It always writes \<open>n\<close> bytes and reads the source up to its NUL or up to \<open>n\<close>.
\<close>

definition strncpy :: "buffer \<Rightarrow> buffer \<Rightarrow> nat \<Rightarrow> buffer outcome" where
  "strncpy dst src n =
     (if length (c_str src) = length src \<and> length src < n then Inl OverRead
      else if length dst < n then Inl BufferOverflow
      else Inr (take n (c_str src @ replicate n NUL) @ drop n dst))"

text \<open>
  \<open>strncat\<close> appends at the NUL of the destination at most \<open>n\<close> characters of the source, and a NUL.
\<close>

definition strncat :: "buffer \<Rightarrow> buffer \<Rightarrow> nat \<Rightarrow> buffer outcome" where
  "strncat dst src n =
     (if \<not> terminated dst then Inl OverRead
      else if length (c_str src) = length src \<and> length src < n then Inl OverRead
      else
        let d = length (c_str dst); s = take n (c_str src) in
        if length dst < d + length s + 1 then Inl BufferOverflow
        else Inr (c_str dst @ s @ NUL # drop (d + length s + 1) dst))"

text \<open>
  \<open>snprintf\<close> writes at most \<open>n - 1\<close> characters of the formatted text and a NUL
  (nothing when \<open>n\<close> is 0).
\<close>

definition snprintf :: "buffer \<Rightarrow> nat \<Rightarrow> string \<Rightarrow> buffer outcome" where
  "snprintf dst n s =
     (if n = 0 then Inr dst
      else
        let t = take (n - 1) s in
        if length dst < length t + 1 then Inl BufferOverflow
        else Inr (t @ NUL # drop (length t + 1) dst))"

definition sprintf :: "buffer \<Rightarrow> string \<Rightarrow> buffer outcome" where
  "sprintf dst s =
     (if length dst < length s + 1 then Inl BufferOverflow
      else Inr (s @ NUL # drop (length s + 1) dst))"

lemma length_memcpy: "memcpy dst src n = Inr b \<Longrightarrow> length b = length dst"
  by (auto simp: memcpy_def split: if_splits)

lemma length_memset0: "memset0 dst n = Inr b \<Longrightarrow> length b = length dst"
  by (auto simp: memset0_def split: if_splits)

lemma length_strncat: "strncat dst src n = Inr b \<Longrightarrow> length b = length dst"
proof -
  assume h: "strncat dst src n = Inr b"
  then have t: "terminated dst" by (auto simp: strncat_def split: if_splits)
  with h show ?thesis by (auto simp: strncat_def Let_def split: if_splits)
qed

text \<open>The concatenations the driver relies on: string after string, while the buffer has room.\<close>

lemma strncat_strings:
  assumes "nul_free s" "nul_free u" "length u \<le> n"
    and "length s + length u < length s + length r"
  shows "strncat (s @ NUL # r) (u @ NUL # q) n =
    Inr (s @ u @ NUL # drop (length u) r)"
  using assms by (simp add: strncat_def Let_def)

lemma strncat_exact:
  assumes "nul_free s" "nul_free u" "n \<le> length u" "n < length s + length r - length s"
  shows "strncat (s @ NUL # r) u n = Inr (s @ take n u @ NUL # drop n r)"
  using assms by (simp add: strncat_def Let_def)

lemma strncat_whole:
  assumes "nul_free s" "n \<le> length src" "length (c_str src) \<le> n" "length (c_str src) \<le> length r"
  shows "strncat (s @ NUL # r) src n = Inr (s @ c_str src @ NUL # drop (length (c_str src)) r)"
  using assms by (simp add: strncat_def Let_def)

section \<open>Decimal text\<close>

text \<open>The conversions \<open>%d\<close> and \<open>%lu\<close>.\<close>

definition digit :: "nat \<Rightarrow> char" where
  "digit d = char_of (48 + d)"

fun show_nat :: "nat \<Rightarrow> string" where
  "show_nat n = (if n < 10 then [digit n] else show_nat (n div 10) @ [digit (n mod 10)])"

declare show_nat.simps [simp del]

definition show_int :: "int \<Rightarrow> string" where
  "show_int i = (if i < 0 then CHR ''-'' # show_nat (nat (- i)) else show_nat (nat i))"

lemma of_char_digit [simp]: "d < 10 \<Longrightarrow> of_char (digit d) = 48 + d"
  by (simp add: digit_def take_bit_nat_eq_self)

lemma digit_inj: "a < 10 \<Longrightarrow> b < 10 \<Longrightarrow> digit a = digit b \<Longrightarrow> a = b"
  by (drule arg_cong [of _ _ "of_char :: char \<Rightarrow> nat"]) simp

lemma digit_plain:
  assumes "d < 10" shows "digit d \<notin> {NUL, TAB, NL, CHR ''-''}"
proof -
  have "of_char (digit d) = 48 + d" using assms by simp
  then show ?thesis by (auto simp: of_char_def)
qed

lemma show_nat_plain: "c \<in> set (show_nat n) \<Longrightarrow> \<exists>d < 10. c = digit d"
proof (induction n rule: show_nat.induct)
  case (1 n)
  have "n mod 10 < 10" by simp
  with 1 show ?case
    by (cases "n < 10") (auto simp: show_nat.simps [of n] intro: exI [of _ "n mod 10"])
qed

lemma show_nat_not_Nil [simp]: "show_nat n \<noteq> []"
  by (subst show_nat.simps) simp

lemma show_nat_no_specials:
  "NUL \<notin> set (show_nat n)" "TAB \<notin> set (show_nat n)" "NL \<notin> set (show_nat n)"
  by (auto dest!: show_nat_plain dest: digit_plain)

lemma nul_free_show_nat [simp]: "nul_free (show_nat n)"
  by (simp add: nul_free_def show_nat_no_specials)

lemma show_int_no_specials:
  "NUL \<notin> set (show_int i)" "TAB \<notin> set (show_int i)" "NL \<notin> set (show_int i)"
  by (simp_all add: show_int_def show_nat_no_specials)

lemma nul_free_show_int [simp]: "nul_free (show_int i)"
  by (simp add: nul_free_def show_int_no_specials)

lemma length_show_nat_le: "n < 10 ^ k \<Longrightarrow> 0 < k \<Longrightarrow> length (show_nat n) \<le> k"
proof (induction n arbitrary: k rule: show_nat.induct)
  case (1 n)
  show ?case
  proof (cases "n < 10")
    case True
    with "1.prems" show ?thesis by (subst show_nat.simps) simp
  next
    case False
    then obtain j where j: "k = Suc j" "0 < j"
      using "1.prems" by (cases k; cases "k - 1") auto
    then have "n div 10 < 10 ^ j" using "1.prems" by (simp add: less_mult_imp_div_less mult.commute)
    with "1.IH" [OF False this j(2)] False j show ?thesis by (subst show_nat.simps) simp
  qed
qed

end
