(* ===== verification/Ts_State.thy ===== *)
theory Ts_State
  imports C_Strings
begin

text \<open>
  The data of the module: the constants of \<open>commands.h\<close>, the structs of \<open>tag_service.h\<close> and of
  the driver, the kernel state they live in, and the kernel services the handlers call on it
  (mutexes, the heap of \<open>kzalloc\<close>ed tag services, RCU).
\<close>

section \<open>Constants\<close>

definition MAX_TAG_SERVICES :: int where [simp]: "MAX_TAG_SERVICES = 512"
definition MAX_LEVELS :: int where [simp]: "MAX_LEVELS = 32"
definition CREATE_TAG :: int where [simp]: "CREATE_TAG = 0"
definition OPEN_TAG :: int where [simp]: "OPEN_TAG = 1"
definition REMOVE_TAG :: int where [simp]: "REMOVE_TAG = 2"
definition AWAKE_ALL :: int where [simp]: "AWAKE_ALL = 3"
definition EVERYONE :: int where [simp]: "EVERYONE = 0"
definition ONLY_OWNER :: int where [simp]: "ONLY_OWNER = 1"
definition NOT_READY :: int where [simp]: "NOT_READY = 0"
definition READY :: int where [simp]: "READY = 1"
definition MAX_MESSAGE_SIZE :: nat where [simp]: "MAX_MESSAGE_SIZE = 4096"
definition YES :: int where [simp]: "YES = 1"
definition NO :: int where [simp]: "NO = 0"
definition SUCCESS :: int where [simp]: "SUCCESS = 1"
definition FAILURE :: int where [simp]: "FAILURE = 0"
definition IPC_PRIVATE :: int where [simp]: "IPC_PRIVATE = 0"
definition BUFSIZE :: nat where [simp]: "BUFSIZE = 4096"

text \<open>Error numbers of \<open>errno-base.h\<close> and \<open>errno.h\<close> (x86).\<close>

definition EINTR :: int where [simp]: "EINTR = 4"
definition EBADF :: int where [simp]: "EBADF = 9"
definition ENOMEM :: int where [simp]: "ENOMEM = 12"
definition EACCES :: int where [simp]: "EACCES = 13"
definition EFAULT :: int where [simp]: "EFAULT = 14"
definition EBUSY :: int where [simp]: "EBUSY = 16"
definition ENODEV :: int where [simp]: "ENODEV = 19"
definition EINVAL :: int where [simp]: "EINVAL = 22"
definition ENOSYS :: int where [simp]: "ENOSYS = 38"
definition EBADR :: int where [simp]: "EBADR = 53"
definition EMSGSIZE :: int where [simp]: "EMSGSIZE = 90"
definition ENOKEY :: int where [simp]: "ENOKEY = 126"

section \<open>The structs\<close>

record tag_level =
  lev_tag :: int
  message_ready :: int
  thread_waiting :: "64 word"
  message :: buffer
  lev_size :: "64 word"

record tag_service =
  level :: "tag_level list"
  thread_waiting_message_count :: "64 word"
  key :: int
  tag :: int
  permission :: int
  owner_euid :: "32 word"
  owner_uid :: "32 word"
  awake_request :: int
  lazy_deleted :: int

text \<open>
  A pointer to a tag service is an address, a NULL pointer is \<open>None\<close>. \<open>start\<close> allocates
  \<open>sizeof(tag_service) * MAX_TAG_SERVICES\<close> bytes for the array of pointers: with the 64 bytes of
  the struct and 8 bytes per pointer, this is room for 4096 pointers.
\<close>

record ts_management =
  first_free_entry :: int
  remaining_entries :: "64 word"
  access_lock :: "bool list"
  major :: "32 word"
  all_tag_services :: "nat option list"

definition ARRAY_SLOTS :: nat where
  "ARRAY_SLOTS = 64 * 512 div 8"

lemma ARRAY_SLOTS_eq [simp]: "ARRAY_SLOTS = 4096"
  by (simp add: ARRAY_SLOTS_def)

text \<open>
  The driver's \<open>dev_manager\<close>. A \<open>content\<close> pointer is either good, and stands for its buffer,
  or it must not be used: never set (\<open>dm\<close> is not zeroed) or left behind by \<open>kfree\<close>. The file's
  globals \<open>ts_class\<close> (NULL, an error pointer or a class) and \<open>ts_major\<close> are kept here as well.
\<close>

datatype content_ptr = Dangling | Content buffer

datatype class_ptr = ClassNull | ClassErr | ClassOk

record dev_manager =
  ts_class :: class_ptr
  ts_major :: "32 word"
  cdev_added :: "bool list"
  device_lock :: "bool list"
  content :: "content_ptr list"

section \<open>The kernel state\<close>

text \<open>
  \<open>heap\<close> holds the live tag services by address (an address is never given out twice), \<open>live\<close> is
  the ledger of the allocations of \<open>tag_get\<close> that no \<open>kfree\<close> has released: the struct, its array
  of levels, the message buffer of each level. \<open>rcu_readers\<close> are the threads inside
  \<open>rcu_read_lock\<close>; \<open>rcu_queue\<close> holds the callbacks of \<open>call_rcu\<close>, each with those of the readers
  at the time of the call that have not left their section yet.
\<close>

datatype kobj = TsObj nat | LevelsObj nat | MessageObj nat nat

datatype rcu_cb = FreeAfterSend nat int | ResetAwake nat

record kstate =
  tsm :: ts_management
  heap :: "nat \<Rightarrow> tag_service option"
  live :: "kobj set"
  next_addr :: nat
  rcu_readers :: "nat set"
  rcu_queue :: "(rcu_cb \<times> nat set) list"
  dm :: dev_manager
  module_refs :: int

text \<open>
  What a call gets from outside the module: the credentials of the calling thread, which of its
  allocations succeed, the bytes that fresh \<open>kmalloc\<close> memory happens to hold, and the results of
  \<open>cdev_add\<close> and \<open>device_create\<close>.
\<close>

record kenv =
  euid :: "32 word"
  uid :: "32 word"
  alloc_ok :: "nat \<Rightarrow> bool"
  junk :: "nat \<Rightarrow> nat \<Rightarrow> char"
  cdev_add_err :: int
  device_create_err :: int

section \<open>Kernel services on the state\<close>

subsection \<open>The heap of tag services\<close>

definition get_ts :: "kstate \<Rightarrow> nat \<Rightarrow> tag_service outcome" where
  "get_ts s p = (case heap s p of None \<Rightarrow> Inl UseAfterFree | Some t \<Rightarrow> Inr t)"

definition put_ts :: "nat \<Rightarrow> tag_service \<Rightarrow> kstate \<Rightarrow> kstate" where
  "put_ts p t s = s\<lparr>heap := (heap s)(p \<mapsto> t)\<rparr>"

definition free_ts :: "nat \<Rightarrow> kstate \<Rightarrow> kstate" where
  "free_ts p s = s\<lparr>heap := (heap s)(p := None), live := live s - {TsObj p}\<rparr>"

definition slot :: "kstate \<Rightarrow> int \<Rightarrow> nat option outcome" where
  "slot s i = arr_get (all_tag_services (tsm s)) i"

definition set_slot :: "int \<Rightarrow> nat option \<Rightarrow> kstate \<Rightarrow> kstate outcome" where
  "set_slot i v s =
     and_then (arr_set (all_tag_services (tsm s)) i v)
       (\<lambda>a. Inr (s\<lparr>tsm := (tsm s)\<lparr>all_tag_services := a\<rparr>\<rparr>))"

definition get_level :: "tag_service \<Rightarrow> int \<Rightarrow> tag_level outcome" where
  "get_level t i = arr_get (level t) i"

definition put_level :: "int \<Rightarrow> tag_level \<Rightarrow> tag_service \<Rightarrow> tag_service" where
  "put_level i l t = t\<lparr>level := (level t)[nat i := l]\<rparr>"

subsection \<open>Mutexes\<close>

text \<open>
  A mutex of an array of mutexes, kept as one bit: \<open>mutex_lock\<close> on a held mutex blocks, and an
  index outside the array is an access to something that is no mutex.
\<close>

definition lock_at :: "bool list \<Rightarrow> int \<Rightarrow> bool list outcome" where
  "lock_at ls i = and_then (arr_get ls i) (\<lambda>b. if b then Inl Blocked else arr_set ls i True)"

definition unlock_at :: "bool list \<Rightarrow> int \<Rightarrow> bool list outcome" where
  "unlock_at ls i = arr_set ls i False"

definition held_at :: "bool list \<Rightarrow> int \<Rightarrow> bool" where
  "held_at ls i \<longleftrightarrow> in_range ls i \<and> ls ! nat i"

definition mutex_lock :: "int \<Rightarrow> kstate \<Rightarrow> kstate outcome" where
  "mutex_lock i s = and_then (lock_at (access_lock (tsm s)) i)
     (\<lambda>ls. Inr (s\<lparr>tsm := (tsm s)\<lparr>access_lock := ls\<rparr>\<rparr>))"

definition mutex_unlock :: "int \<Rightarrow> kstate \<Rightarrow> kstate outcome" where
  "mutex_unlock i s = and_then (unlock_at (access_lock (tsm s)) i)
     (\<lambda>ls. Inr (s\<lparr>tsm := (tsm s)\<lparr>access_lock := ls\<rparr>\<rparr>))"

definition held :: "kstate \<Rightarrow> int \<Rightarrow> bool" where
  "held s i = held_at (access_lock (tsm s)) i"

definition dev_lock :: "int \<Rightarrow> kstate \<Rightarrow> kstate outcome" where
  "dev_lock i s = and_then (lock_at (device_lock (dm s)) i)
     (\<lambda>ls. Inr (s\<lparr>dm := (dm s)\<lparr>device_lock := ls\<rparr>\<rparr>))"

definition dev_unlock :: "int \<Rightarrow> kstate \<Rightarrow> kstate outcome" where
  "dev_unlock i s = and_then (unlock_at (device_lock (dm s)) i)
     (\<lambda>ls. Inr (s\<lparr>dm := (dm s)\<lparr>device_lock := ls\<rparr>\<rparr>))"

definition dev_held :: "kstate \<Rightarrow> int \<Rightarrow> bool" where
  "dev_held s i = held_at (device_lock (dm s)) i"

text \<open>The contract of an array of mutexes, and what a caller gets from it.\<close>

locale mutex_array =
  fixes lock :: "int \<Rightarrow> 's \<Rightarrow> 's outcome"
    and unlock :: "int \<Rightarrow> 's \<Rightarrow> 's outcome"
    and is_held :: "'s \<Rightarrow> int \<Rightarrow> bool"
    and exists_at :: "'s \<Rightarrow> int \<Rightarrow> bool"
  assumes lock_free: "exists_at s i \<Longrightarrow> \<not> is_held s i \<Longrightarrow> \<exists>s'. lock i s = Inr s'"
    and lock_held: "is_held s i \<Longrightarrow> lock i s = Inl Blocked"
    and lock_effect: "lock i s = Inr s' \<Longrightarrow>
      exists_at s i \<and> \<not> is_held s i \<and> (\<forall>j. is_held s' j = (j = i \<or> is_held s j)) \<and>
      exists_at s' = exists_at s"
    and unlock_effect: "exists_at s i \<Longrightarrow>
      \<exists>s'. unlock i s = Inr s' \<and> (\<forall>j. is_held s' j = (j \<noteq> i \<and> is_held s j)) \<and>
        exists_at s' = exists_at s"
begin

lemma lock_excludes: "lock i s = Inr s' \<Longrightarrow> lock i s' = Inl Blocked"
  using lock_effect lock_held by blast

lemma lock_unlock_restores:
  assumes "lock i s = Inr s'" "unlock i s' = Inr s''"
  shows "is_held s'' = is_held s"
proof -
  have e: "exists_at s' i" "\<not> is_held s i" "\<And>j. is_held s' j = (j = i \<or> is_held s j)"
    using lock_effect [OF assms(1)] by auto
  from unlock_effect [OF e(1)] assms(2)
  have "\<And>j. is_held s'' j = (j \<noteq> i \<and> is_held s' j)" by auto
  with e show ?thesis by auto
qed

lemma lock_other: "lock i s = Inr s' \<Longrightarrow> j \<noteq> i \<Longrightarrow> is_held s' j = is_held s j"
  using lock_effect by blast

end

lemma lock_at_cases:
  "lock_at ls i = (if \<not> in_range ls i then Inl OutOfBounds
     else if held_at ls i then Inl Blocked else Inr (ls[nat i := True]))"
  by (simp add: lock_at_def held_at_def)

lemma unlock_at_cases:
  "unlock_at ls i = (if in_range ls i then Inr (ls[nat i := False]) else Inl OutOfBounds)"
  by (simp add: unlock_at_def)

lemma held_at_update:
  "in_range ls i \<Longrightarrow> held_at (ls[nat i := b]) j = (if j = i then b else held_at ls j)"
  by (auto simp: held_at_def in_range_def nth_list_update nat_eq_iff)

lemma held_at_in_range: "held_at ls i \<Longrightarrow> in_range ls i"
  by (simp add: held_at_def)

lemma in_range_update_fun: "in_range (xs[j := v]) = in_range xs"
  by (rule ext) simp

lemmas lock_defs = lock_at_cases unlock_at_cases held_at_update in_range_update_fun
  mutex_lock_def mutex_unlock_def held_def dev_lock_def dev_unlock_def dev_held_def

interpretation access: mutex_array mutex_lock mutex_unlock held
    "\<lambda>s i. in_range (access_lock (tsm s)) i"
  by unfold_locales (auto simp: lock_defs dest: held_at_in_range split: if_splits)

interpretation device: mutex_array dev_lock dev_unlock dev_held
    "\<lambda>s i. in_range (device_lock (dm s)) i"
  by unfold_locales (auto simp: lock_defs dest: held_at_in_range split: if_splits)

end
