(* ===== verification/Tag_Slots.thy ===== *)
theory Tag_Slots
  imports Ts_State
begin

text \<open>
  The table of tag services: which entry is free, the search for one, the tag of a key
  (the first functions of \<open>tag_service.c\<close>), and the well-formedness of the module's state.
\<close>

section \<open>The functions\<close>

definition is_entry_available :: "int \<Rightarrow> kstate \<Rightarrow> int outcome" where
  "is_entry_available i s = and_then (slot s i) (\<lambda>p. Inr (if p \<noteq> None then FAILURE else SUCCESS))"

definition no_more_tag_service :: "kstate \<Rightarrow> bool" where
  "no_more_tag_service s \<longleftrightarrow> remaining_entries (tsm s) = 0"

definition set_first_free :: "int \<Rightarrow> kstate \<Rightarrow> kstate" where
  "set_first_free i s = s\<lparr>tsm := (tsm s)\<lparr>first_free_entry := i\<rparr>\<rparr>"

fun scan_entries :: "int \<Rightarrow> nat \<Rightarrow> kstate \<Rightarrow> kstate outcome" where
  "scan_entries i 0 s = Inr s"
| "scan_entries i (Suc n) s =
     and_then (is_entry_available i s) (\<lambda>a.
       if a \<noteq> 0 then Inr (set_first_free i s) else scan_entries (i + 1) n s)"

definition find_first_entry_available :: "kstate \<Rightarrow> (int \<times> kstate) outcome" where
  "find_first_entry_available s =
     and_then (is_entry_available (first_free_entry (tsm s)) s) (\<lambda>a.
       if a \<noteq> 0 then Inr (first_free_entry (tsm s), s)
       else if no_more_tag_service s then Inr (-1, s)
       else and_then (scan_entries 0 (nat MAX_TAG_SERVICES) s)
              (\<lambda>s. Inr (first_free_entry (tsm s), s)))"

definition hash_function :: "int \<Rightarrow> int" where
  "hash_function k = k smod MAX_TAG_SERVICES"

section \<open>Well-formed states\<close>

definition entry :: "kstate \<Rightarrow> nat \<Rightarrow> nat option" where
  "entry s i = all_tag_services (tsm s) ! i"

definition free_entries :: "kstate \<Rightarrow> nat set" where
  "free_entries s = {i. i < 512 \<and> entry s i = None}"

definition level_wf :: "int \<Rightarrow> tag_level \<Rightarrow> bool" where
  "level_wf i l \<longleftrightarrow> lev_tag l = i \<and> length (message l) = MAX_MESSAGE_SIZE
     \<and> (message_ready l = READY \<or> message_ready l = NOT_READY)"

definition ts_wf :: "int \<Rightarrow> tag_service \<Rightarrow> bool" where
  "ts_wf i t \<longleftrightarrow> tag t = i \<and> length (level t) = 32 \<and> (\<forall>l \<in> set (level t). level_wf i l)"

text \<open>
  The table: its shape, the counter of free entries, and that every occupied entry points to a live
  tag service that knows its own tag.
\<close>

definition table_wf :: "kstate \<Rightarrow> bool" where
  "table_wf s \<longleftrightarrow>
     length (all_tag_services (tsm s)) = ARRAY_SLOTS \<and> length (access_lock (tsm s)) = 512
     \<and> 0 \<le> first_free_entry (tsm s) \<and> first_free_entry (tsm s) < 512
     \<and> (\<forall>i. 512 \<le> i \<and> i < ARRAY_SLOTS \<longrightarrow> entry s i = None)"

definition counter_ok :: "kstate \<Rightarrow> bool" where
  "counter_ok s \<longleftrightarrow> unat (remaining_entries (tsm s)) = card (free_entries s)"

definition entries_ok :: "kstate \<Rightarrow> bool" where
  "entries_ok s \<longleftrightarrow>
     (\<forall>i p. i < 512 \<longrightarrow> entry s i = Some p \<longrightarrow> (\<exists>t. heap s p = Some t \<and> ts_wf (int i) t))
     \<and> (\<forall>p. heap s p \<noteq> None \<longrightarrow> p < next_addr s)"

definition module_ok :: "kstate \<Rightarrow> bool" where
  "module_ok s \<longleftrightarrow> table_wf s \<and> counter_ok s \<and> entries_ok s"

lemma slot_entry: "table_wf s \<Longrightarrow> 0 \<le> i \<Longrightarrow> i < 4096 \<Longrightarrow> slot s i = Inr (entry s (nat i))"
  by (simp add: slot_def table_wf_def entry_def in_range_def)

lemma entry_beyond: "table_wf s \<Longrightarrow> 512 \<le> i \<Longrightarrow> i < 4096 \<Longrightarrow> entry s i = None"
  by (simp add: table_wf_def)

lemma finite_free_entries [simp]: "finite (free_entries s)"
  by (rule finite_subset [of _ "{..<512}"]) (auto simp: free_entries_def)

lemma card_free_le: "card (free_entries s) \<le> 512"
proof -
  have "card (free_entries s) \<le> card {..<512::nat}"
    by (rule card_mono) (auto simp: free_entries_def)
  then show ?thesis by simp
qed

lemma no_more_iff: "counter_ok s \<Longrightarrow> no_more_tag_service s \<longleftrightarrow> free_entries s = {}"
  by (auto simp: no_more_tag_service_def counter_ok_def unsigned_eq_0_iff)

lemma is_entry_available_eq:
  "table_wf s \<Longrightarrow> 0 \<le> i \<Longrightarrow> i < 4096 \<Longrightarrow>
   is_entry_available i s = Inr (if entry s (nat i) = None then 1 else 0)"
  by (simp add: is_entry_available_def slot_entry)

text \<open>Two entries never share a tag service: it knows its tag.\<close>

lemma entries_distinct:
  assumes "entries_ok s" "entry s i = Some p" "entry s j = Some p" "i < 512" "j < 512"
  shows "i = j"
proof -
  obtain t u where "heap s p = Some t" "ts_wf (int i) t" "heap s p = Some u" "ts_wf (int j) u"
    using assms unfolding entries_ok_def by meson
  then show ?thesis by (simp add: ts_wf_def)
qed

section \<open>The state after the module is mounted\<close>

text \<open>The state that \<open>start\<close> leaves behind, and an environment where nothing fails.\<close>

definition booted :: "32 word \<Rightarrow> kstate" where
  "booted m =
     \<lparr>tsm = \<lparr>first_free_entry = 0, remaining_entries = 512, access_lock = replicate 512 False,
        major = m, all_tag_services = replicate ARRAY_SLOTS None\<rparr>,
      heap = Map.empty, live = {}, next_addr = 0, rcu_readers = {}, rcu_queue = [],
      dm = \<lparr>ts_class = ClassOk, ts_major = m, cdev_added = replicate 512 False,
        device_lock = replicate 512 False, content = replicate 512 Dangling\<rparr>,
      module_refs = 0\<rparr>"

lemma booted_free: "free_entries (booted m) = {..<512}"
  by (auto simp: free_entries_def entry_def booted_def)

lemma booted_entry: "i < 4096 \<Longrightarrow> entry (booted m) i = None"
  by (simp add: entry_def booted_def)

lemma booted_ok: "module_ok (booted m)"
proof -
  have "table_wf (booted m)"
    by (simp add: table_wf_def entry_def) (simp add: booted_def)
  moreover have "counter_ok (booted m)"
    unfolding counter_ok_def booted_free by (simp add: booted_def)
  moreover have "entries_ok (booted m)"
    by (simp add: entries_ok_def booted_entry) (simp add: booted_def)
  ultimately show ?thesis by (simp add: module_ok_def)
qed

definition plain_env :: "32 word \<Rightarrow> kenv" where
  "plain_env u = \<lparr>euid = u, uid = u, alloc_ok = (\<lambda>_. True), junk = (\<lambda>_ _. NUL),
     cdev_add_err = 0, device_create_err = 0\<rparr>"

section \<open>The search\<close>

lemma scan_entries_finds:
  assumes "table_wf s" "i + n = 512" "\<exists>k. i \<le> k \<and> k < 512 \<and> entry s k = None"
  shows "scan_entries (int i) n s =
    Inr (set_first_free (int (LEAST k. i \<le> k \<and> entry s k = None)) s)"
  using assms
proof (induction n arbitrary: i)
  case 0
  then have False by auto
  then show ?case ..
next
  case (Suc n)
  have a: "is_entry_available (int i) s = Inr (if entry s i = None then 1 else 0)"
    using Suc.prems by (subst is_entry_available_eq) auto
  show ?case
  proof (cases "entry s i = None")
    case True
    then have "(LEAST k. i \<le> k \<and> entry s k = None) = i" by (intro Least_equality) auto
    with a True show ?thesis by simp
  next
    case False
    obtain k where k: "i \<le> k" "k < 512" "entry s k = None" using Suc.prems by blast
    with False have "Suc i \<le> k" by (metis le_neq_implies_less Suc_leI)
    then have ex: "\<exists>k. Suc i \<le> k \<and> k < 512 \<and> entry s k = None" using k by blast
    have eq: "(i \<le> m \<and> entry s m = None) = (Suc i \<le> m \<and> entry s m = None)" for m
      using False by (metis le_neq_implies_less Suc_leI Suc_leD)
    have "scan_entries (int (Suc i)) n s =
        Inr (set_first_free (int (LEAST k. Suc i \<le> k \<and> entry s k = None)) s)"
      using Suc.prems ex by (intro Suc.IH) auto
    moreover have "int i + 1 = int (Suc i)" by simp
    ultimately show ?thesis using a False by (simp only: scan_entries.simps eq) simp
  qed
qed

lemma find_first_entry_result:
  assumes "table_wf s" "counter_ok s"
  shows "find_first_entry_available s =
    (if free_entries s = {} then Inr (-1, s)
     else let f = nat (first_free_entry (tsm s));
              i = (if entry s f = None then f else (LEAST k. entry s k = None))
          in Inr (int i, set_first_free (int i) s))"
proof -
  let ?f = "nat (first_free_entry (tsm s))"
  have f: "0 \<le> first_free_entry (tsm s)" "?f < 512" using assms(1) by (auto simp: table_wf_def)
  have a: "is_entry_available (first_free_entry (tsm s)) s = Inr (if entry s ?f = None then 1 else 0)"
    using assms(1) f by (intro is_entry_available_eq) auto
  have same: "set_first_free (first_free_entry (tsm s)) s = s" by (simp add: set_first_free_def)
  consider "entry s ?f = None" | "entry s ?f \<noteq> None" "free_entries s = {}"
    | "entry s ?f \<noteq> None" "free_entries s \<noteq> {}" by blast
  then show ?thesis
  proof cases
    case 1
    then have "free_entries s \<noteq> {}" using f by (auto simp: free_entries_def)
    with 1 a f same show ?thesis by (simp add: find_first_entry_available_def Let_def)
  next
    case 2
    with a show ?thesis using no_more_iff [OF assms(2)] by (simp add: find_first_entry_available_def)
  next
    case 3
    then have "\<exists>k. 0 \<le> k \<and> k < 512 \<and> entry s k = None" by (auto simp: free_entries_def)
    from scan_entries_finds [OF assms(1) _ this]
    have "scan_entries 0 512 s = Inr (set_first_free (int (LEAST k. entry s k = None)) s)" by simp
    with 3 a show ?thesis using no_more_iff [OF assms(2)] f
      by (auto simp: find_first_entry_available_def set_first_free_def Let_def)
  qed
qed

lemma find_first_entry_cases:
  assumes "table_wf s" "counter_ok s"
  obtains "free_entries s = {}" "find_first_entry_available s = Inr (-1, s)"
  | i where "i \<in> free_entries s" "find_first_entry_available s = Inr (int i, set_first_free (int i) s)"
proof (cases "free_entries s = {}")
  case True
  then show ?thesis using that(1) find_first_entry_result [OF assms] by simp
next
  case False
  let ?f = "nat (first_free_entry (tsm s))"
  let ?i = "if entry s ?f = None then ?f else (LEAST k. entry s k = None)"
  obtain k where k: "k < 512" "entry s k = None" using False by (auto simp: free_entries_def)
  then have "entry s (LEAST k. entry s k = None) = None" "(LEAST k. entry s k = None) \<le> k"
    by (auto intro: LeastI Least_le)
  then have "?i \<in> free_entries s"
    using k assms(1) by (auto simp: free_entries_def table_wf_def)
  then show ?thesis
    using that(2) find_first_entry_result [OF assms] False by (simp add: Let_def)
qed

text \<open>
  \<open>find_first_entry_available\<close> returns a free entry whenever there is one: the remembered entry
  if it is free, else the lowest free one; only the remembered entry changes. When the table is
  full it returns -1 and changes nothing.
\<close>

theorem find_first_entry_correct:
  assumes "table_wf s" "counter_ok s"
  shows "find_first_entry_available s =
    (if free_entries s = {} then Inr (-1, s)
     else let f = nat (first_free_entry (tsm s));
              i = (if entry s f = None then f else (LEAST k. entry s k = None))
          in Inr (int i, set_first_free (int i) s))"
  using assms by (rule find_first_entry_result)

theorem find_first_entry_correct_witness:
  "find_first_entry_available (booted 240) = Inr (0, set_first_free 0 (booted 240))"
proof -
  have "table_wf (booted 240)" "counter_ok (booted 240)" using booted_ok by (simp_all add: module_ok_def)
  moreover have "first_free_entry (tsm (booted 240)) = 0" by (simp add: booted_def)
  ultimately show ?thesis
    using find_first_entry_correct [of "booted 240"] by (simp add: booted_free booted_entry Let_def lessThan_empty_iff)
qed

section \<open>The tag of a key\<close>

lemma hash_function_nonneg: "0 \<le> k \<Longrightarrow> hash_function k = k mod 512"
  by (simp add: hash_function_def signed_modulo_int_def signed_divide_int_def sgn_if
      minus_div_mult_eq_mod)

lemma hash_function_neg:
  assumes "k < 0" shows "hash_function k = - (- k mod 512)"
  using assms by (simp add: hash_function_def signed_modulo_int_def signed_divide_int_def sgn_if
      minus_div_mult_eq_mod [symmetric])

lemma hash_function_negative:
  assumes "k < 0" "\<not> 512 dvd k" shows "hash_function k < 0"
proof -
  have "- k mod 512 \<noteq> 0" using assms(2) by (auto simp: dvd_eq_mod_eq_0 zmod_zminus1_eq_if split: if_splits)
  moreover have "0 \<le> - k mod 512" by simp
  ultimately show ?thesis using hash_function_neg [OF assms(1)] by linarith
qed

text \<open>
  The tag computed from a key lies in the table exactly for keys that are not negative or are
  multiples of 512; for every other negative key it is a negative index.
\<close>

theorem hash_function_range:
  "(0 \<le> hash_function k \<and> hash_function k < MAX_TAG_SERVICES) \<longleftrightarrow> (0 \<le> k \<or> 512 dvd k)"
proof (cases "0 \<le> k")
  case True
  then show ?thesis by (simp add: hash_function_nonneg)
next
  case False
  then show ?thesis
    using hash_function_neg [of k] hash_function_negative [of k]
    by (cases "512 dvd k") (auto simp: dvd_eq_mod_eq_0 zmod_zminus1_eq_if)
qed

end
