(* ===== verification/Chrdev_Numbers.thy ===== *)
theory Chrdev_Numbers
  imports C_Strings
begin

text \<open>
  The number routines of \<open>tag_device_driver.c\<close>: \<open>countCharsOfNumber\<close>,
  \<open>fastSommaDelleCifreDaZeroFinoIncluso\<close> and \<open>my_atoi\<close>. A \<open>long\<close> is an \<open>int\<close> in the range of
  64 bits and arithmetic on it wraps around (the kernel is compiled with
  \<open>-fno-strict-overflow\<close>); division truncates.
\<close>

definition LONG_MAX :: int where [simp]: "LONG_MAX = 9223372036854775807"
definition LONG_MIN :: int where [simp]: "LONG_MIN = - 9223372036854775808"
definition INT_MAX :: int where [simp]: "INT_MAX = 2147483647"
definition INT_MIN :: int where [simp]: "INT_MIN = - 2147483648"

definition is_long :: "int \<Rightarrow> bool" where
  "is_long n \<longleftrightarrow> LONG_MIN \<le> n \<and> n \<le> LONG_MAX"

definition to_long :: "int \<Rightarrow> int" where
  "to_long n = signed_take_bit 63 n"

lemma to_long_id: "is_long n \<Longrightarrow> to_long n = n"
  unfolding to_long_def is_long_def by (rule signed_take_bit_int_eq_self) auto

lemma to_long_LONG_MIN: "to_long (- LONG_MIN) = LONG_MIN"
  by (simp add: to_long_def)

section \<open>countCharsOfNumber\<close>

function count_loop :: "int \<Rightarrow> int \<Rightarrow> int" where
  "count_loop n count = (if n \<noteq> 0 then count_loop (n sdiv 10) (count + 1) else count)"
  by pat_completeness auto
termination
proof (relation "measure (\<lambda>(n, c). nat \<bar>n\<bar>)")
  fix n count :: int assume "n \<noteq> 0"
  then have "\<bar>n sdiv 10\<bar> < \<bar>n\<bar>"
    by (auto simp: signed_divide_int_def sgn_if abs_mult)
  then show "((n sdiv 10, count + 1), (n, count)) \<in> measure (\<lambda>(n, c). nat \<bar>n\<bar>)" by simp
qed simp

declare count_loop.simps [simp del]

definition countCharsOfNumber :: "int \<Rightarrow> int" where
  "countCharsOfNumber n =
     (if n = 0 then 1
      else if n < 0 then count_loop (to_long (- n)) 1
      else count_loop n 0)"

lemma count_loop_pos:
  assumes "0 < n" shows "count_loop n c = c + int (length (show_nat (nat n)))"
  using assms
proof (induction n c rule: count_loop.induct)
  case (1 n c)
  have d: "n sdiv 10 = n div 10" using "1.prems" by (simp add: signed_divide_int_def)
  have m: "nat (n div 10) = nat n div 10" using "1.prems" by (simp add: nat_div_distrib)
  show ?case
  proof (cases "n < 10")
    case True
    then have "n div 10 = 0" using "1.prems" by simp
    moreover have "length (show_nat (nat n)) = 1"
      using True "1.prems" by (subst show_nat.simps) simp
    ultimately show ?thesis
      using "1.prems" d by (simp add: count_loop.simps [of n] count_loop.simps [of 0])
  next
    case False
    then have "0 < n div 10" by simp
    then have "count_loop (n div 10) (c + 1) = c + 1 + int (length (show_nat (nat n div 10)))"
      using "1.IH" "1.prems" d m by simp
    moreover have "length (show_nat (nat n)) = length (show_nat (nat n div 10)) + 1"
      using False by (subst show_nat.simps) simp
    ultimately show ?thesis using "1.prems" d by (simp add: count_loop.simps [of n])
  qed
qed

text \<open>The most negative \<open>long\<close> is its own negation; the loop then runs on a negative number.\<close>

lemma count_loop_LONG_MIN: "count_loop LONG_MIN 1 = 20"
  by (simp add: count_loop.simps signed_divide_int_def)

lemma show_int_LONG_MIN: "length (show_int LONG_MIN) = 20"
  by (simp add: show_int_def show_nat.simps)

lemma countChars_length:
  assumes "is_long n"
  shows "countCharsOfNumber n = int (length (show_int n))"
proof -
  consider "n = 0" | "0 < n" | "n = LONG_MIN" | "n < 0" "is_long (- n)"
    using assms unfolding is_long_def by fastforce
  then show ?thesis
  proof cases
    case 1
    then show ?thesis by (simp add: countCharsOfNumber_def show_int_def show_nat.simps)
  next
    case 2
    then show ?thesis by (simp add: countCharsOfNumber_def count_loop_pos show_int_def)
  next
    case 3
    have "countCharsOfNumber LONG_MIN = count_loop (to_long (- LONG_MIN)) 1"
      by (simp add: countCharsOfNumber_def)
    with 3 show ?thesis
      by (simp only: to_long_LONG_MIN count_loop_LONG_MIN show_int_LONG_MIN)
  next
    case 4
    then show ?thesis
      by (simp add: countCharsOfNumber_def count_loop_pos show_int_def to_long_id)
  qed
qed

text \<open>
  For every \<open>long\<close>, the most negative one included, \<open>countCharsOfNumber\<close> is the number of
  characters that \<open>%ld\<close> prints for it.
\<close>

theorem countCharsOfNumber_correct:
  assumes "is_long n"
  shows "countCharsOfNumber n = int (length (show_int n))"
  using assms by (rule countChars_length)

theorem countCharsOfNumber_correct_witness:
  "is_long (- 1205) \<and> countCharsOfNumber (- 1205) = int (length (show_int (- 1205)))"
proof -
  have "is_long (- 1205)" by (simp add: is_long_def)
  then show ?thesis using countCharsOfNumber_correct [of "- 1205"] by simp
qed

section \<open>fastSommaDelleCifreDaZeroFinoIncluso\<close>

text \<open>
  The number of digits written when counting from 0 to \<open>n\<close>. \<open>int_pow\<close> is the kernel's integer
  power (\<open>lib/math/int_pow.c\<close>), a parameter.
\<close>

fun correction_loop :: "int \<Rightarrow> nat \<Rightarrow> int \<times> int \<Rightarrow> int \<times> int" where
  "correction_loop i 0 (correzione, s) = (correzione, s)"
| "correction_loop i (Suc k) (correzione, s) =
     correction_loop (i + 1) k (to_long (correzione + s), to_long (s * 10))"

definition fastSomma :: "(int \<Rightarrow> int \<Rightarrow> int) \<Rightarrow> int \<Rightarrow> int" where
  "fastSomma int_pow n =
     (let numeroCifre = countCharsOfNumber n;
          ultimoNumeroConUnaCifraInMeno = to_long (int_pow 10 (numeroCifre - 1) - 1);
          costante = to_long (numeroCifre * int_pow 10 (numeroCifre - 1));
          correzione = fst (correction_loop 1 (nat (numeroCifre - 1)) (0, 10));
          costante' = to_long (costante - correzione)
      in to_long (numeroCifre * to_long (n - ultimoNumeroConUnaCifraInMeno) + costante'))"

text \<open>What it computes, written as the sum it abbreviates.\<close>

definition digits :: "nat \<Rightarrow> nat" where
  "digits n = length (show_nat n)"

definition all_digits :: "nat \<Rightarrow> int" where
  "all_digits n = (\<Sum>k\<le>n. int (digits k))"

lemma digits_bounds: "10 ^ (digits n - 1) \<le> max 1 n \<and> n < 10 ^ digits n"
proof (induction n rule: show_nat.induct)
  case (1 n)
  show ?case
  proof (cases "n < 10")
    case True
    then have "digits n = 1" by (simp add: digits_def show_nat.simps [of n])
    with True show ?thesis by simp
  next
    case False
    then have d: "digits n = Suc (digits (n div 10))"
      by (simp add: digits_def show_nat.simps [of n])
    have ge1: "1 \<le> digits (n div 10)"
      by (simp add: digits_def Suc_le_eq)
    with "1.IH" [OF False] False have IH: "10 ^ (digits (n div 10) - 1) \<le> n div 10"
      "n div 10 < 10 ^ digits (n div 10)" by auto
    have "10 ^ digits (n div 10) = 10 * (10::nat) ^ (digits (n div 10) - 1)"
      using ge1 by (simp flip: power_Suc)
    with IH have "10 ^ digits (n div 10) \<le> n" "n < 10 * 10 ^ digits (n div 10)" by linarith+
    with d show ?thesis by simp
  qed
qed

lemma digits_unique:
  assumes "10 ^ d \<le> n" "n < 10 ^ Suc d" shows "digits n = Suc d"
proof -
  have ge1: "1 \<le> digits n" by (simp add: digits_def Suc_le_eq)
  have n1: "1 \<le> n" using assms(1) by (metis le_trans one_le_numeral one_le_power)
  from digits_bounds [of n] n1 have b: "10 ^ (digits n - 1) \<le> n" "n < 10 ^ digits n" by auto
  from b(1) assms(2) have "(10::nat) ^ (digits n - 1) < 10 ^ Suc d" by (rule le_less_trans)
  then have "digits n - 1 < Suc d" by (rule power_less_imp_less_exp [rotated]) simp
  moreover from assms(1) b(2) have "(10::nat) ^ d < 10 ^ digits n" by (rule le_less_trans)
  then have "d < digits n" by (rule power_less_imp_less_exp [rotated]) simp
  ultimately show ?thesis using ge1 by linarith
qed

definition closed_form :: "nat \<Rightarrow> nat \<Rightarrow> int" where
  "closed_form d n =
     int d * (int n - (10 ^ (d - 1) - 1)) + (int d * 10 ^ (d - 1) - (\<Sum>i = 1..<d. 10 ^ i))"

lemma closed_form_Suc: "closed_form d (Suc n) = closed_form d n + int d"
  by (simp add: closed_form_def algebra_simps)

lemma closed_form_carry: "0 < d \<Longrightarrow> closed_form (Suc d) (10 ^ d - 1) = closed_form d (10 ^ d - 1)"
proof -
  assume d: "0 < d"
  have n: "int (10 ^ d - 1) = 10 ^ d - 1" by (simp add: of_nat_diff)
  show ?thesis using d by (simp add: closed_form_def n) (simp add: algebra_simps)
qed

lemma all_digits_closed: "all_digits n = closed_form (digits n) n"
proof (induction n)
  case 0
  have "digits 0 = 1" by (simp add: digits_def show_nat.simps)
  then show ?case by (simp add: all_digits_def closed_form_def)
next
  case (Suc n)
  have ge1: "1 \<le> digits n" by (simp add: digits_def Suc_le_eq)
  have "closed_form (digits (Suc n)) n = closed_form (digits n) n"
  proof (cases "Suc n = 10 ^ digits n")
    case True
    then have "digits (Suc n) = Suc (digits n)"
      by (intro digits_unique) simp_all
    moreover have "n = 10 ^ digits n - 1" using True by linarith
    ultimately show ?thesis using closed_form_carry [of "digits n"] ge1 by simp
  next
    case False
    then have "Suc n < 10 ^ digits n" using digits_bounds [of n] by linarith
    moreover have "10 ^ (digits n - 1) \<le> Suc n" using digits_bounds [of n] by (auto split: if_splits simp: max_def)
    ultimately have "digits (Suc n) = Suc (digits n - 1)"
      using ge1 by (intro digits_unique) simp_all
    then show ?thesis using ge1 by simp
  qed
  then show ?case using Suc closed_form_Suc [of "digits (Suc n)" n] by (simp add: all_digits_def)
qed

lemma digits_le: "n < 10 ^ k \<Longrightarrow> 0 < k \<Longrightarrow> digits n \<le> k"
  by (simp add: digits_def length_show_nat_le)

lemma to_long_small: "- 1000000000000000000 \<le> x \<Longrightarrow> x \<le> 1000000000000000000 \<Longrightarrow> to_long x = x"
  by (rule to_long_id) (simp add: is_long_def)

text \<open>The partial sums of powers of ten stay below the next power.\<close>

lemma sum_powers: "(\<Sum>i = 1..<d. (10::int) ^ i) * 9 = (if d = 0 then 0 else 10 ^ d - 10)"
  by (induction d) auto

lemma correction_loop_exact:
  assumes "j + k \<le> 16" "0 < j" "0 \<le> c" "c \<le> 10 ^ j"
  shows "fst (correction_loop i k (c, 10 ^ j)) = c + (\<Sum>m = j..<j + k. 10 ^ m)"
  using assms
proof (induction k arbitrary: i j c)
  case 0
  then show ?case by simp
next
  case (Suc k)
  have p: "(10::int) ^ j \<le> 10 ^ 15" using Suc.prems by (intro power_increasing) auto
  have t1: "to_long (c + 10 ^ j) = c + 10 ^ j"
    using Suc.prems p by (intro to_long_small) auto
  have t2: "to_long (10 ^ j * 10) = 10 ^ Suc j"
    using p by (subst to_long_small) (auto intro: order_trans [of _ 0])
  have "fst (correction_loop i (Suc k) (c, 10 ^ j)) =
      fst (correction_loop (i + 1) k (c + 10 ^ j, 10 ^ Suc j))"
    by (simp add: t1 t2)
  also have "\<dots> = c + 10 ^ j + (\<Sum>m = Suc j..<Suc j + k. 10 ^ m)"
    using Suc.prems by (intro Suc.IH) auto
  also have "\<dots> = c + (\<Sum>m = j..<j + Suc k. 10 ^ m)"
    by (simp add: sum.atLeast_Suc_lessThan)
  finally show ?case .
qed

text \<open>
  Up to 16 digits, \<open>fastSommaDelleCifreDaZeroFinoIncluso(n)\<close> is the total number of digits of
  the numbers 0 to n, given that the kernel's \<open>int_pow\<close> is the integer power.
\<close>

theorem fastSomma_correct:
  assumes pow: "\<forall>e\<ge>0. e \<le> 18 \<longrightarrow> int_pow 10 e = 10 ^ nat e" and n: "n < 10 ^ 16"
  shows "fastSomma int_pow (int n) = all_digits n"
proof -
  define d where "d = digits n"
  have ge1: "1 \<le> d" by (simp add: d_def digits_def Suc_le_eq)
  have le: "d \<le> 16" unfolding d_def using n by (intro digits_le) auto
  have long: "is_long (int n)"
    using n by (simp add: is_long_def)
  have c: "countCharsOfNumber (int n) = int d"
    using countChars_length [OF long] by (simp add: show_int_def d_def digits_def)
  have P: "int_pow 10 (int d - 1) = 10 ^ (d - 1)"
    using pow ge1 le by (simp add: nat_diff_distrib)
  have p1: "(10::int) ^ (d - 1) \<le> 10 ^ 15" using le by (intro power_increasing) auto
  have p0: "0 < (10::int) ^ (d - 1)" by simp
  define q where "q = (10::int) ^ (d - 1)"
  have q: "0 < q" "q \<le> 1000000000000000" using p0 p1 by (simp_all add: q_def)
  have P': "int_pow 10 (int d - 1) = q" by (simp only: P q_def)
  define m where "m = (\<Sum>i = 1..<d. (10::int) ^ i)"
  have m9: "m * 9 = 10 * q - 10"
    using sum_powers [of d] ge1 by (simp add: m_def q_def flip: power_Suc)
  have dq: "0 \<le> int d * q" "int d * q \<le> 16 * q"
    using le q by (simp_all add: mult_right_mono)
  have e1: "to_long (q - 1) = q - 1" using q by (intro to_long_small) auto
  have e2: "to_long (int d * q) = int d * q" using dq q by (intro to_long_small) linarith+
  have m: "fst (correction_loop 1 (nat (int d - 1)) (0, 10)) = m"
    using correction_loop_exact [of 1 "d - 1" 0 1] ge1 le by (simp add: m_def nat_diff_distrib)
  have e3: "to_long (int d * q - m) = int d * q - m"
    using dq q m9 by (intro to_long_small) linarith+
  have e4: "to_long (int n - (q - 1)) = int n - (q - 1)"
    using n q by (intro to_long_small) auto
  have dn: "\<bar>int d * (int n - (q - 1))\<bar> \<le> 160000000000000000"
  proof -
    have "\<bar>int n - (q - 1)\<bar> \<le> 10 ^ 16" using n q by auto
    then have "int d * \<bar>int n - (q - 1)\<bar> \<le> 16 * 10 ^ 16"
      using le by (intro mult_mono) auto
    then show ?thesis by (simp add: abs_mult)
  qed
  have e5: "to_long (int d * (int n - (q - 1)) + (int d * q - m))
      = int d * (int n - (q - 1)) + (int d * q - m)"
    using dn dq q m9 unfolding abs_le_iff by (intro to_long_small) linarith+
  have "fastSomma int_pow (int n) = int d * (int n - (q - 1)) + (int d * q - m)"
    by (simp add: fastSomma_def Let_def c e1 e2 e3 e4 e5 m P')
  also have "\<dots> = closed_form d n"
    by (simp add: closed_form_def q_def m_def)
  finally show ?thesis by (simp add: all_digits_closed d_def)
qed

theorem fastSomma_correct_witness:
  "fastSomma (\<lambda>b e. b ^ nat e) (int 100) = all_digits 100"
  using fastSomma_correct [of "\<lambda>b e. b ^ nat e" 100] by simp

section \<open>my_atoi\<close>

text \<open>
  The loops walk an index over the string; the model carries the rest of the buffer instead
  (\<open>str + i\<close>). Reading on after the last byte of the buffer is an over-read.
\<close>

fun skip_blanks :: "buffer \<Rightarrow> buffer outcome" where
  "skip_blanks [] = Inl OverRead"
| "skip_blanks (c # cs) = (if c = CHR '' '' \<or> c = TAB then skip_blanks cs else Inr (c # cs))"

definition is_digit :: "char \<Rightarrow> bool" where
  "is_digit c \<longleftrightarrow> 48 \<le> (of_char c :: int) \<and> (of_char c :: int) \<le> 57"

definition digit_val :: "char \<Rightarrow> int" where
  "digit_val c = of_char c - 48"

fun atoi_loop :: "int \<Rightarrow> int \<Rightarrow> buffer \<Rightarrow> int outcome" where
  "atoi_loop sign base [] = Inl OverRead"
| "atoi_loop sign base (c # cs) =
     (if is_digit c then
        if base > INT_MAX div 10 \<or> base = INT_MAX div 10 \<and> digit_val c > 7 then
          (if sign = 1 then Inr INT_MAX else Inr INT_MIN)
        else atoi_loop sign (10 * base + digit_val c) cs
      else Inr (base * sign))"

definition my_atoi :: "buffer \<Rightarrow> int outcome" where
  "my_atoi str =
     and_then (skip_blanks str) (\<lambda>s.
       case s of
         [] \<Rightarrow> Inl OverRead
       | c # cs \<Rightarrow>
           if c = CHR ''-'' \<or> c = CHR ''+'' then
             atoi_loop (1 - 2 * (if c = CHR ''-'' then 1 else 0)) 0 cs
           else atoi_loop 1 0 s)"

text \<open>
  The reference: the number that the digits denote, with its sign, clamped to the range of \<open>int\<close>.
\<close>

definition digits_val :: "int \<Rightarrow> string \<Rightarrow> int" where
  "digits_val b ds = foldl (\<lambda>a c. 10 * a + digit_val c) b ds"

definition clamp_int :: "int \<Rightarrow> int" where
  "clamp_int v = max INT_MIN (min INT_MAX v)"

lemma digit_val_range: "is_digit c \<Longrightarrow> 0 \<le> digit_val c \<and> digit_val c \<le> 9"
  by (simp add: is_digit_def digit_val_def)

lemma digits_val_ge: "0 \<le> b \<Longrightarrow> \<forall>c \<in> set ds. is_digit c \<Longrightarrow> b \<le> digits_val b ds"
proof (induction ds arbitrary: b)
  case Nil
  then show ?case by (simp add: digits_val_def)
next
  case (Cons c ds)
  then have "0 \<le> digit_val c" using digit_val_range by simp
  then have "b \<le> 10 * b + digit_val c" using Cons.prems by simp
  also have "\<dots> \<le> digits_val (10 * b + digit_val c) ds"
    using Cons.prems \<open>0 \<le> digit_val c\<close> by (intro Cons.IH) auto
  finally show ?case by (simp add: digits_val_def)
qed

lemma atoi_loop_correct:
  assumes "\<forall>c \<in> set ds. is_digit c" "\<not> is_digit c0" "0 \<le> b" "b \<le> INT_MAX"
    "sign = 1 \<or> sign = -1"
  shows "atoi_loop sign b (ds @ c0 # rest) = Inr (clamp_int (sign * digits_val b ds))"
  using assms
proof (induction ds arbitrary: b)
  case Nil
  then show ?case by (auto simp: digits_val_def clamp_int_def)
next
  case (Cons c ds)
  let ?b = "10 * b + digit_val c"
  have r: "0 \<le> digit_val c" "digit_val c \<le> 9" using Cons.prems digit_val_range by auto
  have v: "digits_val b (c # ds) = digits_val ?b ds" by (simp add: digits_val_def)
  show ?case
  proof (cases "b > INT_MAX div 10 \<or> b = INT_MAX div 10 \<and> digit_val c > 7")
    case True
    then have "INT_MAX < ?b" using r by auto
    also have "?b \<le> digits_val ?b ds" using Cons.prems r by (intro digits_val_ge) auto
    finally have "INT_MAX < digits_val b (c # ds)" by (simp only: v)
    then show ?thesis using True Cons.prems by (auto simp: clamp_int_def)
  next
    case False
    then have "?b \<le> INT_MAX" using r by auto
    then have "atoi_loop sign ?b (ds @ c0 # rest) = Inr (clamp_int (sign * digits_val ?b ds))"
      using Cons.prems r by (intro Cons.IH) auto
    moreover have "atoi_loop sign b ((c # ds) @ c0 # rest) = atoi_loop sign ?b (ds @ c0 # rest)"
      using False Cons.prems by auto
    ultimately show ?thesis by (simp only: v)
  qed
qed

lemma skip_blanks_append:
  "\<forall>c \<in> set ws. c = CHR '' '' \<or> c = TAB \<Longrightarrow> skip_blanks (ws @ s) = skip_blanks s"
  by (induction ws) auto

text \<open>
  C27 On blanks, an optional sign, digits and a character that is no digit, \<open>my_atoi\<close> returns the
  signed number clamped to the range of \<open>int\<close>; it reads nothing beyond that character.
\<close>

theorem my_atoi_correct:
  assumes ws: "\<forall>c \<in> set ws. c = CHR '' '' \<or> c = TAB"
    and sg: "sg \<in> {[], [CHR ''+''], [CHR ''-'']}"
    and ds: "\<forall>c \<in> set ds. is_digit c"
    and c0: "\<not> is_digit c0" "ds = [] \<and> sg = [] \<longrightarrow> c0 \<notin> {CHR '' '', TAB, CHR ''+'', CHR ''-''}"
  shows "my_atoi (ws @ sg @ ds @ c0 # rest) =
    Inr (clamp_int ((if sg = [CHR ''-''] then -1 else 1) * digits_val 0 ds))"
proof -
  have loop: "sign = 1 \<or> sign = -1 \<Longrightarrow>
      atoi_loop sign 0 (ds @ c0 # rest) = Inr (clamp_int (sign * digits_val 0 ds))" for sign
    using ds c0 by (intro atoi_loop_correct) auto
  show ?thesis
  proof (cases "sg = []")
    case False
    then obtain c where "sg = [c]" "c = CHR ''+'' \<or> c = CHR ''-''" using sg by auto
    then show ?thesis
      using loop [of 1] loop [of "-1"]
      by (auto simp: my_atoi_def skip_blanks_append [OF ws])
  next
    case True
    obtain c cs where s: "ds @ c0 # rest = c # cs" by (cases ds) auto
    have "c \<notin> {CHR '' '', TAB, CHR ''+'', CHR ''-''}"
    proof (cases ds)
      case Nil
      then show ?thesis using s c0 True by simp
    next
      case (Cons d ds')
      then have "is_digit c" using s ds by simp
      then show ?thesis by (auto simp: is_digit_def)
    qed
    then show ?thesis
      using True loop [of 1] s by (simp add: my_atoi_def skip_blanks_append [OF ws])
  qed
qed

theorem my_atoi_correct_witness:
  "my_atoi '' -2147483649;'' = Inr (- 2147483648)"
proof -
  have "my_atoi ('' '' @ ''-'' @ ''2147483649'' @ CHR '';'' # []) =
    Inr (clamp_int ((if ''-'' = [CHR ''-''] then -1 else 1) * digits_val 0 ''2147483649''))"
    by (rule my_atoi_correct) (simp_all add: is_digit_def)
  then show ?thesis by (simp add: clamp_int_def digits_val_def digit_val_def)
qed

end
