(* ===== verification/Chrdev_Text.thy ===== *)
theory Chrdev_Text
  imports Ts_State Chrdev_Numbers
begin

text \<open>
  The text of a char device: how \<open>ts_create_char_device_file\<close> writes it for a new tag service and
  how \<open>update_chrdev\<close> replaces the number of waiting threads of one level. Fresh \<open>kmalloc\<close> memory
  and stack arrays hold arbitrary bytes, given by the functions \<open>j\<close>.
\<close>

definition fresh :: "(nat \<Rightarrow> char) \<Rightarrow> nat \<Rightarrow> buffer" where
  "fresh j n = map j [0..<n]"

lemma length_fresh [simp]: "length (fresh j n) = n"
  by (simp add: fresh_def)

lemma drop_fresh: "m < n \<Longrightarrow> drop m (fresh j n) = j m # drop (Suc m) (fresh j n)"
  by (subst Cons_nth_drop_Suc [symmetric]) (simp_all add: fresh_def)

section \<open>The text of a new device\<close>

definition header :: string where
  "header = ''KEY'' @ [TAB] @ ''EUID'' @ [TAB] @ ''LEVEL'' @ [TAB] @ ''#THREADS'' @ [NL]"

definition header_size :: nat where
  "header_size = 24"

lemma length_header [simp]: "length header = header_size"
  by (simp add: header_def header_size_def)

lemma nul_free_header [simp]: "nul_free header"
  by (simp add: header_def)

text \<open>The format \<open>"%d\<backslash>t%d\<backslash>t%d\<backslash>t%lu\<backslash>n"\<close> and the size handed to \<open>snprintf\<close>.\<close>

definition line_text :: "int \<Rightarrow> 32 word \<Rightarrow> nat \<Rightarrow> nat \<Rightarrow> string" where
  "line_text k e i w =
     show_int k @ [TAB] @ show_int (sint e) @ [TAB] @ show_nat i @ [TAB] @ show_nat w @ [NL]"

definition line_size :: "32 word \<Rightarrow> 64 word \<Rightarrow> int" where
  "line_size e w =
     countCharsOfNumber MAX_TAG_SERVICES + countCharsOfNumber (sint e)
       + countCharsOfNumber MAX_LEVELS + countCharsOfNumber (sint w) + 5"

definition write_line ::
    "buffer \<Rightarrow> buffer \<Rightarrow> int \<Rightarrow> 32 word \<Rightarrow> nat \<Rightarrow> 64 word \<Rightarrow> (buffer \<times> buffer) outcome" where
  "write_line buf line k e i w =
     and_then (snprintf line (nat (line_size e w)) (line_text k e i (unat w))) (\<lambda>l.
     and_then (strlen l) (\<lambda>n.
     and_then (strncat buf l n) (\<lambda>c. Inr (c, l))))"

fun write_lines :: "tag_service \<Rightarrow> nat \<Rightarrow> nat \<Rightarrow> buffer \<Rightarrow> buffer \<Rightarrow> buffer outcome" where
  "write_lines t i 0 buf line = Inr buf"
| "write_lines t i (Suc n) buf line =
     and_then (get_level t (int i)) (\<lambda>lv.
     and_then (write_line buf line (key t) (owner_euid t) i (thread_waiting lv))
       (\<lambda>(c, l). write_lines t (Suc i) n c l))"

definition init_content :: "(nat \<Rightarrow> nat \<Rightarrow> char) \<Rightarrow> tag_service \<Rightarrow> buffer outcome" where
  "init_content j t =
     and_then (strlen (header @ [NUL])) (\<lambda>n.
     and_then (strncpy (fresh (j 0) BUFSIZE) (header @ [NUL]) n)
       (\<lambda>c. write_lines t 0 (nat MAX_LEVELS) c (fresh (j 1) 100)))"

text \<open>Sizes: at most 40 characters of a line are written, for every \<open>int\<close> and \<open>unsigned long\<close>.\<close>

lemma length_show_int_le:
  assumes "\<bar>i\<bar> < 10 ^ k" "0 < k" shows "length (show_int i) \<le> Suc k"
proof -
  have "nat \<bar>i\<bar> < 10 ^ k" using assms(1) by (simp add: nat_less_iff)
  then have "length (show_nat (nat \<bar>i\<bar>)) \<le> k" using assms(2) by (rule length_show_nat_le)
  then show ?thesis by (auto simp: show_int_def)
qed

lemma sint32_bounds: "- 2147483648 \<le> sint (e :: 32 word)" "sint e \<le> 2147483647"
  using sint_greater_eq [of e] sint_less [of e] by simp_all

lemma sint64_bounds:
  "- 9223372036854775808 \<le> sint (w :: 64 word)" "sint w \<le> 9223372036854775807"
  using sint_greater_eq [of w] sint_less [of w] by simp_all

lemma is_long_sint32: "is_long (sint (e :: 32 word))"
  using sint32_bounds [of e] by (simp add: is_long_def)

lemma is_long_sint64: "is_long (sint (w :: 64 word))"
  using sint64_bounds [of w] by (simp add: is_long_def)

lemma length_show_euid: "length (show_int (sint (e :: 32 word))) \<le> 11"
proof -
  have "\<bar>sint e\<bar> < 10 ^ 10" using sint32_bounds [of e] by simp
  from length_show_int_le [OF this] show ?thesis by simp
qed

lemma length_show_count: "length (show_int (sint (w :: 64 word))) \<le> 20"
proof -
  have "\<bar>sint w\<bar> < 10 ^ 19" using sint64_bounds [of w] by simp
  from length_show_int_le [OF this] show ?thesis by simp
qed

lemma length_show_int_pos: "0 < length (show_int i)"
  by (simp add: show_int_def)

lemma line_size_eq:
  "line_size e w = int (length (show_int (sint e)) + length (show_int (sint w)) + 10)"
proof -
  have "countCharsOfNumber 512 = 3" "countCharsOfNumber 32 = 2"
    using countChars_length [of 512] countChars_length [of 32]
    by (simp_all add: is_long_def show_int_def show_nat.simps)
  then show ?thesis
    using countChars_length [OF is_long_sint32 [of e]]
      countChars_length [OF is_long_sint64 [of w]]
    by (simp add: line_size_def)
qed

lemma line_size_bounds: "0 < nat (line_size e w)" "nat (line_size e w) \<le> 41"
  using length_show_euid [of e] length_show_count [of w] by (simp_all add: line_size_eq)

lemma nul_free_line_text [simp]: "nul_free (line_text k e i w)"
  by (simp add: line_text_def)

text \<open>The part of a line that \<open>snprintf\<close> writes.\<close>

definition line_written :: "int \<Rightarrow> 32 word \<Rightarrow> nat \<Rightarrow> 64 word \<Rightarrow> string" where
  "line_written k e i w = take (nat (line_size e w) - 1) (line_text k e i (unat w))"

lemma nul_free_line_written [simp]: "nul_free (line_written k e i w)"
  by (simp add: line_written_def)

lemma length_line_written: "length (line_written k e i w) \<le> 40"
  using line_size_bounds [of e w] by (simp add: line_written_def)

lemma write_line_effect:
  assumes "length line = 100" "nul_free s" "40 < length r"
  shows "\<exists>l'. length l' = 100 \<and> write_line (s @ NUL # r) line k e i w =
    Inr (s @ line_written k e i w @ NUL # drop (length (line_written k e i w)) r, l')"
proof -
  let ?t = "line_written k e i w"
  let ?l = "?t @ NUL # drop (length ?t + 1) line"
  note b = line_size_bounds [of e w] length_line_written [of k e i w]
  have "snprintf line (nat (line_size e w)) (line_text k e i (unat w)) = Inr ?l"
    unfolding snprintf_def Let_def line_written_def [symmetric] using b assms(1) by simp
  moreover have "strncat (s @ NUL # r) ?l (length ?t) =
      Inr (s @ ?t @ NUL # drop (length ?t) r)"
    using assms b by (intro strncat_strings) auto
  ultimately have "write_line (s @ NUL # r) line k e i w =
      Inr (s @ ?t @ NUL # drop (length ?t) r, ?l)"
    by (simp add: write_line_def)
  moreover have "length ?l = 100" using assms(1) b by simp
  ultimately show ?thesis by blast
qed

lemma write_lines_effect:
  assumes "length line = 100" "nul_free s" "40 * n < length r" "i + n \<le> length (level t)"
  shows "\<exists>r'. length s + length r = length s + length r' + length
        (concat (map (\<lambda>m. line_written (key t) (owner_euid t) m (thread_waiting (level t ! m))) [i..<i + n])) \<and>
      write_lines t i n (s @ NUL # r) line =
        Inr (s @ concat (map (\<lambda>m. line_written (key t) (owner_euid t) m (thread_waiting (level t ! m)))
          [i..<i + n]) @ NUL # r')"
  using assms
proof (induction n arbitrary: i s r line)
  case 0
  then show ?case by auto
next
  case (Suc n)
  let ?L = "\<lambda>m. line_written (key t) (owner_euid t) m (thread_waiting (level t ! m))"
  have g: "get_level t (int i) = Inr (level t ! i)"
    using Suc.prems by (simp add: get_level_def in_range_def)
  obtain l' where l': "length l' = 100"
    "write_line (s @ NUL # r) line (key t) (owner_euid t) i (thread_waiting (level t ! i)) =
      Inr (s @ ?L i @ NUL # drop (length (?L i)) r, l')"
    using write_line_effect [OF Suc.prems(1,2), of r] Suc.prems(3) by fastforce
  have "\<exists>r'. length (s @ ?L i) + length (drop (length (?L i)) r) =
        length (s @ ?L i) + length r' + length (concat (map ?L [Suc i..<Suc i + n])) \<and>
      write_lines t (Suc i) n ((s @ ?L i) @ NUL # drop (length (?L i)) r) l' =
        Inr ((s @ ?L i) @ concat (map ?L [Suc i..<Suc i + n]) @ NUL # r')"
    using Suc.prems l'(1) length_line_written [of "key t" "owner_euid t" i "thread_waiting (level t ! i)"]
    by (intro Suc.IH) auto
  moreover have "[i..<i + Suc n] = i # [Suc i..<Suc i + n]"
    by (simp add: upt_rec)
  ultimately show ?case
    using g l' Suc.prems(3)
      length_line_written [of "key t" "owner_euid t" i "thread_waiting (level t ! i)"]
    by auto
qed

text \<open>
  The text of a new char device: after the header, for each of the 32 levels the part of its line that
  fits the size handed to \<open>snprintf\<close>. \<open>strncpy\<close> writes no NUL after the header, so what the fresh buffer
  holds there up to its first NUL, the \<open>gap\<close>, stays in between.
\<close>

definition gap :: "(nat \<Rightarrow> nat \<Rightarrow> char) \<Rightarrow> string" where
  "gap j = c_str (drop header_size (fresh (j 0) BUFSIZE))"

definition small_gap :: "(nat \<Rightarrow> nat \<Rightarrow> char) \<Rightarrow> bool" where
  "small_gap j \<longleftrightarrow> length (gap j) < 2048"

lemma nul_free_gap [simp]: "nul_free (gap j)"
  by (simp add: gap_def)

lemma gap_NUL: "j 0 header_size = NUL \<Longrightarrow> gap j = []"
  using drop_fresh [of header_size BUFSIZE "j 0"] by (simp add: gap_def header_size_def c_str_def)

lemma small_gapE:
  assumes "small_gap j"
  obtains r where "drop header_size (fresh (j 0) BUFSIZE) = gap j @ NUL # r" "2000 < length r"
proof -
  let ?b = "drop header_size (fresh (j 0) BUFSIZE)"
  have l: "length ?b = 4072" by (simp add: header_size_def)
  have "terminated ?b"
  proof (rule ccontr)
    assume "\<not> terminated ?b"
    then have "gap j = ?b" unfolding gap_def by (intro c_str_nul_free) (simp add: terminated_def nul_free_def)
    then have "length (gap j) = 4072" using l by (simp only:)
    then show False using assms by (simp add: small_gap_def)
  qed
  then obtain r where r: "?b = gap j @ NUL # r" unfolding gap_def by (rule terminated_split)
  then have "length (gap j @ NUL # r) = 4072" using l by metis
  then have "2000 < length r" using assms by (simp add: small_gap_def)
  with r show thesis by (rule that)
qed

lemma init_content_text:
  assumes "small_gap j" "length (level t) = 32"
  shows "\<exists>r. init_content j t = Inr (header @ gap j @ concat (map (\<lambda>i.
      line_written (key t) (owner_euid t) i (thread_waiting (level t ! i))) [0..<32]) @ NUL # r)
    \<and> length (header @ gap j @ concat (map (\<lambda>i.
      line_written (key t) (owner_euid t) i (thread_waiting (level t ! i))) [0..<32]) @ NUL # r) = BUFSIZE"
proof -
  let ?L = "\<lambda>i. line_written (key t) (owner_euid t) i (thread_waiting (level t ! i))"
  obtain r0 where r0: "drop header_size (fresh (j 0) BUFSIZE) = gap j @ NUL # r0" "2000 < length r0"
    using small_gapE [OF assms(1)] .
  have c: "strncpy (fresh (j 0) BUFSIZE) (header @ [NUL]) header_size = Inr ((header @ gap j) @ NUL # r0)"
    using r0(1) by (simp add: strncpy_def header_size_def)
  have "\<exists>r'. length (header @ gap j) + length r0 = length (header @ gap j) + length r' + length (concat (map ?L [0..<0 + 32])) \<and>
      write_lines t 0 32 ((header @ gap j) @ NUL # r0) (fresh (j 1) 100) =
        Inr ((header @ gap j) @ concat (map ?L [0..<0 + 32]) @ NUL # r')"
    using assms r0(2) by (intro write_lines_effect) simp_all
  then obtain r' where r': "length r0 = length r' + length (concat (map ?L [0..<32]))"
      "write_lines t 0 32 ((header @ gap j) @ NUL # r0) (fresh (j 1) 100) =
        Inr ((header @ gap j) @ concat (map ?L [0..<32]) @ NUL # r')" by auto
  have "length (gap j @ NUL # r0) = 4072" unfolding r0(1) [symmetric] by (simp add: header_size_def)
  then have l: "length (gap j) + length r0 = 4071" by simp
  have "strlen (header @ [NUL]) = Inr header_size" using strlen_append [of header "[]"] by simp
  then have "init_content j t = write_lines t 0 32 ((header @ gap j) @ NUL # r0) (fresh (j 1) 100)"
    by (simp add: init_content_def c [simplified])
  then have "init_content j t = Inr (header @ gap j @ concat (map ?L [0..<32]) @ NUL # r')" using r'(2) by simp
  moreover have "length (header @ gap j @ concat (map ?L [0..<32]) @ NUL # r') = BUFSIZE"
    using r'(1) l by (simp add: header_size_def)
  ultimately show ?thesis by blast
qed

text \<open>
  If the fresh buffer of a new device holds no NUL after the place of the header, the first
  \<open>strncat\<close> runs past its end: the code depends on memory it never initialised.
\<close>

theorem init_content_needs_zeroed_memory:
  assumes "\<forall>i. header_size \<le> i \<and> i < BUFSIZE \<longrightarrow> j 0 i \<noteq> NUL" "length (level t) = 32"
  shows "init_content j t = Inl OverRead"
proof -
  have c: "strncpy (fresh (j 0) BUFSIZE) (header @ [NUL]) header_size
      = Inr (header @ drop header_size (fresh (j 0) BUFSIZE))"
    by (simp add: strncpy_def header_size_def)
  have nt: "\<not> terminated (header @ drop header_size (fresh (j 0) BUFSIZE))"
    using assms(1) nul_free_header
    by (auto simp: terminated_def nul_free_def fresh_def drop_map)
  obtain l where l: "snprintf (fresh (j 1) 100) (nat (line_size (owner_euid t) (thread_waiting (level t ! 0))))
      (line_text (key t) (owner_euid t) 0 (unat (thread_waiting (level t ! 0)))) = Inr l"
      "strlen l = Inr (length (c_str l))"
  proof -
    let ?t = "line_written (key t) (owner_euid t) 0 (thread_waiting (level t ! 0))"
    have "snprintf (fresh (j 1) 100) (nat (line_size (owner_euid t) (thread_waiting (level t ! 0))))
        (line_text (key t) (owner_euid t) 0 (unat (thread_waiting (level t ! 0))))
        = Inr (?t @ NUL # drop (length ?t + 1) (fresh (j 1) 100))"
      unfolding snprintf_def Let_def line_written_def [symmetric]
      using line_size_bounds [of "owner_euid t" "thread_waiting (level t ! 0)"]
        length_line_written [of "key t" "owner_euid t" 0 "thread_waiting (level t ! 0)"] by simp
    then show thesis by (rule that) simp
  qed
  have "write_lines t 0 32 buf line = write_lines t 0 (Suc 31) buf line" for buf line by simp
  moreover have "get_level t (int 0) = Inr (level t ! 0)"
    using assms(2) by (simp add: get_level_def in_range_def)
  ultimately have "write_lines t 0 32 (header @ drop header_size (fresh (j 0) BUFSIZE)) (fresh (j 1) 100)
      = Inl OverRead"
    using l nt by (simp only: write_lines.simps) (simp add: write_line_def strncat_def)
  moreover have "strlen (header @ [NUL]) = Inr header_size" using strlen_append [of header "[]"] by simp
  ultimately show ?thesis by (simp add: init_content_def c [simplified])
qed

theorem init_content_needs_zeroed_memory_witness:
  "init_content (\<lambda>_ _. CHR ''x'') \<lparr>level = replicate 32 \<lparr>lev_tag = 0, message_ready = 0,
      thread_waiting = 0, message = [], lev_size = 0\<rparr>,
     thread_waiting_message_count = 0, key = 7, tag = 7, permission = 0, owner_euid = 0,
     owner_uid = 0, awake_request = 0, lazy_deleted = 0\<rparr> = Inl OverRead"
  by (rule init_content_needs_zeroed_memory) simp_all

text \<open>When the whole line fits, and what it takes: the key gets room for three characters only.\<close>

definition line_fits :: "int \<Rightarrow> nat \<Rightarrow> bool" where
  "line_fits k i \<longleftrightarrow> length (show_int k) + length (show_nat i) \<le> 5"

lemma line_written_whole:
  assumes "unat w < 2 ^ 63"
  shows "line_written k e i w = line_text k e i (unat w) \<longleftrightarrow> line_fits k i"
proof -
  have "sint w = int (unat w)"
  proof -
    have "int (unat w) < int (2 ^ 63)" using assms by (simp only: of_nat_less_iff)
    then have b: "int (unat w) < 2 ^ 63" by simp
    have c: "- (2 ^ 63) \<le> int (unat w)" by (rule order_trans [of _ 0]) simp_all
    have "sint w = signed_take_bit 63 (int (unat w))" by (simp add: sint_uint flip: uint_nat)
    also have "\<dots> = int (unat w)" by (rule signed_take_bit_int_eq_self) (rule c b)+
    finally show ?thesis .
  qed
  then have "length (show_int (sint w)) = length (show_nat (unat w))" by (simp add: show_int_def)
  moreover have "length (line_text k e i (unat w)) =
      length (show_int k) + length (show_int (sint e)) + length (show_nat i) + length (show_nat (unat w)) + 4"
    by (simp add: line_text_def)
  ultimately show ?thesis
    using length_show_int_pos [of "sint e"]
    by (auto simp: line_written_def line_fits_def line_size_eq)
qed

text \<open>
  A line is written whole, with its final newline, exactly when the characters of the key and of
  the level number are at most five together (for a count below \<open>2^63\<close>): a key of five digits is
  cut on every level and a key of four digits on levels 10 to 31.
\<close>

theorem line_written_whole_iff:
  assumes "unat w < 2 ^ 63"
  shows "line_written k e i w = line_text k e i (unat w)
    \<longleftrightarrow> length (show_int k) + length (show_nat i) \<le> 5"
  using line_written_whole [OF assms] by (simp add: line_fits_def)

theorem line_written_whole_iff_witness:
  "line_written 4321 1000 10 0 \<noteq> line_text 4321 1000 10 0"
proof -
  have "line_written 4321 1000 10 0 = line_text 4321 1000 10 (unat (0 :: 64 word))
      \<longleftrightarrow> length (show_int 4321) + length (show_nat 10) \<le> 5"
    by (rule line_written_whole_iff) simp
  then show ?thesis by (simp add: show_int_def show_nat.simps)
qed

section \<open>The update of one count\<close>

text \<open>
  \<open>update_chrdev\<close> copies the text to a temporary buffer, looks for the newline that ends the line of
  the level, and from there back to the last tab; the text up to that tab, the new count and the
  text from the newline on are put together in a fresh buffer.
\<close>

function scan_newlines :: "buffer \<Rightarrow> int \<Rightarrow> nat \<Rightarrow> int \<Rightarrow> char \<Rightarrow> nat outcome" where
  "scan_newlines temp target i found ch =
     (if found < target \<and> ch \<noteq> NUL then
        if Suc i < length temp then
          scan_newlines temp target (Suc i)
            (if temp ! Suc i = NL then found + 1 else found) (temp ! Suc i)
        else Inl OverRead
      else Inr i)"
  by pat_completeness auto
termination
  by (relation "measure (\<lambda>(temp, target, i, found, ch). length temp - i)") auto

declare scan_newlines.simps [simp del]

fun back_to_tab :: "buffer \<Rightarrow> nat \<Rightarrow> nat" where
  "back_to_tab temp 0 = 0"
| "back_to_tab temp (Suc i) = (if temp ! Suc i \<noteq> TAB then back_to_tab temp i else Suc i)"

definition size_t_of :: "int \<Rightarrow> nat" where
  "size_t_of n = nat (n mod 2 ^ 64)"

definition update_content :: "(nat \<Rightarrow> nat \<Rightarrow> char) \<Rightarrow> int \<Rightarrow> int \<Rightarrow> buffer \<Rightarrow> buffer outcome" where
  "update_content j lev waiting_n old =
     and_then (strlen old) (\<lambda>content_size.
     and_then (memcpy (fresh (j 0) BUFSIZE) old content_size) (\<lambda>temp.
     and_then (scan_newlines temp (lev + 2) 0 0 (CHR ''a'')) (\<lambda>i.
     and_then (strncpy (fresh (j 1) (BUFSIZE div 2)) (drop i temp)
       (size_t_of (int content_size - int i + 1))) (\<lambda>after_string.
     let before_token = back_to_tab temp i + 1 in
     and_then (strncpy (fresh (j 2) (before_token + 1)) temp before_token) (\<lambda>b.
     and_then (arr_set b (int before_token) NUL) (\<lambda>before_string.
     and_then (strncat (fresh (j 3) BUFSIZE) before_string (BUFSIZE div 2)) (\<lambda>f1.
     and_then (sprintf (fresh (j 4) 10) (show_nat (size_t_of waiting_n))) (\<lambda>waiting.
     and_then (strncat f1 waiting (BUFSIZE div 2)) (\<lambda>f2.
     strncat f2 after_string (BUFSIZE div 2))))))))))"

text \<open>The two scans, on a buffer laid out around the newline and the tab they look for.\<close>

lemma scan_newlines_finds:
  assumes "nul_free xs" "ch \<noteq> NUL" "found + int (count_list xs NL) + 1 = target"
  shows "scan_newlines (a # p @ xs @ NL # rest) target (length p) found ch
    = Inr (length p + length xs + 1)"
  using assms
proof (induction xs arbitrary: p found ch)
  case Nil
  then show ?case
    by (auto simp: scan_newlines.simps [of _ _ "length p" found ch]
        scan_newlines.simps [of _ _ "Suc (length p)"] nth_append)
next
  case (Cons x xs)
  let ?found' = "if x = NL then found + 1 else found"
  have "scan_newlines (a # (p @ [x]) @ xs @ NL # rest) target (length (p @ [x])) ?found' x
      = Inr (length (p @ [x]) + length xs + 1)"
    using Cons.prems by (intro Cons.IH) (auto split: if_splits)
  moreover have "scan_newlines (a # p @ (x # xs) @ NL # rest) target (length p) found ch
      = scan_newlines (a # (p @ [x]) @ xs @ NL # rest) target (length (p @ [x])) ?found' x"
    using Cons.prems
    by (simp add: scan_newlines.simps [of _ _ "length p" found ch] nth_append)
  ultimately show ?case by simp
qed

lemma back_to_tab_stays:
  "temp ! Suc i = TAB \<Longrightarrow> back_to_tab temp (Suc i) = Suc i"
  by simp

lemma back_to_tab_finds:
  assumes "\<forall>c \<in> set xs. c \<noteq> TAB" "0 < length p"
  shows "back_to_tab (p @ TAB # xs @ rest) (length p + length xs) = length p"
  using assms(1)
proof (induction xs arbitrary: rest rule: rev_induct)
  case Nil
  obtain n where "length p = Suc n" using assms(2) by (cases "length p") auto
  moreover have "(p @ TAB # [] @ rest) ! length p = TAB" by simp
  ultimately show ?case by simp
next
  case (snoc x xs)
  have "(p @ TAB # (xs @ [x]) @ rest) ! Suc (length p + length xs) = x"
    by (simp add: nth_append)
  then have "back_to_tab (p @ TAB # (xs @ [x]) @ rest) (length p + length (xs @ [x]))
      = back_to_tab (p @ TAB # xs @ x # rest) (length p + length xs)"
    using snoc.prems by simp
  also have "\<dots> = length p" using snoc.prems by (intro snoc.IH) auto
  finally show ?case .
qed

lemma size_t_of_small: "0 \<le> n \<Longrightarrow> n < 2 ^ 64 \<Longrightarrow> size_t_of n = nat n"
  by (simp add: size_t_of_def)

text \<open>
  What uninitialised memory adds to the text: \<open>final_string\<close> is never cleared before the first \<open>strncat\<close>, so
  what it held up to its first NUL stays in \<open>front\<close>; and the byte of \<open>temp_buffer\<close> after the \<open>m\<close> bytes of the
  old text goes \<open>behind\<close> the new one, with what follows in \<open>after_string\<close>, of which \<open>n\<close> bytes are written.
\<close>

definition front :: "(nat \<Rightarrow> nat \<Rightarrow> char) \<Rightarrow> string" where
  "front j = c_str (fresh (j 3) BUFSIZE)"

definition behind :: "(nat \<Rightarrow> nat \<Rightarrow> char) \<Rightarrow> string \<Rightarrow> nat \<Rightarrow> string" where
  "behind j old n = c_str (j 0 (length old) # drop n (fresh (j 1) (BUFSIZE div 2)))"

lemma front_NUL:
  assumes "j 3 0 = NUL" shows "front j = []"
proof -
  have "drop 0 (fresh (j 3) BUFSIZE) = NUL # drop 1 (fresh (j 3) BUFSIZE)"
    using drop_fresh [of 0 BUFSIZE "j 3"] assms by simp
  then obtain r where "fresh (j 3) BUFSIZE = NUL # r" by simp
  then show ?thesis unfolding front_def c_str_def by (simp only: takeWhile.simps) simp
qed

lemma length_c_str_le: "length (c_str b) \<le> length b"
  by (simp add: c_str_def length_takeWhile_le)

lemma behind_NUL: "j 0 (length old) = NUL \<Longrightarrow> behind j old n = []"
  by (simp add: behind_def c_str_def)

lemma frontE:
  assumes "length (front j) < 1000"
  obtains r where "fresh (j 3) BUFSIZE = front j @ NUL # r" "length (front j) + length r = 4095"
proof -
  let ?b = "fresh (j 3) BUFSIZE"
  have l: "length ?b = 4096" by simp
  have "terminated ?b"
  proof (rule ccontr)
    assume "\<not> terminated ?b"
    then have "front j = ?b" unfolding front_def by (intro c_str_nul_free) (simp add: terminated_def nul_free_def)
    then have "length (front j) = 4096" using l by (simp only:)
    then show False using assms by simp
  qed
  then obtain r where r: "?b = front j @ NUL # r" unfolding front_def by (rule terminated_split)
  then have "length (front j @ NUL # r) = 4096" using l by metis
  with r show thesis using that by simp
qed

text \<open>The effect on a text that is split at the tab and the newline of the level.\<close>

lemma update_content_split:
  fixes pre old post :: string
  defines "u \<equiv> pre @ TAB # old @ NL # post"
  assumes nf: "nul_free u" and tabs: "\<forall>c \<in> set old. c \<noteq> TAB \<and> c \<noteq> NL"
    and pre: "pre = a # pre'" "int (count_list pre' NL) = lev + 1"
    and len: "length u < BUFSIZE div 2" and w: "0 \<le> w" "w < 10 ^ 9"
    and j: "length (front j) < 1000" "length (behind j u (length post + 2)) < 1000"
  defines "v \<equiv> front j @ pre @ TAB # show_nat (nat w) @ NL # post @ behind j u (length post + 2)"
  shows "\<exists>r. update_content j lev w (u @ NUL # z) = Inr (v @ NUL # r) \<and> length (v @ NUL # r) = BUFSIZE"
proof -
  let ?i = "length pre + 1 + length old"
  let ?zz = "drop (Suc (length u)) (fresh (j 0) BUFSIZE)"
  let ?x = "j 0 (length u)"
  let ?temp = "u @ ?x # ?zz"
  have lu: "length u = length pre + length old + length post + 2" by (simp add: u_def)
  have 1: "strlen (u @ NUL # z) = Inr (length u)" using nf by simp
  have 2: "memcpy (fresh (j 0) BUFSIZE) (u @ NUL # z) (length u) = Inr ?temp"
    using drop_fresh [of "length u" BUFSIZE "j 0"] len by (simp add: memcpy_def)
  have "scan_newlines (a # [] @ (pre' @ TAB # old) @ NL # post @ ?x # ?zz) (lev + 2) (length ([] :: string)) 0 (CHR ''a'')
      = Inr (length ([] :: string) + length (pre' @ TAB # old) + 1)"
  proof (rule scan_newlines_finds)
    have "count_list old NL = 0" using tabs by (auto simp: count_list_0_iff)
    then show "0 + int (count_list (pre' @ TAB # old) NL) + 1 = lev + 2" using pre by simp
    show "nul_free (pre' @ TAB # old)" using nf pre by (simp add: u_def)
  qed simp
  moreover have "a # [] @ (pre' @ TAB # old) @ NL # post @ ?x # ?zz = ?temp"
    by (simp add: u_def pre)
  ultimately have 3: "scan_newlines ?temp (lev + 2) 0 0 (CHR ''a'') = Inr ?i"
    by (simp only:) (simp add: pre)
  have d: "drop ?i ?temp = (NL # post) @ ?x # ?zz" by (simp add: u_def)
  have n: "size_t_of (int (length u) - int ?i + 1) = length post + 2"
    using len by (subst size_t_of_small) (simp_all add: lu)
  have nfp: "nul_free (NL # post)" using nf by (simp add: u_def)
  let ?q = "drop (length post + 2) (fresh (j 1) (BUFSIZE div 2))"
  have lz: "length ?zz = 4095 - length u" by simp
  have "strncpy (fresh (j 1) (BUFSIZE div 2)) ((NL # post) @ ?x # ?zz) (length post + 2) = Inr ((NL # post) @ ?x # ?q)"
  proof (cases "?x = NUL")
    case True
    then show ?thesis unfolding strncpy_def True c_str_append [OF nfp] using len lu by simp
  next
    case False
    then have "c_str ((NL # post) @ ?x # ?zz) = (NL # post) @ ?x # c_str ?zz"
      unfolding c_str_def using nfp by (subst takeWhile_append2) (auto simp: nul_free_def)
    moreover have "length post + 2 \<le> length ((NL # post) @ ?x # ?zz)" by simp
    ultimately show ?thesis unfolding strncpy_def using len lu by simp
  qed
  then have 4: "strncpy (fresh (j 1) (BUFSIZE div 2)) (drop ?i ?temp)
      (size_t_of (int (length u) - int ?i + 1)) = Inr ((NL # post) @ ?x # ?q)"
    unfolding d n .
  have "back_to_tab (pre @ TAB # (old @ [NL]) @ post @ ?x # ?zz) (length pre + length (old @ [NL])) = length pre"
    using tabs pre by (intro back_to_tab_finds) auto
  then have 5: "back_to_tab ?temp ?i = length pre" by (simp add: u_def)
  let ?bt = "length pre + 1"
  have nfu: "c_str ?temp = u @ c_str (?x # ?zz)"
    unfolding c_str_def using nf by (subst takeWhile_append2) (auto simp: nul_free_def)
  have "?bt \<le> length u" using lu by simp
  then have "strncpy (fresh (j 2) (?bt + 1)) ?temp ?bt = Inr (take ?bt u @ drop ?bt (fresh (j 2) (?bt + 1)))"
    unfolding strncpy_def nfu using lu by simp
  moreover have "take ?bt u = pre @ [TAB]" by (simp add: u_def)
  ultimately obtain c where 6: "strncpy (fresh (j 2) (?bt + 1)) ?temp ?bt = Inr ((pre @ [TAB]) @ [c])"
    using drop_fresh [of ?bt "?bt + 1" "j 2"] by auto
  have 60: "arr_set ((pre @ [TAB]) @ [c]) (int ?bt) NUL = Inr ((pre @ [TAB]) @ NUL # [])"
    by (simp add: in_range_def list_update_append nat_add_distrib)
  have nf1: "nul_free (pre @ [TAB])" using nf by (simp add: u_def)
  let ?g = "front j" and ?h = "behind j u (length post + 2)"
  have nfg: "nul_free ?g" "nul_free ?h" by (simp_all add: front_def behind_def)
  obtain r0 where f0: "fresh (j 3) BUFSIZE = ?g @ NUL # r0" "length ?g + length r0 = 4095" by (rule frontE [OF j(1)])
  have 7: "strncat (fresh (j 3) BUFSIZE) ((pre @ [TAB]) @ NUL # []) (BUFSIZE div 2)
      = Inr (?g @ (pre @ [TAB]) @ NUL # drop (length (pre @ [TAB])) r0)"
    unfolding f0(1) using nf1 nfg len lu j f0(2) by (intro strncat_strings) auto
  have sw: "size_t_of w = nat w" using w by (intro size_t_of_small) auto
  have lw: "length (show_nat (nat w)) \<le> 9" using w by (intro length_show_nat_le) auto
  then obtain q2 where 8: "sprintf (fresh (j 4) 10) (show_nat (size_t_of w)) = Inr (show_nat (nat w) @ NUL # q2)"
    by (simp add: sprintf_def sw)
  let ?r1 = "drop (length (pre @ [TAB])) r0"
  have 9: "strncat ((?g @ pre @ [TAB]) @ NUL # ?r1) (show_nat (nat w) @ NUL # q2) (BUFSIZE div 2)
      = Inr ((?g @ pre @ [TAB]) @ show_nat (nat w) @ NUL # drop (length (show_nat (nat w))) ?r1)"
    using nf1 nfg lw len lu j f0(2) by (intro strncat_strings) auto
  let ?r2 = "drop (length (show_nat (nat w))) ?r1"
  have ca: "c_str ((NL # post) @ ?x # ?q) = (NL # post) @ ?h"
    unfolding behind_def c_str_def using nfp by (subst takeWhile_append2) (auto simp: nul_free_def)
  let ?v = "(?g @ pre @ [TAB]) @ show_nat (nat w)"
  have r2: "length ((NL # post) @ ?h) < length ?r2" using j f0(2) len lu lw by simp
  have "strncat (?v @ NUL # ?r2) ((NL # post) @ ?x # ?q) (BUFSIZE div 2)
      = Inr (?v @ ((NL # post) @ ?h) @ NUL # drop (length ((NL # post) @ ?h)) ?r2)"
  proof -
    have "nul_free ?v" using nf1 nfg by simp
    moreover have "2048 \<le> length ((NL # post) @ ?x # ?q)" using len lu by simp
    moreover have "length ?h \<le> length (?x # ?q)" unfolding behind_def by (rule length_c_str_le)
    then have "length ((NL # post) @ ?h) \<le> 2048" using len lu by simp
    ultimately show ?thesis
      using strncat_whole [of ?v 2048 "(NL # post) @ ?x # ?q" ?r2] r2 unfolding ca by simp
  qed
  then have 10: "strncat ((?g @ pre @ [TAB]) @ show_nat (nat w) @ NUL # ?r2) ((NL # post) @ ?x # ?q) (BUFSIZE div 2)
      = Inr (?v @ ((NL # post) @ ?h) @ NUL # drop (length ((NL # post) @ ?h)) ?r2)"
    by (simp only: append_assoc)
  let ?r = "drop (length ((NL # post) @ ?h)) ?r2"
  have 70: "?g @ (pre @ [TAB]) @ NUL # ?r1 = (?g @ pre @ [TAB]) @ NUL # ?r1" by simp
  have "update_content j lev w (u @ NUL # z) = Inr (?v @ ((NL # post) @ ?h) @ NUL # ?r)"
    unfolding update_content_def
    by (simp only: 1 2 3 4 5 6 60 7 [unfolded 70] 8 9 10 and_then_Inr Let_def)
  moreover have "?v @ ((NL # post) @ ?h) @ NUL # ?r = v @ NUL # ?r" by (simp add: v_def)
  moreover have "length (v @ NUL # ?r) = BUFSIZE" using j f0(2) len lu lw by (simp add: v_def)
  ultimately show ?thesis by metis
qed

section \<open>The status text\<close>

text \<open>
  The text the device is meant to hold: the header and a line for each level, with the number of
  threads waiting there.
\<close>

definition status_text :: "int \<Rightarrow> 32 word \<Rightarrow> nat list \<Rightarrow> string" where
  "status_text k e ws = header @ concat (map (\<lambda>i. line_text k e i (ws ! i)) [0..<length ws])"

definition is_int :: "int \<Rightarrow> bool" where
  "is_int k \<longleftrightarrow> INT_MIN \<le> k \<and> k \<le> INT_MAX"

lemma nul_free_status_text [simp]: "nul_free (status_text k e ws)"
  by (auto simp: status_text_def intro!: nul_free_concat)

lemma upt_split: "l < n \<Longrightarrow> [0..<n] = [0..<l] @ l # [Suc l..<n]"
  by (metis less_imp_le_nat upt_add_eq_append upt_conv_Cons le_Suc_ex zero_le)

lemma status_text_split:
  assumes "l < length ws"
  shows "status_text k e ws =
    (header @ concat (map (\<lambda>i. line_text k e i (ws ! i)) [0..<l]) @
      show_int k @ [TAB] @ show_int (sint e) @ [TAB] @ show_nat l) @
    TAB # show_nat (ws ! l) @ NL # concat (map (\<lambda>i. line_text k e i (ws ! i)) [Suc l..<length ws])"
  by (simp add: status_text_def upt_split [OF assms] line_text_def)

lemma status_text_update:
  assumes "l < length ws"
  shows "status_text k e (ws[l := w]) =
    (header @ concat (map (\<lambda>i. line_text k e i (ws ! i)) [0..<l]) @
      show_int k @ [TAB] @ show_int (sint e) @ [TAB] @ show_nat l) @
    TAB # show_nat w @ NL # concat (map (\<lambda>i. line_text k e i (ws ! i)) [Suc l..<length ws])"
proof -
  have m: "map (\<lambda>i. line_text k e i (ws[l := w] ! i)) [0..<l] = map (\<lambda>i. line_text k e i (ws ! i)) [0..<l]"
    "map (\<lambda>i. line_text k e i (ws[l := w] ! i)) [Suc l..<length ws] =
     map (\<lambda>i. line_text k e i (ws ! i)) [Suc l..<length ws]"
    by auto
  have "l < length (ws[l := w])" using assms by simp
  from status_text_split [OF this, of k e] show ?thesis
    by (simp only: m length_list_update nth_list_update_eq [OF assms])
qed

lemma count_NL_line [simp]: "count_list (line_text k e i w) NL = 1"
proof -
  have "count_list (show_int k) NL = 0" "count_list (show_int (sint e)) NL = 0"
    "count_list (show_nat i) NL = 0" "count_list (show_nat w) NL = 0"
    by (simp_all add: count_list_0_iff show_int_no_specials show_nat_no_specials)
  then show ?thesis by (simp add: line_text_def)
qed

lemma count_list_concat: "count_list (concat xss) x = sum_list (map (\<lambda>xs. count_list xs x) xss)"
  by (induction xss) auto

lemma length_show_key: "is_int k \<Longrightarrow> length (show_int k) \<le> 11"
proof -
  assume "is_int k"
  then have "\<bar>k\<bar> < 10 ^ 10" unfolding is_int_def by auto
  from length_show_int_le [OF this] show ?thesis by simp
qed

lemma length_line_le:
  assumes "is_int k" "i < 32" "w < 10 ^ 10"
  shows "length (line_text k e i w) \<le> 38"
  using length_show_key [OF assms(1)] length_show_euid [of e]
    length_show_nat_le [of i 2] length_show_nat_le [of w 10] assms
  by (simp add: line_text_def)

lemma length_status_le:
  assumes "is_int k" "length ws = 32" "\<forall>w \<in> set ws. w < 10 ^ 10"
  shows "length (status_text k e ws) \<le> 1240"
proof -
  have "length (concat (map (\<lambda>i. line_text k e i (ws ! i)) [0..<32]))
      = (\<Sum>i\<leftarrow>[0..<32]. length (line_text k e i (ws ! i)))"
    by (simp add: length_concat comp_def)
  also have "\<dots> \<le> (\<Sum>i\<leftarrow>[0..<32]. 38)"
    using assms by (intro sum_list_mono length_line_le) auto
  also have "\<dots> = 38 * 32" by (simp add: sum_list_triv)
  finally show ?thesis using assms by (simp add: status_text_def header_size_def)
qed

text \<open>
  \<open>update_chrdev\<close> on the text of a device: in the text itself exactly the count of the given level is
  replaced, for every key, owner, level and vector of counts, as long as the new count has at most nine
  digits (the array \<open>waiting\<close> has ten bytes) and what uninitialised memory adds leaves room for it.
\<close>

text \<open>The bytes copied to \<open>after_string\<close>: from the newline of the level to the end of the text, and one more.\<close>

definition after_size :: "int \<Rightarrow> 32 word \<Rightarrow> nat list \<Rightarrow> nat \<Rightarrow> nat" where
  "after_size k e ws l = length (concat (map (\<lambda>i. line_text k e i (ws ! i)) [Suc l..<length ws])) + 2"

lemma update_content_status:
  assumes k: "is_int k" and ws: "length ws = 32" "\<forall>w \<in> set ws. w < 10 ^ 10" and l: "l < 32"
    and w: "w < 10 ^ 9"
    and j: "length (front j) < 1000" "length (behind j (status_text k e ws) (after_size k e ws l)) < 1000"
  defines "v \<equiv> front j @ status_text k e (ws[l := w]) @ behind j (status_text k e ws) (after_size k e ws l)"
  shows "\<exists>r. update_content j (int l) (int w) (status_text k e ws @ NUL # z) = Inr (v @ NUL # r)
    \<and> length (v @ NUL # r) = BUFSIZE"
proof -
  let ?L = "\<lambda>i. line_text k e i (ws ! i)"
  define pre where "pre = header @ concat (map ?L [0..<l]) @
      show_int k @ [TAB] @ show_int (sint e) @ [TAB] @ show_nat l"
  define post where "post = concat (map ?L [Suc l..<length ws])"
  have ll: "l < length ws" using l ws by simp
  have u: "status_text k e ws = pre @ TAB # show_nat (ws ! l) @ NL # post"
    unfolding pre_def post_def by (rule status_text_split [OF ll])
  have v: "status_text k e (ws[l := w]) = pre @ TAB # show_nat (nat (int w)) @ NL # post"
    unfolding pre_def post_def nat_int by (rule status_text_update [OF ll])
  have pre: "pre = CHR ''K'' # tl pre" by (simp add: pre_def header_def)
  have "count_list pre NL = 1 + l"
  proof -
    have "count_list (concat (map ?L [0..<l])) NL = l"
      by (simp add: count_list_concat comp_def sum_list_triv)
    moreover have "count_list (show_int k) NL = 0" "count_list (show_int (sint e)) NL = 0"
      "count_list (show_nat l) NL = 0"
      by (simp_all add: count_list_0_iff show_int_no_specials show_nat_no_specials)
    moreover have "count_list header NL = 1" by (simp add: header_def)
    ultimately show ?thesis by (simp add: pre_def)
  qed
  then have c: "int (count_list (tl pre) NL) = int l + 1" by (subst (asm) pre) simp
  have len: "length (status_text k e ws) < BUFSIZE div 2"
    using length_status_le [OF k ws, of e] by simp
  have as: "after_size k e ws l = length post + 2" by (simp add: after_size_def post_def)
  let ?h = "behind j (pre @ TAB # show_nat (ws ! l) @ NL # post) (length post + 2)"
  have v': "v = front j @ pre @ TAB # show_nat (nat (int w)) @ NL # post @ ?h"
    unfolding v_def v u as by simp
  show ?thesis unfolding v' unfolding u
  proof (rule update_content_split [OF _ _ pre c])
    show "nul_free (pre @ TAB # show_nat (ws ! l) @ NL # post)"
      using nul_free_status_text [of k e ws] by (simp only: u)
    show "\<forall>c\<in>set (show_nat (ws ! l)). c \<noteq> TAB \<and> c \<noteq> NL"
      using show_nat_no_specials [of "ws ! l"] by metis
    show "length (pre @ TAB # show_nat (ws ! l) @ NL # post) < BUFSIZE div 2" using len by (simp only: u)
    show "length ?h < 1000" using j(2) unfolding u as .
  qed (use w j in simp_all)
qed

end
