(* ===== verification/Device_Driver.thy ===== *)
theory Device_Driver
  imports Chrdev_Text Tag_Slots
begin

text \<open>
  The char device driver, \<open>tag_device_driver.c\<close>: creation, update and removal of the device of a tag
  service, the file operations, and what the driver promises to the system calls that use it.
\<close>

section \<open>Creation, update, removal\<close>

definition set_cdev :: "int \<Rightarrow> bool \<Rightarrow> kstate \<Rightarrow> kstate" where
  "set_cdev i b s = s\<lparr>dm := (dm s)\<lparr>cdev_added := (cdev_added (dm s))[nat i := b]\<rparr>\<rparr>"

definition set_content :: "int \<Rightarrow> content_ptr \<Rightarrow> kstate \<Rightarrow> kstate" where
  "set_content i c s = s\<lparr>dm := (dm s)\<lparr>content := (content (dm s))[nat i := c]\<rparr>\<rparr>"

definition get_content :: "kstate \<Rightarrow> int \<Rightarrow> buffer outcome" where
  "get_content s i = and_then (arr_get (content (dm s)) i)
     (\<lambda>c. case c of Dangling \<Rightarrow> Inl UseAfterFree | Content b \<Rightarrow> Inr b)"

definition deref :: "kstate \<Rightarrow> nat option \<Rightarrow> tag_service outcome" where
  "deref s p = (case p of None \<Rightarrow> Inl NullDeref | Some a \<Rightarrow> get_ts s a)"

text \<open>\<open>device_create\<close> gives an error pointer also when its class is one.\<close>

definition device_create_result :: "kenv \<Rightarrow> kstate \<Rightarrow> int" where
  "device_create_result e s = (if ts_class (dm s) = ClassErr then - ENODEV else device_create_err e)"

definition ts_create_char_device_file :: "kenv \<Rightarrow> int \<Rightarrow> kstate \<Rightarrow> (int \<times> kstate) outcome" where
  "ts_create_char_device_file e tag_minor s =
     (if ts_class (dm s) = ClassNull then Inl KernelBug
      else
        and_then (slot s tag_minor) (\<lambda>p.
        and_then (dev_lock tag_minor s) (\<lambda>s.
        if cdev_add_err e \<noteq> 0 then
          and_then (dev_unlock tag_minor s) (\<lambda>s. Inr (cdev_add_err e, s))
        else
          let s = set_cdev tag_minor True s in
          if device_create_result e s \<noteq> 0 then
            and_then (dev_unlock tag_minor s)
              (\<lambda>s'. Inr (device_create_result e s, set_cdev tag_minor False s'))
          else
            and_then (deref s p) (\<lambda>t.
            and_then (init_content (junk e) t) (\<lambda>c.
            and_then (dev_unlock tag_minor (set_content tag_minor (Content c) s)) (\<lambda>s. Inr (0, s)))))))"

definition ts_destroy_char_device_file :: "int \<Rightarrow> kstate \<Rightarrow> kstate outcome" where
  "ts_destroy_char_device_file tag_minor s =
     (if ts_class (dm s) = ClassNull then Inl KernelBug
      else
        and_then (dev_lock tag_minor s) (\<lambda>s.
        if ts_class (dm s) = ClassErr then Inl NullDeref
        else
          let s = set_cdev tag_minor False s in
          and_then (get_content s tag_minor) (\<lambda>_.
          dev_unlock tag_minor (set_content tag_minor Dangling s))))"

text \<open>
  \<open>update_chrdev\<close> in its parts: up to \<open>mutex_lock\<close> it only looks up the service and reads the count that it
  is going to show (None: it returns -1); then, under the device lock, it builds the new text, frees the
  old one, and only then assigns the pointer (which dangles in between) and unlocks.
\<close>

definition update_begin :: "int \<Rightarrow> int \<Rightarrow> kstate \<Rightarrow> (nat \<times> int) option outcome" where
  "update_begin tag_minor lev s =
     (if tag_minor > MAX_TAG_SERVICES \<or> tag_minor < -1 \<or> lev > MAX_LEVELS \<or> lev < 0 then Inr None
      else
        and_then (slot s tag_minor) (\<lambda>p.
        case p of
          None \<Rightarrow> Inr None
        | Some a \<Rightarrow>
            and_then (get_ts s a) (\<lambda>t.
            and_then (get_level t lev) (\<lambda>l. Inr (Some (a, atomic_read (thread_waiting l)))))))"

definition update_free :: "kenv \<Rightarrow> int \<Rightarrow> nat \<Rightarrow> int \<Rightarrow> kstate \<Rightarrow> ((int \<times> buffer) \<times> kstate) outcome" where
  "update_free e lev a waiting_n s =
     and_then (get_ts s a) (\<lambda>t.
     and_then (dev_lock (tag t) s) (\<lambda>s.
     and_then (get_content s (tag t)) (\<lambda>old.
     and_then (update_content (junk e) lev waiting_n old) (\<lambda>new.
     Inr ((tag t, new), set_content (tag t) Dangling s)))))"

definition update_assign :: "int \<Rightarrow> buffer \<Rightarrow> kstate \<Rightarrow> kstate outcome" where
  "update_assign i new s = dev_unlock i (set_content i (Content new) s)"

definition update_finish :: "kenv \<Rightarrow> int \<Rightarrow> nat \<Rightarrow> int \<Rightarrow> kstate \<Rightarrow> kstate outcome" where
  "update_finish e lev a waiting_n s =
     and_then (update_free e lev a waiting_n s) (\<lambda>((i, new), s). update_assign i new s)"

definition update_chrdev :: "kenv \<Rightarrow> int \<Rightarrow> int \<Rightarrow> kstate \<Rightarrow> (int \<times> kstate) outcome" where
  "update_chrdev e tag_minor lev s =
     and_then (update_begin tag_minor lev s) (\<lambda>r. case r of
       None \<Rightarrow> Inr (-1, s)
     | Some (a, waiting_n) \<Rightarrow> and_then (update_finish e lev a waiting_n s) (\<lambda>s. Inr (0, s)))"

section \<open>The driver's interface\<close>

text \<open>
  The part of the state that belongs to \<open>tag_service.c\<close>. The system calls rely on the driver
  to leave it alone and to come back with the device locks as they were; whatever they prove about
  their own state is then kept across a call of the driver.
\<close>

definition core :: "kstate \<Rightarrow> kstate" where
  "core s = s\<lparr>dm := undefined\<rparr>"

locale char_driver =
  fixes create :: "kenv \<Rightarrow> int \<Rightarrow> 's \<Rightarrow> (int \<times> 's) outcome"
    and update :: "kenv \<Rightarrow> int \<Rightarrow> int \<Rightarrow> 's \<Rightarrow> (int \<times> 's) outcome"
    and destroy :: "int \<Rightarrow> 's \<Rightarrow> 's outcome"
    and client :: "'s \<Rightarrow> 'c"
    and locks :: "'s \<Rightarrow> int \<Rightarrow> bool"
  assumes create_client: "create e i s = Inr (r, s') \<Longrightarrow> client s' = client s \<and> locks s' = locks s"
    and update_client: "update e i l s = Inr (r, s') \<Longrightarrow> client s' = client s \<and> locks s' = locks s"
    and destroy_client: "destroy i s = Inr s' \<Longrightarrow> client s' = client s \<and> locks s' = locks s"
begin

lemma updates_client:
  assumes "update e i l s = Inr (r, s')" "update e' i' l' s' = Inr (r', s'')"
  shows "client s'' = client s" "locks s'' = locks s"
  using update_client [OF assms(1)] update_client [OF assms(2)] by auto

lemma create_destroy_client:
  assumes "create e i s = Inr (r, s')" "destroy i s' = Inr s''"
  shows "client s'' = client s" "locks s'' = locks s"
  using create_client [OF assms(1)] destroy_client [OF assms(2)] by auto

end

lemma core_dm [simp]: "core (s\<lparr>dm := d\<rparr>) = core s"
  by (simp add: core_def)

lemma core_set_cdev [simp]: "core (set_cdev i b s) = core s"
  by (simp add: set_cdev_def)

lemma core_set_content [simp]: "core (set_content i c s) = core s"
  by (simp add: set_content_def)

lemma core_dev_lock: "dev_lock i s = Inr s' \<Longrightarrow> core s' = core s"
  by (auto simp: dev_lock_def elim!: and_then_InrE)

lemma core_dev_unlock: "dev_unlock i s = Inr s' \<Longrightarrow> core s' = core s"
  by (auto simp: dev_unlock_def elim!: and_then_InrE)

lemma dev_held_set_cdev [simp]: "dev_held (set_cdev i b s) = dev_held s"
  by (rule ext) (simp add: set_cdev_def dev_held_def)

lemma dev_held_set_content [simp]: "dev_held (set_content i c s) = dev_held s"
  by (rule ext) (simp add: set_content_def dev_held_def)

lemma ts_class_dev_lock: "dev_lock i s = Inr s' \<Longrightarrow> ts_class (dm s') = ts_class (dm s)"
  by (auto simp: dev_lock_def elim!: and_then_InrE)

text \<open>A section between \<open>dev_lock\<close> and \<open>dev_unlock\<close> that leaves the locks alone restores them.\<close>

lemma dev_section:
  assumes "dev_lock i s = Inr s1" "dev_held s2 = dev_held s1" "dev_unlock i s2 = Inr s3"
    and "length (device_lock (dm s2)) = length (device_lock (dm s1))"
  shows "dev_held s3 = dev_held s"
proof -
  have "in_range (device_lock (dm s1)) i" "\<not> dev_held s i" "\<And>j. dev_held s1 j = (j = i \<or> dev_held s j)"
    using device.lock_effect [OF assms(1)] by metis+
  moreover have "in_range (device_lock (dm s2)) i" using calculation assms(4) by (simp add: in_range_def)
  from device.unlock_effect [OF this] assms(3)
  have "\<And>j. dev_held s3 j = (j \<noteq> i \<and> dev_held s2 j)" by auto
  ultimately show ?thesis using assms(2) by auto
qed

lemma length_device_lock [simp]:
  "length (device_lock (dm (set_cdev i b s))) = length (device_lock (dm s))"
  "length (device_lock (dm (set_content i c s))) = length (device_lock (dm s))"
  by (simp_all add: set_cdev_def set_content_def)

lemma dev_section_core:
  assumes "dev_lock i s = Inr s1" "dev_unlock i s2 = Inr s3" "core s2 = core s1"
  shows "core s3 = core s"
  using core_dev_lock [OF assms(1)] core_dev_unlock [OF assms(2)] assms(3) by simp

lemma dev_section_held:
  assumes "dev_lock i s = Inr s1" "dev_unlock i s2 = Inr s3" "dev_held s2 = dev_held s1"
    and "length (device_lock (dm s2)) = length (device_lock (dm s1))"
  shows "dev_held s3 = dev_held s"
  using dev_section [OF assms(1,3,2,4)] .

lemma set_content_twice: "set_content i c (set_content i d s) = set_content i c s"
  by (simp add: set_content_def)

lemma update_finish_eq:
  "update_finish e lev a waiting_n s =
     and_then (get_ts s a) (\<lambda>t.
     and_then (dev_lock (tag t) s) (\<lambda>s.
     and_then (get_content s (tag t)) (\<lambda>old.
     and_then (update_content (junk e) lev waiting_n old) (\<lambda>new.
     dev_unlock (tag t) (set_content (tag t) (Content new) s)))))"
  by (simp add: update_finish_def update_free_def update_assign_def and_then_assoc set_content_twice)

lemma update_finish_client:
  "update_finish e lev a n s = Inr s' \<Longrightarrow> core s' = core s \<and> dev_held s' = dev_held s"
  by (auto simp: update_finish_eq elim!: and_then_InrE split: if_splits option.splits)
    (erule (1) dev_section_core, simp | erule (1) dev_section_held, simp, simp)+

lemma update_chrdev_cases:
  assumes "update_chrdev e i lev s = Inr (r, s')"
  obtains "s' = s" | a n where "update_finish e lev a n s = Inr s'"
  using assms by (auto simp: update_chrdev_def elim!: and_then_InrE split: option.splits)

interpretation drv: char_driver ts_create_char_device_file update_chrdev
    ts_destroy_char_device_file core dev_held
proof
  fix e i s r s'
  assume "ts_create_char_device_file e i s = Inr (r, s')"
  then show "core s' = core s \<and> dev_held s' = dev_held s"
    by (auto simp: ts_create_char_device_file_def Let_def
        elim!: and_then_InrE split: if_splits)
      (erule (1) dev_section_core, simp | erule (1) dev_section_held, simp, simp)+
next
  fix e i l s r s'
  assume "update_chrdev e i l s = Inr (r, s')"
  then show "core s' = core s \<and> dev_held s' = dev_held s"
    using update_finish_client by (metis update_chrdev_cases)
next
  fix i s s'
  assume "ts_destroy_char_device_file i s = Inr s'"
  then show "core s' = core s \<and> dev_held s' = dev_held s"
    by (auto simp: ts_destroy_char_device_file_def Let_def
        elim!: and_then_InrE split: if_splits)
      (erule (1) dev_section_core, simp | erule (1) dev_section_held, simp, simp)+
qed

lemma core_eqD:
  assumes "core s' = core s"
  shows "tsm s' = tsm s" "heap s' = heap s" "live s' = live s" "next_addr s' = next_addr s"
    "rcu_readers s' = rcu_readers s" "rcu_queue s' = rcu_queue s" "module_refs s' = module_refs s"
  using assms by (cases s; cases s'; simp add: core_def)+

section \<open>What a creation and an update achieve\<close>

definition driver_wf :: "kstate \<Rightarrow> bool" where
  "driver_wf s \<longleftrightarrow> ts_class (dm s) = ClassOk \<and> length (cdev_added (dm s)) = 512
     \<and> length (device_lock (dm s)) = 512 \<and> length (content (dm s)) = 512"

lemma driver_wf_dev_lock: "dev_lock i s = Inr s' \<Longrightarrow> driver_wf s' = driver_wf s"
  by (auto simp: dev_lock_def lock_at_cases driver_wf_def split: if_splits)

lemma driver_wf_dev_unlock: "dev_unlock i s = Inr s' \<Longrightarrow> driver_wf s' = driver_wf s"
  by (auto simp: dev_unlock_def unlock_at_cases driver_wf_def split: if_splits)

lemma driver_wf_set [simp]:
  "driver_wf (set_cdev i b s) = driver_wf s" "driver_wf (set_content i c s) = driver_wf s"
  by (simp_all add: driver_wf_def set_cdev_def set_content_def)

lemmas driver_wf_sections = driver_wf_dev_lock driver_wf_dev_unlock

lemma create_driver_wf:
  "ts_create_char_device_file e i s = Inr (r, s') \<Longrightarrow> driver_wf s' = driver_wf s"
  by (auto simp: ts_create_char_device_file_def Let_def driver_wf_sections
      elim!: and_then_InrE split: if_splits)

lemma update_finish_driver_wf:
  "update_finish e l a n s = Inr s' \<Longrightarrow> driver_wf s' = driver_wf s"
  by (auto simp: update_finish_eq driver_wf_sections elim!: and_then_InrE)

lemma update_parts_driver_wf:
  "update_free e l a n s = Inr (x, s') \<Longrightarrow> driver_wf s' = driver_wf s"
  "update_assign i new s = Inr s' \<Longrightarrow> driver_wf s' = driver_wf s"
  by (auto simp: update_free_def update_assign_def driver_wf_sections elim!: and_then_InrE)

lemma update_driver_wf:
  "update_chrdev e i l s = Inr (r, s') \<Longrightarrow> driver_wf s' = driver_wf s"
  using update_finish_driver_wf by (metis update_chrdev_cases)

lemma destroy_driver_wf:
  "ts_destroy_char_device_file i s = Inr s' \<Longrightarrow> driver_wf s' = driver_wf s"
  by (auto simp: ts_destroy_char_device_file_def Let_def driver_wf_sections
      elim!: and_then_InrE split: if_splits)

definition counts :: "tag_service \<Rightarrow> nat list" where
  "counts t = map (\<lambda>l. unat (thread_waiting l)) (level t)"

text \<open>The buffer of the device of \<open>t\<close> holds the status of \<open>t\<close>.\<close>

definition shows_status :: "kstate \<Rightarrow> int \<Rightarrow> int \<Rightarrow> 32 word \<Rightarrow> nat list \<Rightarrow> bool" where
  "shows_status s i k e ws \<longleftrightarrow> (\<exists>r. get_content s i = Inr (status_text k e ws @ NUL # r)
     \<and> length (status_text k e ws @ NUL # r) = BUFSIZE)"

lemma dev_lock_ok:
  "driver_wf s \<Longrightarrow> 0 \<le> i \<Longrightarrow> i < 512 \<Longrightarrow> \<not> dev_held s i \<Longrightarrow>
   dev_lock i s = Inr (s\<lparr>dm := (dm s)\<lparr>device_lock := (device_lock (dm s))[nat i := True]\<rparr>\<rparr>)"
  by (simp add: dev_lock_def lock_at_cases dev_held_def driver_wf_def in_range_def)

lemma dev_unlock_ok:
  "in_range (device_lock (dm s)) i \<Longrightarrow>
   dev_unlock i s = Inr (s\<lparr>dm := (dm s)\<lparr>device_lock := (device_lock (dm s))[nat i := False]\<rparr>\<rparr>)"
  by (simp add: dev_unlock_def unlock_at_cases)

lemma create_device_ok:
  assumes wf: "driver_wf s" and i: "0 \<le> i" "i < 512" and free: "\<not> dev_held s i"
    and t: "slot s i = Inr (Some a)" "heap s a = Some t" "length (level t) = 32"
    and e: "cdev_add_err e = 0" "device_create_err e = 0" "small_gap (junk e)"
  obtains s' r where "ts_create_char_device_file e i s = Inr (0, s')"
    "driver_wf s'" "cdev_added (dm s') ! nat i"
    "get_content s' i = Inr (header @ gap (junk e) @ concat (map (\<lambda>m.
       line_written (key t) (owner_euid t) m (thread_waiting (level t ! m))) [0..<32]) @ NUL # r)"
    "length (header @ gap (junk e) @ concat (map (\<lambda>m.
       line_written (key t) (owner_euid t) m (thread_waiting (level t ! m))) [0..<32]) @ NUL # r) = BUFSIZE"
proof -
  from init_content_text [of "junk e" t] e(3) t(3) obtain r where r:
    "init_content (junk e) t = Inr (header @ gap (junk e) @ concat (map (\<lambda>m.
       line_written (key t) (owner_euid t) m (thread_waiting (level t ! m))) [0..<32]) @ NUL # r)"
    "length (header @ gap (junk e) @ concat (map (\<lambda>m.
       line_written (key t) (owner_euid t) m (thread_waiting (level t ! m))) [0..<32]) @ NUL # r) = BUFSIZE"
    by blast
  let ?b = "header @ gap (junk e) @ concat (map (\<lambda>m.
       line_written (key t) (owner_euid t) m (thread_waiting (level t ! m))) [0..<32]) @ NUL # r"
  let ?s1 = "s\<lparr>dm := (dm s)\<lparr>device_lock := (device_lock (dm s))[nat i := True]\<rparr>\<rparr>"
  let ?s2 = "set_content i (Content ?b) (set_cdev i True ?s1)"
  let ?s3 = "?s2\<lparr>dm := (dm ?s2)\<lparr>device_lock := (device_lock (dm ?s2))[nat i := False]\<rparr>\<rparr>"
  have rng: "in_range (device_lock (dm ?s2)) i"
    using wf i by (simp add: driver_wf_def in_range_def set_content_def set_cdev_def)
  have d: "deref (set_cdev i True ?s1) (Some a) = Inr t"
    using t by (simp add: deref_def get_ts_def set_cdev_def)
  have c: "ts_class (dm s) = ClassOk" "ts_class (dm (set_cdev i True ?s1)) = ClassOk"
    using wf by (simp_all add: driver_wf_def set_cdev_def)
  have dc: "device_create_result e (set_cdev i True ?s1) = 0"
    using c(2) e(2) by (simp only: device_create_result_def) simp
  have "ts_create_char_device_file e i s = Inr (0, ?s3)"
    unfolding ts_create_char_device_file_def t(1) and_then_Inr dev_lock_ok [OF wf i free] Let_def
    using c e d dc r(1) dev_unlock_ok [OF rng] by simp
  moreover have "driver_wf ?s3" using wf by (simp add: driver_wf_def set_content_def set_cdev_def)
  moreover have "cdev_added (dm ?s3) ! nat i"
    using wf i by (simp add: driver_wf_def set_content_def set_cdev_def)
  moreover have "get_content ?s3 i = Inr ?b"
    using wf i by (simp add: driver_wf_def set_content_def set_cdev_def get_content_def in_range_def)
  ultimately show thesis using that r(2) by blast
qed

lemma status_text_new:
  assumes "length (level t) = 32" "\<forall>i<32. line_fits (key t) i"
    "\<forall>l \<in> set (level t). unat (thread_waiting l) < 2 ^ 63"
  shows "header @ concat (map (\<lambda>m.
       line_written (key t) (owner_euid t) m (thread_waiting (level t ! m))) [0..<32])
    = status_text (key t) (owner_euid t) (counts t)"
proof -
  have "map (\<lambda>m. line_written (key t) (owner_euid t) m (thread_waiting (level t ! m))) [0..<32]
      = map (\<lambda>m. line_text (key t) (owner_euid t) m (counts t ! m)) [0..<32]"
  proof (rule map_cong [OF refl])
    fix m assume "m \<in> set [0..<32]"
    then have m: "m < 32" by simp
    then have "line_written (key t) (owner_euid t) m (thread_waiting (level t ! m))
        = line_text (key t) (owner_euid t) m (unat (thread_waiting (level t ! m)))"
      using assms by (subst line_written_whole) auto
    then show "line_written (key t) (owner_euid t) m (thread_waiting (level t ! m))
        = line_text (key t) (owner_euid t) m (counts t ! m)"
      using m assms(1) by (simp add: counts_def)
  qed
  moreover have "length (counts t) = 32" using assms(1) by (simp add: counts_def)
  ultimately show ?thesis by (simp only: status_text_def)
qed

text \<open>The text that an update leaves, with what uninitialised memory adds to it.\<close>

definition updated_text :: "kenv \<Rightarrow> int \<Rightarrow> 32 word \<Rightarrow> nat list \<Rightarrow> nat \<Rightarrow> nat \<Rightarrow> string" where
  "updated_text e k o' ws l w = front (junk e) @ status_text k o' (ws[l := w]) @
     behind (junk e) (status_text k o' ws) (after_size k o' ws l)"

definition room_for :: "kenv \<Rightarrow> int \<Rightarrow> 32 word \<Rightarrow> nat list \<Rightarrow> nat \<Rightarrow> bool" where
  "room_for e k o' ws l \<longleftrightarrow> length (front (junk e)) < 1000
     \<and> length (behind (junk e) (status_text k o' ws) (after_size k o' ws l)) < 1000"

lemma nothing_added:
  assumes "junk e 0 (length (status_text k o' ws)) = NUL" "junk e 3 0 = NUL"
  shows "room_for e k o' ws l" "updated_text e k o' ws l w = status_text k o' (ws[l := w])"
  using front_NUL [of "junk e"] behind_NUL [of "junk e" "status_text k o' ws"] assms
  by (simp_all add: room_for_def updated_text_def)

lemma update_finish_text:
  assumes wf: "driver_wf s" and i: "0 \<le> i" "i < 512" and free: "\<not> dev_held s i"
    and t: "heap s a = Some t" "tag t = i"
    and l: "l < 32" "w < 10 ^ 9"
    and ws: "shows_status s i ky ow ws" "length ws = 32" "\<forall>w \<in> set ws. w < 10 ^ 10" "is_int ky"
    and j: "room_for e ky ow ws l"
  obtains s' r where "update_finish e (int l) a (int w) s = Inr s'" "driver_wf s'"
    "get_content s' i = Inr (updated_text e ky ow ws l w @ NUL # r)"
    "length (updated_text e ky ow ws l w @ NUL # r) = BUFSIZE"
proof -
  let ?T = "status_text ky ow" and ?v = "updated_text e ky ow ws l w"
  obtain z where z: "get_content s i = Inr (?T ws @ NUL # z)" using ws(1) by (auto simp: shows_status_def)
  have j': "length (front (junk e)) < 1000" "length (behind (junk e) (?T ws) (after_size ky ow ws l)) < 1000"
    using j by (simp_all add: room_for_def)
  from update_content_status [OF ws(4,2,3) l j'] obtain r where r:
    "update_content (junk e) (int l) (int w) (?T ws @ NUL # z) = Inr (?v @ NUL # r)"
    "length (?v @ NUL # r) = BUFSIZE" unfolding updated_text_def by blast
  let ?s1 = "s\<lparr>dm := (dm s)\<lparr>device_lock := (device_lock (dm s))[nat i := True]\<rparr>\<rparr>"
  let ?s2 = "set_content i (Content (?v @ NUL # r)) ?s1"
  let ?s3 = "?s2\<lparr>dm := (dm ?s2)\<lparr>device_lock := (device_lock (dm ?s2))[nat i := False]\<rparr>\<rparr>"
  have rng: "in_range (device_lock (dm ?s2)) i"
    using wf i by (simp add: driver_wf_def in_range_def set_content_def)
  have c: "get_content ?s1 i = Inr (?T ws @ NUL # z)" using z by (simp add: get_content_def)
  have "update_finish e (int l) a (int w) s = Inr ?s3"
    using t c r(1) dev_unlock_ok [OF rng]
    by (simp add: update_finish_eq get_ts_def dev_lock_ok [OF wf i free])
  moreover have "driver_wf ?s3" using wf by (simp add: driver_wf_def set_content_def)
  moreover have "get_content ?s3 i = Inr (?v @ NUL # r)"
    using wf i by (simp add: driver_wf_def set_content_def get_content_def in_range_def)
  ultimately show thesis using that r(2) by blast
qed

lemma update_finish_shows:
  assumes "driver_wf s" "0 \<le> i" "i < 512" "\<not> dev_held s i" "heap s a = Some t" "tag t = i" "l < 32" "w < 10 ^ 9"
    and ws: "shows_status s i ky ow ws" "length ws = 32" "\<forall>w \<in> set ws. w < 10 ^ 10" "is_int ky"
    and j: "junk e 0 (length (status_text ky ow ws)) = NUL" "junk e 3 0 = NUL"
  obtains s' where "update_finish e (int l) a (int w) s = Inr s'" "driver_wf s'" "shows_status s' i ky ow (ws[l := w])"
proof -
  note N = nothing_added [OF j]
  obtain s' r where s': "update_finish e (int l) a (int w) s = Inr s'" "driver_wf s'"
    "get_content s' i = Inr (updated_text e ky ow ws l w @ NUL # r)"
    "length (updated_text e ky ow ws l w @ NUL # r) = BUFSIZE"
    by (rule update_finish_text [OF assms(1-8) ws N(1)])
  have "shows_status s' i ky ow (ws[l := w])" using s'(3,4) unfolding N(2) shows_status_def by blast
  with s'(1,2) show thesis by (rule that)
qed

lemma update_begin_reads:
  assumes "0 \<le> i" "i < 512" "slot s i = Inr (Some a)" "heap s a = Some t" "length (level t) = 32"
    "l < 32" "unat (thread_waiting (level t ! l)) < 10 ^ 9"
  shows "update_begin i (int l) s = Inr (Some (a, int (unat (thread_waiting (level t ! l)))))"
proof -
  have "atomic_read (thread_waiting (level t ! l)) = int (unat (thread_waiting (level t ! l)))"
    using assms(7) by (intro atomic_read_small) simp
  then show ?thesis using assms by (simp add: update_begin_def get_ts_def get_level_def in_range_def)
qed

lemma update_chrdev_shows:
  assumes wf: "driver_wf s" and i: "0 \<le> i" "i < 512" and free: "\<not> dev_held s i"
    and t: "slot s i = Inr (Some a)" "heap s a = Some t" "tag t = i" "length (level t) = 32"
    and l: "l < 32" "unat (thread_waiting (level t ! l)) < 10 ^ 9"
    and ws: "shows_status s i (key t) (owner_euid t) ws" "length ws = 32"
      "\<forall>w \<in> set ws. w < 10 ^ 10" "is_int (key t)"
    and j: "junk e 0 (length (status_text (key t) (owner_euid t) ws)) = NUL" "junk e 3 0 = NUL"
  shows "\<exists>s'. update_chrdev e i (int l) s = Inr (0, s') \<and> driver_wf s' \<and>
    shows_status s' i (key t) (owner_euid t) (ws[l := unat (thread_waiting (level t ! l))])"
proof -
  obtain s' where "update_finish e (int l) a (int (unat (thread_waiting (level t ! l)))) s = Inr s'" "driver_wf s'"
    "shows_status s' i (key t) (owner_euid t) (ws[l := unat (thread_waiting (level t ! l))])"
    by (rule update_finish_shows [OF wf i free t(2,3) l ws j])
  then show ?thesis using update_begin_reads [OF i t(1,2,4) l] by (simp add: update_chrdev_def)
qed


text \<open>A module with one tag service, of key 5, with \<open>w\<close> threads in level 3, and its device.\<close>

definition demo_level :: tag_level where
  "demo_level = \<lparr>lev_tag = 5, message_ready = NOT_READY, thread_waiting = 0,
     message = replicate 4096 NUL, lev_size = 0\<rparr>"

definition demo_service :: "64 word \<Rightarrow> tag_service" where
  "demo_service w = \<lparr>level = (replicate 32 demo_level)[3 := demo_level\<lparr>thread_waiting := w\<rparr>],
     thread_waiting_message_count = w, key = 5, tag = 5, permission = ONLY_OWNER,
     owner_euid = 1000, owner_uid = 1000, awake_request = NO, lazy_deleted = NO\<rparr>"

definition demo_text :: buffer where
  "demo_text = (let b = status_text 5 1000 (replicate 32 0) @ [NUL] in
     b @ replicate (BUFSIZE - length b) NUL)"

definition one_service :: "64 word \<Rightarrow> kstate" where
  "one_service w =
     \<lparr>tsm = \<lparr>first_free_entry = 0, remaining_entries = 511, access_lock = replicate 512 False,
        major = 240, all_tag_services = (replicate ARRAY_SLOTS None)[5 := Some 0]\<rparr>,
      heap = [0 \<mapsto> demo_service w], live = {}, next_addr = 1, rcu_readers = {}, rcu_queue = [],
      dm = \<lparr>ts_class = ClassOk, ts_major = 240, cdev_added = (replicate 512 False)[5 := True],
        device_lock = replicate 512 False, content = (replicate 512 Dangling)[5 := Content demo_text]\<rparr>,
      module_refs = 0\<rparr>"

lemma one_service_driver: "driver_wf (one_service w)" "\<not> dev_held (one_service w) i"
  by (auto simp: driver_wf_def one_service_def dev_held_def held_at_def in_range_def)

lemma one_service_shows: "shows_status (one_service w) 5 5 1000 (replicate 32 0)"
proof -
  have len: "length (status_text 5 1000 (replicate 32 0)) \<le> 1240"
    by (rule length_status_le) (simp_all add: is_int_def)
  then show ?thesis
    by (auto simp: shows_status_def get_content_def one_service_def demo_text_def Let_def in_range_def)
qed


end
