(* ===== verification/Tag_Get.thy ===== *)
theory Tag_Get
  imports Tag_Slots Device_Driver
begin

text \<open>
  The system call \<open>tag_get\<close>, in the pieces between which other threads can run: the checks and the
  choice of the tag, the critical section under \<open>access_lock[tag]\<close> (creation or opening), and
  after a creation the decrement of the free entries and the char device.
\<close>

section \<open>The module's reference count\<close>

definition module_get :: "kstate \<Rightarrow> kstate" where
  "module_get s = s\<lparr>module_refs := module_refs s + 1\<rparr>"

definition module_put :: "kstate \<Rightarrow> kstate" where
  "module_put s = s\<lparr>module_refs := module_refs s - 1\<rparr>"

section \<open>Creation\<close>

definition kmark :: "kobj \<Rightarrow> kstate \<Rightarrow> kstate" where
  "kmark o' s = s\<lparr>live := insert o' (live s)\<rparr>"

definition kfree :: "kobj \<Rightarrow> kstate \<Rightarrow> kstate" where
  "kfree o' s = s\<lparr>live := live s - {o'}\<rparr>"

definition new_level :: "int \<Rightarrow> tag_level" where
  "new_level i = \<lparr>lev_tag = i, message_ready = NOT_READY, thread_waiting = 0,
     message = replicate MAX_MESSAGE_SIZE NUL, lev_size = 0\<rparr>"

text \<open>
  The loop that sets up the levels and allocates their message buffers: the levels made so far
  (their number is \<open>lev_created\<close>), and whether it got to the end. Allocation 0 of the call is the
  struct, 1 the array of levels, \<open>2 + lev\<close> the message of level \<open>lev\<close>.
\<close>

fun init_levels :: "kenv \<Rightarrow> nat \<Rightarrow> int \<Rightarrow> nat \<Rightarrow> nat \<Rightarrow> tag_level list \<Rightarrow> kstate
    \<Rightarrow> bool \<times> nat \<times> tag_level list \<times> kstate" where
  "init_levels e p i lev 0 ls s = (True, lev, ls, s)"
| "init_levels e p i lev (Suc n) ls s =
     (if alloc_ok e (2 + lev) then
        init_levels e p i (Suc lev) n (ls @ [new_level i]) (kmark (MessageObj p lev) s)
      else (False, lev, ls, s))"

fun free_messages :: "nat \<Rightarrow> nat \<Rightarrow> kstate \<Rightarrow> kstate" where
  "free_messages p 0 s = s"
| "free_messages p (Suc n) s = kfree (MessageObj p n) (free_messages p n s)"

definition new_service :: "kenv \<Rightarrow> int \<Rightarrow> int \<Rightarrow> int \<Rightarrow> tag_level list \<Rightarrow> tag_service" where
  "new_service e k i perm ls =
     \<lparr>level = ls, thread_waiting_message_count = 0, key = (if k = IPC_PRIVATE then -1 else k),
      tag = i, permission = perm, owner_euid = euid e, owner_uid = uid e,
      awake_request = NO, lazy_deleted = NO\<rparr>"

text \<open>The label \<open>fail_no_mem\<close>: the messages made, the array of levels (maybe NULL), the struct.\<close>

definition fail_no_mem :: "nat \<Rightarrow> nat \<Rightarrow> kstate \<Rightarrow> kstate" where
  "fail_no_mem p lev_created s =
     module_put (kfree (TsObj p) (kfree (LevelsObj p) (free_messages p lev_created s)))"

text \<open>
  The critical section of \<open>CREATE_TAG\<close>. \<open>Some r\<close> is a return with code \<open>r\<close>; \<open>None\<close> goes on after the
  critical section with \<open>tag_get_publish\<close>.
\<close>

definition tag_get_create :: "kenv \<Rightarrow> int \<Rightarrow> int \<Rightarrow> int \<Rightarrow> kstate \<Rightarrow> (int option \<times> kstate) outcome" where
  "tag_get_create e k perm i s =
     and_then (is_entry_available i s) (\<lambda>a.
     if a = 0 then
       and_then (mutex_unlock i s) (\<lambda>s. Inr (Some (- ENOKEY), module_put s))
     else if \<not> alloc_ok e 0 then
       and_then (mutex_unlock i s) (\<lambda>s. Inr (Some (- EFAULT), module_put s))
     else
       let p = next_addr s; s = kmark (TsObj p) (s\<lparr>next_addr := p + 1\<rparr>) in
       if \<not> alloc_ok e 1 then
         and_then (mutex_unlock i s) (\<lambda>s. Inr (Some (- ENOMEM), fail_no_mem p 0 s))
       else
         case init_levels e p i 0 (nat MAX_LEVELS) [] (kmark (LevelsObj p) s) of
           (good, lev_created, ls, s) \<Rightarrow>
             if \<not> good then
               and_then (mutex_unlock i s) (\<lambda>s. Inr (Some (- ENOMEM), fail_no_mem p lev_created s))
             else
               and_then (set_slot i (Some p) (put_ts p (new_service e k i perm ls) s)) (\<lambda>s.
               and_then (mutex_unlock i s) (\<lambda>s. Inr (None, s))))"

definition dec_remaining :: "kstate \<Rightarrow> kstate" where
  "dec_remaining s = s\<lparr>tsm := (tsm s)\<lparr>remaining_entries := atomic_dec (remaining_entries (tsm s))\<rparr>\<rparr>"

definition tag_get_device :: "kenv \<Rightarrow> int \<Rightarrow> kstate \<Rightarrow> (int \<times> kstate) outcome" where
  "tag_get_device e i s =
     and_then (ts_create_char_device_file e i s) (\<lambda>(_, s). Inr (i, module_put s))"

definition tag_get_publish :: "kenv \<Rightarrow> int \<Rightarrow> kstate \<Rightarrow> (int \<times> kstate) outcome" where
  "tag_get_publish e i s = tag_get_device e i (dec_remaining s)"

section \<open>Opening\<close>

definition tag_get_open :: "kenv \<Rightarrow> int \<Rightarrow> int \<Rightarrow> kstate \<Rightarrow> (int \<times> kstate) outcome" where
  "tag_get_open e k i s =
     and_then (is_entry_available i s) (\<lambda>a.
     if a = 0 \<and> k \<noteq> IPC_PRIVATE then
       and_then (slot s i) (\<lambda>p.
       and_then (deref s p) (\<lambda>t.
       if lazy_deleted t = YES then
         and_then (mutex_unlock i s) (\<lambda>s. Inr (- EBADR, module_put s))
       else if owner_euid t \<noteq> euid e \<and> permission t = ONLY_OWNER then
         and_then (mutex_unlock i s) (\<lambda>s. Inr (- EACCES, module_put s))
       else
         and_then (mutex_unlock i s) (\<lambda>s. Inr (i, module_put s))))
     else
       and_then (mutex_unlock i s) (\<lambda>s. Inr (- EBADR, module_put s)))"

section \<open>The system call\<close>

text \<open>The checks and the choice of the tag: a return code, or the tag to lock.\<close>

definition tag_get_select :: "int \<Rightarrow> int \<Rightarrow> int \<Rightarrow> kstate \<Rightarrow> ((int + int) \<times> kstate) outcome" where
  "tag_get_select k command perm s =
     (let s = module_get s in
      if (perm \<noteq> EVERYONE \<and> perm \<noteq> ONLY_OWNER) \<or> (command \<noteq> CREATE_TAG \<and> command \<noteq> OPEN_TAG) then
        Inr (Inl (- EINVAL), module_put s)
      else if k \<noteq> IPC_PRIVATE then Inr (Inr (hash_function k), s)
      else
        and_then (find_first_entry_available s) (\<lambda>(i, s).
        if i = -1 \<and> command = CREATE_TAG then Inr (Inl (- ENOMEM), module_put s)
        else Inr (Inr i, s)))"

definition tag_get_locked :: "kenv \<Rightarrow> int \<Rightarrow> int \<Rightarrow> int \<Rightarrow> int \<Rightarrow> kstate \<Rightarrow> (int option \<times> kstate) outcome" where
  "tag_get_locked e k command perm i s =
     and_then (mutex_lock i s) (\<lambda>s.
     if command = CREATE_TAG then tag_get_create e k perm i s
     else if command = OPEN_TAG then
       and_then (tag_get_open e k i s) (\<lambda>(r, s). Inr (Some r, s))
     else and_then (mutex_unlock i s) (\<lambda>s. Inr (Some (- ENOSYS), module_put s)))"

definition tag_get :: "kenv \<Rightarrow> int \<Rightarrow> int \<Rightarrow> int \<Rightarrow> kstate \<Rightarrow> (int \<times> kstate) outcome" where
  "tag_get e k command perm s =
     and_then (tag_get_select k command perm s) (\<lambda>(r, s).
     case r of
       Inl code \<Rightarrow> Inr (code, s)
     | Inr i \<Rightarrow>
         and_then (tag_get_locked e k command perm i s) (\<lambda>(done', s).
         case done' of
           Some code \<Rightarrow> Inr (code, s)
         | None \<Rightarrow> tag_get_publish e i s))"

section \<open>Frame facts\<close>

lemma module_ok_core:
  assumes "core s' = core s" shows "module_ok s' = module_ok s"
  using core_eqD [OF assms]
  by (simp add: module_ok_def table_wf_def counter_ok_def entries_ok_def entry_def free_entries_def)

lemma entry_core: "core s' = core s \<Longrightarrow> entry s' = entry s"
  by (drule core_eqD(1)) (simp add: entry_def fun_eq_iff)

lemma held_core: "core s' = core s \<Longrightarrow> held s' = held s"
  by (drule core_eqD(1)) (simp add: held_def fun_eq_iff)

lemma free_entries_core: "core s' = core s \<Longrightarrow> free_entries s' = free_entries s"
  by (drule entry_core) (simp add: free_entries_def)

definition unlocked :: "int \<Rightarrow> kstate \<Rightarrow> kstate" where
  "unlocked i s = s\<lparr>tsm := (tsm s)\<lparr>access_lock := (access_lock (tsm s))[nat i := False]\<rparr>\<rparr>"

lemma unlocked_frame [simp]:
  "heap (unlocked i s) = heap s" "live (unlocked i s) = live s" "next_addr (unlocked i s) = next_addr s"
  "module_refs (unlocked i s) = module_refs s" "dm (unlocked i s) = dm s" "entry (unlocked i s) = entry s"
  "remaining_entries (tsm (unlocked i s)) = remaining_entries (tsm s)"
  "rcu_queue (unlocked i s) = rcu_queue s" "rcu_readers (unlocked i s) = rcu_readers s"
  by (simp_all add: unlocked_def entry_def fun_eq_iff)

lemma mutex_lock_ok:
  "table_wf s \<Longrightarrow> 0 \<le> i \<Longrightarrow> i < 512 \<Longrightarrow> \<not> held s i \<Longrightarrow>
   mutex_lock i s = Inr (s\<lparr>tsm := (tsm s)\<lparr>access_lock := (access_lock (tsm s))[nat i := True]\<rparr>\<rparr>)"
  by (simp add: mutex_lock_def lock_at_cases held_def table_wf_def in_range_def)

lemma mutex_lock_InrD:
  "mutex_lock i s = Inr s' \<Longrightarrow> in_range (access_lock (tsm s)) i \<and> \<not> held s i \<and>
     s' = s\<lparr>tsm := (tsm s)\<lparr>access_lock := (access_lock (tsm s))[nat i := True]\<rparr>\<rparr>"
  by (auto simp: mutex_lock_def lock_at_cases held_def split: if_splits)

lemma mutex_unlock_eq:
  "mutex_unlock i s = (if in_range (access_lock (tsm s)) i then Inr (unlocked i s) else Inl OutOfBounds)"
  by (simp add: mutex_unlock_def unlock_at_cases unlocked_def)

lemma mutex_unlock_InrD:
  "mutex_unlock i s = Inr s' \<Longrightarrow> in_range (access_lock (tsm s)) i \<and> s' = unlocked i s"
  by (simp add: mutex_unlock_eq split: if_splits)

lemma held_unlocked:
  "in_range (access_lock (tsm s)) i \<Longrightarrow> held (unlocked i s) j = (j \<noteq> i \<and> held s j)"
  by (simp add: held_def held_at_update unlocked_def)

lemma module_refs_put_get [simp]:
  "module_refs (module_put s) = module_refs s - 1" "module_refs (module_get s) = module_refs s + 1"
  by (simp_all add: module_put_def module_get_def)

lemma module_put_get_frame [simp]:
  "tsm (module_put s) = tsm s" "heap (module_put s) = heap s" "live (module_put s) = live s"
  "next_addr (module_put s) = next_addr s" "dm (module_put s) = dm s"
  "tsm (module_get s) = tsm s" "heap (module_get s) = heap s" "live (module_get s) = live s"
  "next_addr (module_get s) = next_addr s" "dm (module_get s) = dm s"
  "rcu_queue (module_put s) = rcu_queue s" "rcu_queue (module_get s) = rcu_queue s"
  "rcu_readers (module_put s) = rcu_readers s" "rcu_readers (module_get s) = rcu_readers s"
  by (simp_all add: module_put_def module_get_def)

lemma entry_frame [simp]:
  "entry (module_put s) = entry s" "entry (module_get s) = entry s"
  "entry (s\<lparr>next_addr := n\<rparr>) = entry s" "entry (s\<lparr>live := L\<rparr>) = entry s"
  "entry (s\<lparr>heap := h\<rparr>) = entry s" "entry (s\<lparr>dm := d\<rparr>) = entry s"
  "entry (s\<lparr>rcu_queue := q\<rparr>) = entry s" "entry (s\<lparr>rcu_readers := rd\<rparr>) = entry s"
  by (simp_all add: entry_def fun_eq_iff)

lemma held_frame [simp]:
  "held (module_put s) = held s" "held (module_get s) = held s"
  "held (s\<lparr>next_addr := n\<rparr>) = held s" "held (s\<lparr>live := L\<rparr>) = held s"
  "held (s\<lparr>heap := h\<rparr>) = held s" "held (s\<lparr>dm := d\<rparr>) = held s"
  "held (s\<lparr>rcu_queue := q\<rparr>) = held s" "held (s\<lparr>rcu_readers := rd\<rparr>) = held s"
  by (simp_all add: held_def fun_eq_iff)

section \<open>The allocations of a creation\<close>

lemma init_levels_effect:
  assumes "init_levels e p i lev n ls s = (good, c, ls', s')"
  shows "s' = s\<lparr>live := live s \<union> MessageObj p ` {lev..<c}\<rparr> \<and> ls' = ls @ replicate (c - lev) (new_level i)
    \<and> lev \<le> c \<and> c \<le> lev + n \<and> good = (\<forall>m \<in> {lev..<lev + n}. alloc_ok e (2 + m))
    \<and> (good \<longrightarrow> c = lev + n)"
  using assms
proof (induction n arbitrary: lev ls s)
  case 0
  then show ?case by auto
next
  case (Suc n)
  show ?case
  proof (cases "alloc_ok e (2 + lev)")
    case True
    let ?s = "kmark (MessageObj p lev) s"
    have IH: "s' = ?s\<lparr>live := live ?s \<union> MessageObj p ` {Suc lev..<c}\<rparr>"
      "ls' = (ls @ [new_level i]) @ replicate (c - Suc lev) (new_level i)" "Suc lev \<le> c"
      "c \<le> Suc lev + n" "good = (\<forall>m \<in> {Suc lev..<Suc lev + n}. alloc_ok e (2 + m))"
      "good \<longrightarrow> c = Suc lev + n"
      using Suc.IH [of "Suc lev" "ls @ [new_level i]" ?s] Suc.prems True by auto
    have r: "{lev..<c} = insert lev {Suc lev..<c}" "{lev..<lev + Suc n} = insert lev {Suc lev..<Suc lev + n}"
      using IH(3) by auto
    have "replicate (c - lev) (new_level i) = new_level i # replicate (c - Suc lev) (new_level i)"
      using IH(3) by (metis Suc_diff_le diff_Suc_Suc replicate_Suc)
    then show ?thesis using IH True unfolding r by (auto simp: kmark_def)
  next
    case False
    then show ?thesis using Suc.prems by auto
  qed
qed

lemma free_messages_effect:
  "free_messages p n s = s\<lparr>live := live s - MessageObj p ` {..<n}\<rparr>"
proof (induction n)
  case 0
  then show ?case by simp
next
  case (Suc n)
  have "A - insert x B = A - B - {x}" for A B :: "kobj set" and x by auto
  with Suc show ?case by (simp add: kfree_def lessThan_Suc)
qed

lemma fail_no_mem_effect:
  "fail_no_mem p c s = module_put (s\<lparr>live := live s - MessageObj p ` {..<c} - {LevelsObj p} - {TsObj p}\<rparr>)"
  by (simp add: fail_no_mem_def free_messages_effect kfree_def module_put_def)

text \<open>No object of the ledger has an address that is still to be given out.\<close>

fun obj_addr :: "kobj \<Rightarrow> nat" where
  "obj_addr (TsObj p) = p" | "obj_addr (LevelsObj p) = p" | "obj_addr (MessageObj p l) = p"

definition ledger_ok :: "kstate \<Rightarrow> bool" where
  "ledger_ok s \<longleftrightarrow> (\<forall>o' \<in> live s. obj_addr o' < next_addr s)"

lemma ledger_fresh:
  "ledger_ok s \<Longrightarrow> TsObj (next_addr s) \<notin> live s" "ledger_ok s \<Longrightarrow> LevelsObj (next_addr s) \<notin> live s"
  "ledger_ok s \<Longrightarrow> MessageObj (next_addr s) l \<notin> live s"
  unfolding ledger_ok_def by force+

text \<open>The two ways a creation returns: failed and cleaned up, or with the new service in its entry.\<close>

lemma tag_get_create_fails:
  assumes c: "tag_get_create e k perm i s = Inr (Some r, s')" and l: "ledger_ok s"
  shows "in_range (access_lock (tsm s)) i \<and> r \<in> {- ENOKEY, - EFAULT, - ENOMEM} \<and>
    (\<exists>n. next_addr s \<le> n \<and> s' = module_put (unlocked i (s\<lparr>next_addr := n\<rparr>)))"
proof -
  let ?p = "next_addr s"
  let ?s1 = "kmark (TsObj ?p) (s\<lparr>next_addr := ?p + 1\<rparr>)"
  have same: "s\<lparr>next_addr := ?p\<rparr> = s" by simp
  obtain a where a: "is_entry_available i s = Inr a" using c
    by (auto simp: tag_get_create_def elim!: and_then_InrE)
  obtain good m ls s2 where il: "init_levels e ?p i 0 32 [] (kmark (LevelsObj ?p) ?s1) = (good, m, ls, s2)"
    by (metis prod_cases4)
  have s2: "s2 = (kmark (LevelsObj ?p) ?s1)\<lparr>live := live (kmark (LevelsObj ?p) ?s1) \<union> MessageObj ?p ` {0..<m}\<rparr>"
    using init_levels_effect [OF il] by simp
  note fresh = ledger_fresh [OF l]
  have f0: "fail_no_mem ?p 0 (unlocked i ?s1) = module_put (unlocked i (s\<lparr>next_addr := ?p + 1\<rparr>))"
    using fresh by (simp add: fail_no_mem_effect kmark_def unlocked_def)
  have L: "insert (LevelsObj ?p) (insert (TsObj ?p) (live s)) \<union> MessageObj ?p ` {0..<m} - MessageObj ?p ` {..<m}
        - {LevelsObj ?p} - {TsObj ?p} = live s"
    using fresh by auto
  have f1: "fail_no_mem ?p m (unlocked i s2) = module_put (unlocked i (s\<lparr>next_addr := ?p + 1\<rparr>))"
    using L by (simp add: fail_no_mem_effect kmark_def unlocked_def s2)
  have "in_range (access_lock (tsm s)) i \<and> r \<in> {- ENOKEY, - EFAULT, - ENOMEM} \<and>
      (s' = module_put (unlocked i s) \<or> s' = module_put (unlocked i (s\<lparr>next_addr := ?p + 1\<rparr>)))"
    using c a il f0 f1
    by (auto simp: tag_get_create_def Let_def mutex_unlock_eq kmark_def s2 elim!: and_then_InrE split: if_splits)
  then show ?thesis using same by (metis le_add1 order_refl)
qed

lemma tag_get_create_succeeds:
  assumes c: "tag_get_create e k perm i s = Inr (None, s')"
  shows "in_range (access_lock (tsm s)) i \<and> in_range (all_tag_services (tsm s)) i
    \<and> entry s (nat i) = None \<and> (\<forall>n<34. alloc_ok e n) \<and>
    s' = unlocked i (s\<lparr>next_addr := next_addr s + 1,
      live := live s \<union> {TsObj (next_addr s), LevelsObj (next_addr s)} \<union> MessageObj (next_addr s) ` {0..<32},
      heap := (heap s)(next_addr s \<mapsto> new_service e k i perm (replicate 32 (new_level i))),
      tsm := (tsm s)\<lparr>all_tag_services := (all_tag_services (tsm s))[nat i := Some (next_addr s)]\<rparr>\<rparr>)"
proof -
  let ?p = "next_addr s"
  let ?s1 = "kmark (TsObj ?p) (s\<lparr>next_addr := ?p + 1\<rparr>)"
  obtain good m ls s2 where il: "init_levels e ?p i 0 32 [] (kmark (LevelsObj ?p) ?s1) = (good, m, ls, s2)"
    by (metis prod_cases4)
  note eff = init_levels_effect [OF il]
  have g: good "alloc_ok e 0" "alloc_ok e 1" and a: "entry s (nat i) = None" "in_range (all_tag_services (tsm s)) i"
    and r: "set_slot i (Some ?p) (put_ts ?p (new_service e k i perm ls) s2) = Inr s3 \<Longrightarrow>
      in_range (access_lock (tsm s3)) i \<and> s' = unlocked i s3" for s3
    using c il
    by (auto simp: tag_get_create_def is_entry_available_def slot_def entry_def Let_def mutex_unlock_eq
        elim!: and_then_InrE dest!: arr_get_InrD split: if_splits)
  have m: "m = 32" "ls = replicate 32 (new_level i)" using eff g by auto
  have "alloc_ok e n" if "n < 34" for n
  proof -
    show ?thesis
    proof (cases "n < 2")
      case True
      then show ?thesis using g by (auto simp: less_2_cases_iff)
    next
      case False
      then obtain j where "n = 2 + j" by (metis le_Suc_ex linorder_not_less)
      then show ?thesis using g eff that by auto
    qed
  qed
  moreover have "live (kmark (LevelsObj ?p) ?s1) \<union> MessageObj ?p ` {0..<32} =
      live s \<union> {TsObj ?p, LevelsObj ?p} \<union> MessageObj ?p ` {0..<32}"
    by (auto simp: kmark_def)
  ultimately show ?thesis
    using r a eff m by (simp add: set_slot_def put_ts_def kmark_def)
qed

lemma booted_ledger: "ledger_ok (booted m)"
  by (simp add: ledger_ok_def booted_def)

text \<open>
  C21 A creation that fails, for whatever reason (the entry is taken, or any of its 34 allocations
  fails), has released everything it allocated, has left the table, the tag services and the counter
  alone, and has released the lock and its reference to the module.
\<close>

theorem tag_get_create_failure_clean:
  assumes "tag_get_create e k perm i s = Inr (Some r, s')" "ledger_ok s"
  shows "live s' = live s \<and> heap s' = heap s \<and> entry s' = entry s
    \<and> remaining_entries (tsm s') = remaining_entries (tsm s)
    \<and> (\<forall>j. held s' j = (j \<noteq> i \<and> held s j)) \<and> module_refs s' = module_refs s - 1
    \<and> r \<in> {- ENOKEY, - EFAULT, - ENOMEM}"
  using tag_get_create_fails [OF assms] by (auto simp: held_unlocked)

theorem tag_get_create_failure_clean_witness:
  "\<exists>r s'. tag_get_create (plain_env 1000 \<lparr>alloc_ok := (\<lambda>n. n < 5)\<rparr>) 7 EVERYONE 7 (booted 240) = Inr (Some r, s')
     \<and> live s' = {} \<and> module_refs s' = -1"
proof -
  obtain r s' where c: "tag_get_create (plain_env 1000 \<lparr>alloc_ok := (\<lambda>n. n < 5)\<rparr>) 7 EVERYONE 7 (booted 240)
      = Inr (Some r, s')"
    by (simp add: tag_get_create_def is_entry_available_def slot_def Let_def numeral_eq_Suc
        in_range_def booted_def plain_env_def mutex_unlock_eq kmark_def fail_no_mem_effect)
  from tag_get_create_failure_clean [OF c booted_ledger] show ?thesis using c
    by (auto simp: booted_def)
qed

section \<open>The mounted module\<close>

lemma booted_driver: "driver_wf (booted m)" "\<not> dev_held (booted m) i" "\<not> held (booted m) i"
  by (auto simp: driver_wf_def booted_def dev_held_def held_def held_at_def in_range_def)

section \<open>What \<open>tag_get\<close> achieves\<close>

lemma module_ok_frame [simp]:
  "module_ok (module_put s) = module_ok s" "module_ok (module_get s) = module_ok s"
  by (simp_all add: module_ok_def table_wf_def counter_ok_def entries_ok_def free_entries_def)

lemma free_entries_frame [simp]:
  "free_entries (module_put s) = free_entries s" "free_entries (module_get s) = free_entries s"
  "free_entries (unlocked i s) = free_entries s"
  by (simp_all add: free_entries_def)

lemma table_wf_module_get [simp]: "table_wf (module_get s) = table_wf s"
  by (simp add: table_wf_def)

lemma dev_held_frame [simp]:
  "dev_held (module_put s) = dev_held s" "dev_held (module_get s) = dev_held s"
  "dev_held (unlocked i s) = dev_held s" "dev_held (s\<lparr>tsm := m\<rparr>) = dev_held s"
  by (simp_all add: dev_held_def fun_eq_iff)

lemma driver_wf_frame [simp]:
  "driver_wf (module_put s) = driver_wf s" "driver_wf (module_get s) = driver_wf s"
  "driver_wf (unlocked i s) = driver_wf s" "driver_wf (s\<lparr>tsm := m\<rparr>) = driver_wf s"
  by (simp_all add: driver_wf_def)

lemma ts_wf_new: "ts_wf i (new_service e k i perm (replicate 32 (new_level i)))"
  by (simp add: ts_wf_def new_service_def level_wf_def new_level_def)

text \<open>The entry table after a creation in the free entry \<open>i\<close>.\<close>

lemma module_ok_insert:
  assumes ok: "module_ok s" and i: "i \<in> free_entries s" and t: "ts_wf (int i) t"
    and s': "tsm s' = (tsm s)\<lparr>all_tag_services := (all_tag_services (tsm s))[i := Some (next_addr s)],
        remaining_entries := atomic_dec (remaining_entries (tsm s)), access_lock := al\<rparr>"
      "length al = 512" "heap s' = (heap s)(next_addr s \<mapsto> t)" "next_addr s' = next_addr s + 1"
  shows "module_ok s' \<and> free_entries s' = free_entries s - {i}
    \<and> entry s' = (entry s)(i := Some (next_addr s))"
proof -
  have i512: "i < 512" using i by (simp add: free_entries_def)
  have len: "length (all_tag_services (tsm s)) = 4096" using ok by (simp add: module_ok_def table_wf_def)
  have e: "entry s' = (entry s)(i := Some (next_addr s))"
    using s'(1) i512 len by (auto simp: entry_def fun_eq_iff)
  have f: "free_entries s' = free_entries s - {i}"
    by (auto simp: free_entries_def e)
  have "card (free_entries s) = unat (remaining_entries (tsm s))"
    using ok by (simp add: module_ok_def counter_ok_def)
  moreover have "0 < card (free_entries s)" using i by (auto simp: card_gt_0_iff)
  ultimately have "unat (remaining_entries (tsm s')) = card (free_entries s')"
    using i card_free_le [of s] by (simp add: s'(1) f unat_atomic_dec)
  then have c: "counter_ok s'" by (simp add: counter_ok_def)
  have fresh: "heap s (next_addr s) = None" using ok by (force simp: module_ok_def entries_ok_def)
  have "entries_ok s'"
    unfolding entries_ok_def e s'(3,4)
  proof (intro conjI allI impI)
    fix j p assume j: "j < 512" "((entry s)(i := Some (next_addr s))) j = Some p"
    show "\<exists>u. ((heap s)(next_addr s \<mapsto> t)) p = Some u \<and> ts_wf (int j) u"
    proof (cases "j = i")
      case True
      then show ?thesis using j t by simp
    next
      case False
      then have "entry s j = Some p" using j by simp
      then obtain u where "heap s p = Some u" "ts_wf (int j) u"
        using j(1) ok unfolding module_ok_def entries_ok_def by blast
      moreover have "p \<noteq> next_addr s" using calculation fresh by auto
      ultimately show ?thesis by simp
    qed
  next
    fix p assume "((heap s)(next_addr s \<mapsto> t)) p \<noteq> None"
    then show "p < next_addr s + 1" using ok by (auto simp: module_ok_def entries_ok_def split: if_splits)
  qed
  moreover have "table_wf s'"
    using ok i512 s'(2) unfolding module_ok_def table_wf_def e by (simp add: s'(1))
  ultimately show ?thesis using c e f by (simp add: module_ok_def)
qed

text \<open>
  The state between system calls: well formed, no lock held. A failure-free environment. The service
  that the table holds for a tag.
\<close>

definition quiet :: "kstate \<Rightarrow> bool" where
  "quiet s \<longleftrightarrow> module_ok s \<and> driver_wf s \<and> ledger_ok s \<and> (\<forall>i. \<not> held s i) \<and> (\<forall>i. \<not> dev_held s i)"

text \<open>Every allocation of a creation succeeds, and so do the two calls that make the device.\<close>

definition usable :: "kenv \<Rightarrow> bool" where
  "usable e \<longleftrightarrow> (\<forall>n<34. alloc_ok e n) \<and> cdev_add_err e = 0 \<and> device_create_err e = 0"

definition service_at :: "kstate \<Rightarrow> nat \<Rightarrow> tag_service option" where
  "service_at s i = (if i < 512 then case entry s i of None \<Rightarrow> None | Some p \<Rightarrow> heap s p else None)"

lemma service_at_cong: "entry s' = entry s \<Longrightarrow> heap s' = heap s \<Longrightarrow> service_at s' = service_at s"
  by (rule ext) (simp only: service_at_def)

lemma quiet_frame [simp]:
  "quiet (module_get s) = quiet s" "quiet (module_put s) = quiet s"
  by (simp_all add: quiet_def ledger_ok_def)

lemma set_first_free_frame [simp]:
  "free_entries (set_first_free i s) = free_entries s" "module_refs (set_first_free i s) = module_refs s"
  "dm (set_first_free i s) = dm s" "heap (set_first_free i s) = heap s" "live (set_first_free i s) = live s"
  "next_addr (set_first_free i s) = next_addr s" "entry (set_first_free i s) = entry s"
  "rcu_queue (set_first_free i s) = rcu_queue s" "rcu_readers (set_first_free i s) = rcu_readers s"
  by (simp_all add: set_first_free_def free_entries_def entry_def fun_eq_iff)

lemma service_at_frame [simp]:
  "service_at (module_get s) = service_at s" "service_at (module_put s) = service_at s"
  "service_at (set_first_free i s) = service_at s"
  by (simp_all add: service_at_def fun_eq_iff split: option.split)

lemma quiet_set_first_free:
  assumes "quiet s" "0 \<le> i" "i < 512" shows "quiet (set_first_free i s)"
proof -
  have "held (set_first_free i s) = held s" "dev_held (set_first_free i s) = dev_held s"
    by (simp_all add: held_def dev_held_def fun_eq_iff) (simp add: set_first_free_def)
  moreover have "module_ok (set_first_free i s)"
    using assms unfolding quiet_def module_ok_def table_wf_def counter_ok_def entries_ok_def
    by (simp add: set_first_free_frame) (simp add: set_first_free_def)
  ultimately show ?thesis using assms by (simp add: quiet_def driver_wf_def ledger_ok_def)
qed

lemma service_at_None: "entries_ok s \<Longrightarrow> i < 512 \<Longrightarrow> service_at s i = None \<longleftrightarrow> entry s i = None"
  unfolding service_at_def entries_ok_def by (fastforce split: option.splits)

lemma table_wf_lock:
  "table_wf (s\<lparr>tsm := (tsm s)\<lparr>access_lock := (access_lock (tsm s))[n := b]\<rparr>\<rparr>) = table_wf s"
  "entry (s\<lparr>tsm := (tsm s)\<lparr>access_lock := al\<rparr>\<rparr>) = entry s"
  by (simp_all add: table_wf_def entry_def fun_eq_iff)

lemma tag_get_create_total:
  assumes "table_wf s" "0 \<le> i" "i < 512" "entry s (nat i) = None" "\<forall>n<34. alloc_ok e n"
  shows "\<exists>s'. tag_get_create e k perm i s = Inr (None, s')"
proof -
  let ?p = "next_addr s"
  let ?s1 = "kmark (TsObj ?p) (s\<lparr>next_addr := ?p + 1\<rparr>)"
  obtain good m ls s2 where il: "init_levels e ?p i 0 32 [] (kmark (LevelsObj ?p) ?s1) = (good, m, ls, s2)"
    by (metis prod_cases4)
  note eff = init_levels_effect [OF il]
  have g: good using eff assms(5) by auto
  have a: "is_entry_available i s = Inr 1" using assms by (subst is_entry_available_eq) auto
  have r: "in_range (all_tag_services (tsm s)) i" "in_range (access_lock (tsm s)) i"
    using assms by (simp_all add: table_wf_def in_range_def)
  have t: "tsm s2 = tsm s" using eff by (simp add: kmark_def)
  show ?thesis using a il g r t assms(5)
    by (simp add: tag_get_create_def Let_def set_slot_def put_ts_def mutex_unlock_eq)
qed

text \<open>
  What the device of a new service shows: the header, whatever the fresh buffer held after it, and a line
  for each level, which counts no thread and is cut to the size that the code computes for it.
\<close>

definition new_text :: "kenv \<Rightarrow> int \<Rightarrow> string" where
  "new_text e k = header @ gap (junk e) @
     concat (map (\<lambda>m. line_written (if k = IPC_PRIVATE then -1 else k) (euid e) m 0) [0..<32])"

text \<open>What a creation in the free entry \<open>i\<close> has to achieve.\<close>

definition created :: "kenv \<Rightarrow> int \<Rightarrow> int \<Rightarrow> nat \<Rightarrow> kstate \<Rightarrow> kstate \<Rightarrow> bool" where
  "created e k perm i s s' \<longleftrightarrow>
     quiet s' \<and> free_entries s' = free_entries s - {i}
     \<and> service_at s' = (service_at s)(i \<mapsto> new_service e k (int i) perm (replicate 32 (new_level (int i))))
     \<and> entry s' i = Some (next_addr s)
     \<and> live s' = live s \<union> {TsObj (next_addr s), LevelsObj (next_addr s)} \<union> MessageObj (next_addr s) ` {0..<32}
     \<and> cdev_added (dm s') ! i
     \<and> (\<exists>r. get_content s' (int i) = Inr (new_text e k @ NUL # r) \<and> length (new_text e k @ NUL # r) = BUFSIZE)"

lemma line_fits_small: "- 1 \<le> k \<Longrightarrow> k < 1000 \<Longrightarrow> i < 32 \<Longrightarrow> line_fits k i"
proof -
  assume k: "- 1 \<le> k" "k < 1000" and i: "i < 32"
  have "length (show_nat i) \<le> 2" using i by (intro length_show_nat_le) auto
  moreover have "length (show_int k) \<le> 3"
  proof (cases "k = - 1")
    case True
    then show ?thesis by (simp add: show_int_def show_nat.simps)
  next
    case False
    then have "length (show_nat (nat k)) \<le> 3" using k by (intro length_show_nat_le) auto
    then show ?thesis using False k by (simp add: show_int_def)
  qed
  ultimately show ?thesis by (simp add: line_fits_def)
qed

lemma counts_new: "counts (new_service e k i perm (replicate 32 (new_level i))) = replicate 32 0"
  by (simp add: counts_def new_service_def new_level_def)

text \<open>With a key of at most three characters and a NUL after the header this is the status text.\<close>

lemma new_text_status:
  assumes "0 \<le> k" "k < 1000" "gap (junk e) = []"
  shows "new_text e k = status_text (if k = IPC_PRIVATE then -1 else k) (euid e) (replicate 32 0)"
proof -
  let ?t = "new_service e k 0 EVERYONE (replicate 32 (new_level 0))"
  have f: "key ?t = (if k = IPC_PRIVATE then -1 else k)" "owner_euid ?t = euid e"
    "map (\<lambda>m. line_written x y m (thread_waiting (level ?t ! m))) [0..<32] = map (\<lambda>m. line_written x y m 0) [0..<32]" for x y
    by (simp_all add: new_service_def new_level_def)
  have "\<forall>m<32. line_fits (key ?t) m" using assms by (auto simp: new_service_def intro: line_fits_small)
  moreover have "length (level ?t) = 32" "\<forall>l \<in> set (level ?t). unat (thread_waiting l) < 2 ^ 63"
    by (simp_all add: new_service_def new_level_def)
  ultimately have "header @ concat (map (\<lambda>m.
     line_written (key ?t) (owner_euid ?t) m (thread_waiting (level ?t ! m))) [0..<32])
    = status_text (key ?t) (owner_euid ?t) (replicate 32 0)"
    using status_text_new [of ?t] by (simp only: counts_new)
  then show ?thesis unfolding new_text_def assms(3) append_Nil f .
qed

lemma created_shows:
  assumes "created e k perm i s s'" "0 \<le> k" "k < 1000" "gap (junk e) = []"
  shows "shows_status s' (int i) (if k = IPC_PRIVATE then -1 else k) (euid e) (replicate 32 0)"
  using assms(1) unfolding created_def shows_status_def new_text_status [OF assms(2-4)] by blast

lemma create_locked:
  assumes q: "quiet s" and i512: "i < 512"
    and c: "tag_get_locked e k CREATE_TAG perm (int i) s = Inr (None, s1)"
  shows "quiet (dec_remaining s1)" "i \<in> free_entries s"
    "free_entries (dec_remaining s1) = free_entries s - {i}"
    "service_at (dec_remaining s1) =
       (service_at s)(i \<mapsto> new_service e k (int i) perm (replicate 32 (new_level (int i))))"
    "dm (dec_remaining s1) = dm s" "slot (dec_remaining s1) (int i) = Inr (Some (next_addr s))"
    "heap (dec_remaining s1) (next_addr s) =
       Some (new_service e k (int i) perm (replicate 32 (new_level (int i))))"
    "module_refs (dec_remaining s1) = module_refs s"
    "entry (dec_remaining s1) i = Some (next_addr s)"
    "live (dec_remaining s1) = live s \<union> {TsObj (next_addr s), LevelsObj (next_addr s)}
       \<union> MessageObj (next_addr s) ` {0..<32}"
proof -
  let ?t = "new_service e k (int i) perm (replicate 32 (new_level (int i)))"
  let ?p = "next_addr s"
  let ?sl = "s\<lparr>tsm := (tsm s)\<lparr>access_lock := (access_lock (tsm s))[i := True]\<rparr>\<rparr>"
  let ?al = "(access_lock (tsm s))[i := True, i := False]"
  let ?s2 = "dec_remaining s1"
  have wf: "table_wf s" "module_ok s" "driver_wf s" "ledger_ok s" "\<And>j. \<not> held s j" "\<And>j. \<not> dev_held s j"
    using q by (simp_all add: quiet_def module_ok_def)
  have len: "length (all_tag_services (tsm s)) = 4096" "length (access_lock (tsm s)) = 512"
    using wf(1) by (simp_all add: table_wf_def)
  have "mutex_lock (int i) s = Inr ?sl" using mutex_lock_ok [OF wf(1), of "int i"] wf(5) i512 by simp
  then have "tag_get_create e k perm (int i) ?sl = Inr (None, s1)" using c by (simp add: tag_get_locked_def)
  from tag_get_create_succeeds [OF this] have s1:
    "s1 = unlocked (int i) (?sl\<lparr>next_addr := ?p + 1,
      live := live s \<union> {TsObj ?p, LevelsObj ?p} \<union> MessageObj ?p ` {0..<32}, heap := (heap s)(?p \<mapsto> ?t),
      tsm := (tsm ?sl)\<lparr>all_tag_services := (all_tag_services (tsm s))[i := Some ?p]\<rparr>\<rparr>)"
    and free: "entry s i = None"
    by (simp_all add: table_wf_lock)
  show i: "i \<in> free_entries s" using free i512 by (simp add: free_entries_def)
  have t2: "tsm ?s2 = (tsm s)\<lparr>all_tag_services := (all_tag_services (tsm s))[i := Some ?p],
      remaining_entries := atomic_dec (remaining_entries (tsm s)), access_lock := ?al\<rparr>"
    "heap ?s2 = (heap s)(?p \<mapsto> ?t)" "next_addr ?s2 = ?p + 1"
    "live ?s2 = live s \<union> {TsObj ?p, LevelsObj ?p} \<union> MessageObj ?p ` {0..<32}"
    by (simp_all add: s1 unlocked_def dec_remaining_def)
  have ins: "module_ok ?s2" "free_entries ?s2 = free_entries s - {i}" "entry ?s2 = (entry s)(i := Some ?p)"
    using module_ok_insert [OF wf(2) i ts_wf_new t2(1) _ t2(2,3)] len by simp_all
  then show "free_entries ?s2 = free_entries s - {i}" "entry ?s2 i = Some ?p" by simp_all
  show "live ?s2 = live s \<union> {TsObj ?p, LevelsObj ?p} \<union> MessageObj ?p ` {0..<32}" by (rule t2(4))
  show dm2: "dm ?s2 = dm s" "module_refs ?s2 = module_refs s"
    by (simp_all add: s1 unlocked_def dec_remaining_def)
  show "slot ?s2 (int i) = Inr (Some ?p)" "heap ?s2 ?p = Some ?t"
    using len i512 by (simp_all add: slot_def t2(1,2) in_range_def)
  have "\<not> held ?s2 j" for j
    using wf(5) [of j] i512 len
    by (simp add: held_def t2(1) held_at_def in_range_def nth_list_update split: if_splits)
  moreover have "driver_wf ?s2" "\<not> dev_held ?s2 j" for j
    using dm2 wf(3,6) by (simp_all add: driver_wf_def dev_held_def)
  moreover have "ledger_ok ?s2" using wf(4) by (auto simp: ledger_ok_def t2)
  ultimately show "quiet ?s2" using ins(1) by (simp add: quiet_def)
  have "heap s ?p = None" using wf(2) by (force simp: module_ok_def entries_ok_def)
  then have "entry s j \<noteq> Some ?p" if "j < 512" for j
    using wf(2) that unfolding module_ok_def entries_ok_def by force
  then show "service_at ?s2 = (service_at s)(i \<mapsto> ?t)"
    using i512 by (auto simp: service_at_def fun_eq_iff ins(3) t2(2) split: option.split)
qed

text \<open>The driver leaves a quiet state quiet, whatever its own result is.\<close>

lemma quiet_core:
  assumes "core s' = core s" "driver_wf s' = driver_wf s" "dev_held s' = dev_held s"
  shows "quiet s' = quiet s" "service_at s' = service_at s"
proof -
  note C = core_eqD(2-4) [OF assms(1)] entry_core [OF assms(1)]
  show "quiet s' = quiet s"
    using assms module_ok_core [OF assms(1)] held_core [OF assms(1)] C by (simp add: quiet_def ledger_ok_def)
  show "service_at s' = service_at s" by (rule ext) (simp add: service_at_def C split: option.split)
qed

lemma publish_quiet:
  assumes "tag_get_publish e i s = Inr (r, s')"
  shows "quiet s' = quiet (dec_remaining s)" "r = i" "module_refs s' = module_refs s - 1"
proof -
  obtain r' s2 where c: "ts_create_char_device_file e i (dec_remaining s) = Inr (r', s2)"
    "s' = module_put s2" "r = i"
    using assms by (auto simp: tag_get_publish_def tag_get_device_def elim!: and_then_InrE)
  note dc = drv.create_client [OF c(1)]
  show "quiet s' = quiet (dec_remaining s)" "r = i"
    using quiet_core(1) [of s2 "dec_remaining s"] dc create_driver_wf [OF c(1)] c(2,3) by simp_all
  have "module_refs s2 = module_refs (dec_remaining s)" using core_eqD(7) dc by blast
  then show "module_refs s' = module_refs s - 1" using c(2) by (simp add: dec_remaining_def)
qed

lemma create_and_publish:
  assumes q: "quiet s" and u: "usable e" "small_gap (junk e)" and i: "i \<in> free_entries s"
  shows "\<exists>s1 s'. tag_get_locked e k CREATE_TAG perm (int i) s = Inr (None, s1)
    \<and> tag_get_publish e (int i) s1 = Inr (int i, s')
    \<and> created e k perm i s s' \<and> module_refs s' = module_refs s - 1"
proof -
  let ?t = "new_service e k (int i) perm (replicate 32 (new_level (int i)))"
  let ?sl = "s\<lparr>tsm := (tsm s)\<lparr>access_lock := (access_lock (tsm s))[i := True]\<rparr>\<rparr>"
  have i512: "i < 512" "entry s i = None" using i by (simp_all add: free_entries_def)
  have wf: "table_wf s" "driver_wf s" "\<And>j. \<not> held s j" "\<And>j. \<not> dev_held s j"
    using q by (simp_all add: quiet_def module_ok_def)
  have "mutex_lock (int i) s = Inr ?sl" using mutex_lock_ok [OF wf(1), of "int i"] wf(3) i512 by simp
  moreover obtain s1 where "tag_get_create e k perm (int i) ?sl = Inr (None, s1)"
    using tag_get_create_total [of ?sl "int i" e k perm] wf(1) i512 u(1) by (auto simp: table_wf_lock usable_def)
  ultimately have c: "tag_get_locked e k CREATE_TAG perm (int i) s = Inr (None, s1)"
    by (simp add: tag_get_locked_def)
  note L = create_locked [OF q i512(1) c]
  have d2: "driver_wf (dec_remaining s1)" "\<not> dev_held (dec_remaining s1) (int i)"
    using L(1) by (simp_all add: quiet_def)
  obtain s' r where d: "ts_create_char_device_file e (int i) (dec_remaining s1) = Inr (0, s')"
    "cdev_added (dm s') ! i"
    "get_content s' (int i) = Inr (header @ gap (junk e) @ concat (map (\<lambda>m.
       line_written (key ?t) (owner_euid ?t) m (thread_waiting (level ?t ! m))) [0..<32]) @ NUL # r)"
    "length (header @ gap (junk e) @ concat (map (\<lambda>m.
       line_written (key ?t) (owner_euid ?t) m (thread_waiting (level ?t ! m))) [0..<32]) @ NUL # r) = BUFSIZE"
    using create_device_ok [of "dec_remaining s1" "int i" "next_addr s" ?t e thesis] d2 i512 L(6,7) u
    by (simp add: usable_def new_service_def)
  have p: "tag_get_publish e (int i) s1 = Inr (int i, module_put s')"
    using d(1) by (simp add: tag_get_publish_def tag_get_device_def)
  note P = publish_quiet [OF p]
  note dc = drv.create_client [OF d(1)]
  have ce: "core s' = core (dec_remaining s1)" using dc by simp
  have "header @ gap (junk e) @ concat (map (\<lambda>m.
       line_written (key ?t) (owner_euid ?t) m (thread_waiting (level ?t ! m))) [0..<32]) = new_text e k"
    unfolding new_text_def by (intro arg_cong2 [of _ _ _ _ append] arg_cong [of _ _ concat] map_cong refl)
      (simp_all add: new_service_def new_level_def)
  then have T: "header @ gap (junk e) @ concat (map (\<lambda>m.
       line_written (key ?t) (owner_euid ?t) m (thread_waiting (level ?t ! m))) [0..<32]) @ NUL # r = new_text e k @ NUL # r"
    unfolding append_assoc [symmetric] by (simp only:)
  have "\<exists>r. get_content s' (int i) = Inr (new_text e k @ NUL # r) \<and> length (new_text e k @ NUL # r) = BUFSIZE"
    using d(3,4) unfolding T by blast
  moreover have "service_at s' = service_at (dec_remaining s1)"
    using quiet_core(2) [OF ce create_driver_wf [OF d(1)]] dc by simp
  ultimately have "created e k perm i s (module_put s')"
    using d(2) L P(1) free_entries_core [OF ce] entry_core [OF ce] core_eqD(3) [OF ce]
    by (simp add: created_def get_content_def)
  moreover have "module_refs (module_put s') = module_refs s - 1"
    using P(3) L(8) by (simp add: dec_remaining_def)
  ultimately show ?thesis using c p by blast
qed

lemma created_after_select:
  assumes "created e k perm i s1 s'" "free_entries s1 = free_entries s" "service_at s1 = service_at s"
    "next_addr s1 = next_addr s" "live s1 = live s"
  shows "created e k perm i s s'"
  using assms by (simp add: created_def)

lemma tag_get_create_key:
  assumes "quiet s" "usable e" "small_gap (junk e)" "perm = EVERYONE \<or> perm = ONLY_OWNER" "0 < k"
    "service_at s (nat (k mod MAX_TAG_SERVICES)) = None"
  shows "\<exists>s'. tag_get e k CREATE_TAG perm s = Inr (k mod MAX_TAG_SERVICES, s')
    \<and> created e k perm (nat (k mod MAX_TAG_SERVICES)) s s' \<and> module_refs s' = module_refs s"
proof -
  let ?i = "nat (k mod 512)"
  have i: "int ?i = k mod 512" "?i < 512" by (simp_all add: nat_less_iff)
  have sel: "tag_get_select k CREATE_TAG perm s = Inr (Inr (int ?i), module_get s)"
    using assms(4,5) i by (auto simp: tag_get_select_def hash_function_nonneg Let_def)
  have "?i \<in> free_entries (module_get s)"
    using assms i by (simp add: free_entries_def quiet_def module_ok_def service_at_None)
  from create_and_publish [OF _ assms(2,3) this, of k perm] assms(1)
  obtain s1 s' where c: "tag_get_locked e k CREATE_TAG perm (int ?i) (module_get s) = Inr (None, s1)"
    "tag_get_publish e (int ?i) s1 = Inr (int ?i, s')"
    "created e k perm ?i (module_get s) s'" "module_refs s' = module_refs s" by auto
  have "tag_get e k CREATE_TAG perm s = Inr (int ?i, s')"
    using sel c(1,2) by (simp add: tag_get_def)
  moreover have "created e k perm ?i s s'" using created_after_select [OF c(3)] by simp
  ultimately show ?thesis using c(4) i by auto
qed

text \<open>
  C8 \<open>tag_get(key, CREATE_TAG, perm)\<close> with a positive key whose entry is free, when every allocation and
  the creation of the device succeed: it returns the tag of the key, exactly that entry now holds a
  service with the key, the permission and the caller as owner and 32 empty levels, one free entry less
  is counted, the device exists, and no lock and no module reference is left behind. The device shows
  the header and, for every key, each level's line as far as the size computed by the code lets it
  through (\<open>new_text\<close>); what the fresh buffer held after the header stays in between, up to its first NUL,
  which has to come within 2048 bytes.
\<close>

theorem tag_get_creates:
  assumes "quiet s" "usable e" "small_gap (junk e)" "perm = EVERYONE \<or> perm = ONLY_OWNER" "0 < k"
    "service_at s (nat (k mod MAX_TAG_SERVICES)) = None"
  shows "\<exists>s'. tag_get e k CREATE_TAG perm s = Inr (k mod MAX_TAG_SERVICES, s')
    \<and> created e k perm (nat (k mod MAX_TAG_SERVICES)) s s' \<and> module_refs s' = module_refs s"
  using assms by (rule tag_get_create_key)

lemma tag_get_create_private:
  assumes "quiet s" "usable e" "small_gap (junk e)" "perm = EVERYONE \<or> perm = ONLY_OWNER" "free_entries s \<noteq> {}"
  shows "\<exists>i s'. i \<in> free_entries s \<and> tag_get e IPC_PRIVATE CREATE_TAG perm s = Inr (int i, s')
    \<and> created e IPC_PRIVATE perm i s s' \<and> module_refs s' = module_refs s"
proof -
  have "table_wf (module_get s)" "counter_ok (module_get s)"
    using assms(1) by (simp_all add: quiet_def module_ok_def counter_ok_def)
  then obtain i where i: "i \<in> free_entries s"
    "find_first_entry_available (module_get s) = Inr (int i, set_first_free (int i) (module_get s))"
    using assms(5) by (elim find_first_entry_cases [of "module_get s"]) auto
  let ?sf = "set_first_free (int i) (module_get s)"
  have i5: "i < 512" using i(1) by (simp add: free_entries_def)
  have sel: "tag_get_select 0 CREATE_TAG perm s = Inr (Inr (int i), ?sf)"
    using assms(4) i by (auto simp: tag_get_select_def Let_def)
  have "quiet ?sf" "i \<in> free_entries ?sf" using quiet_set_first_free [of "module_get s"] assms(1) i i5 by simp_all
  from create_and_publish [OF this(1) assms(2,3) this(2), of 0 perm]
  obtain s1 s' where c: "tag_get_locked e 0 CREATE_TAG perm (int i) ?sf = Inr (None, s1)"
    "tag_get_publish e (int i) s1 = Inr (int i, s')"
    "created e 0 perm i ?sf s'" "module_refs s' = module_refs s" by auto
  have "tag_get e 0 CREATE_TAG perm s = Inr (int i, s')"
    using sel c(1,2) by (simp add: tag_get_def)
  moreover have "created e 0 perm i s s'" using created_after_select [OF c(3)] by simp
  ultimately show ?thesis using c(4) i by auto
qed

text \<open>
  \<open>tag_get(IPC_PRIVATE, CREATE_TAG, perm)\<close> creates a service, with -1 as its key, in some entry
  that was free, whenever there is one.
\<close>

theorem tag_get_creates_private:
  assumes "quiet s" "usable e" "small_gap (junk e)" "perm = EVERYONE \<or> perm = ONLY_OWNER" "free_entries s \<noteq> {}"
  shows "\<exists>i s'. i \<in> free_entries s \<and> tag_get e IPC_PRIVATE CREATE_TAG perm s = Inr (int i, s')
    \<and> created e IPC_PRIVATE perm i s s' \<and> module_refs s' = module_refs s"
  using assms by (rule tag_get_create_private)

section \<open>The other results of \<open>tag_get\<close>\<close>

text \<open>Locking and unlocking again gives the state back.\<close>

lemma lock_unlock_id:
  assumes "table_wf s" "0 \<le> i" "i < 512" "\<not> held s i"
  obtains s1 where "mutex_lock i s = Inr s1" "mutex_unlock i s1 = Inr s"
    "slot s1 i = Inr (entry s (nat i))" "heap s1 = heap s" "is_entry_available i s1 = Inr (if entry s (nat i) = None then 1 else 0)"
proof -
  let ?s1 = "s\<lparr>tsm := (tsm s)\<lparr>access_lock := (access_lock (tsm s))[nat i := True]\<rparr>\<rparr>"
  have r: "length (access_lock (tsm s)) = 512" "\<not> access_lock (tsm s) ! nat i"
    using assms by (auto simp: table_wf_def held_def held_at_def in_range_def)
  have wf: "table_wf ?s1" using assms(1) by (simp add: table_wf_lock)
  have "(access_lock (tsm s))[nat i := True, nat i := False] = access_lock (tsm s)"
    using r by (metis (full_types) list_update_id list_update_overwrite)
  then have "unlocked i ?s1 = s" by (simp add: unlocked_def)
  moreover have "in_range (access_lock (tsm ?s1)) i" using r(1) assms by (simp add: in_range_def)
  ultimately have "mutex_unlock i ?s1 = Inr s" by (simp add: mutex_unlock_eq)
  moreover have "mutex_lock i s = Inr ?s1" using mutex_lock_ok [OF assms] .
  moreover have "slot ?s1 i = Inr (entry s (nat i))"
    using slot_entry [OF wf, of i] assms by (simp add: table_wf_lock)
  moreover have "is_entry_available i ?s1 = Inr (if entry s (nat i) = None then 1 else 0)"
    using is_entry_available_eq [OF wf, of i] assms by (simp add: table_wf_lock)
  ultimately show ?thesis using that [of ?s1] by simp
qed

lemma quiet_wf: "quiet s \<Longrightarrow> table_wf s \<and> entries_ok s \<and> \<not> held s i"
  by (simp add: quiet_def module_ok_def)

lemma module_put_get: "module_put (module_get s) = s"
  by (simp add: module_put_def module_get_def)

text \<open>The code that opening a tag is meant to return, as a function of the service found there.\<close>

definition open_code :: "kenv \<Rightarrow> int \<Rightarrow> tag_service option \<Rightarrow> int" where
  "open_code e i t = (case t of
      None \<Rightarrow> - EBADR
    | Some t \<Rightarrow> if lazy_deleted t = YES then - EBADR
        else if permission t = ONLY_OWNER \<and> owner_euid t \<noteq> euid e then - EACCES else i)"

text \<open>
  C20 \<open>tag_get(key, OPEN_TAG, perm)\<close> with a positive key changes nothing at all, and returns the tag
  of the key when there is a service that its permission lets the caller use: to everyone, or to its
  owner. The key of the service that is found is never compared with the key asked for.
\<close>

theorem tag_get_opens:
  assumes "quiet s" "perm = EVERYONE \<or> perm = ONLY_OWNER" "0 < k"
  shows "tag_get e k OPEN_TAG perm s = Inr (open_code e (k mod MAX_TAG_SERVICES)
    (service_at s (nat (k mod MAX_TAG_SERVICES))), s)"
proof -
  let ?i = "k mod 512"
  let ?s = "module_get s"
  have i: "0 \<le> ?i" "?i < 512" "nat ?i < 512" by (simp_all add: nat_less_iff)
  have q: "table_wf ?s" "entries_ok ?s" "\<not> held ?s ?i"
    using quiet_wf [of ?s] assms(1) by simp_all
  have sel: "tag_get_select k OPEN_TAG perm s = Inr (Inr ?i, ?s)"
    using assms(2,3) by (auto simp: tag_get_select_def hash_function_nonneg Let_def)
  obtain s1 where s1: "mutex_lock ?i ?s = Inr s1" "mutex_unlock ?i s1 = Inr ?s"
    "slot s1 ?i = Inr (entry s (nat ?i))" "heap s1 = heap s"
    "is_entry_available ?i s1 = Inr (if entry s (nat ?i) = None then 1 else 0)"
    using lock_unlock_id [OF q(1) i(1,2) q(3)] by auto
  show ?thesis
  proof (cases "entry s (nat ?i)")
    case None
    then show ?thesis
      using sel s1 by (simp add: tag_get_def tag_get_locked_def tag_get_open_def service_at_def
          open_code_def module_put_get)
  next
    case (Some p)
    then obtain t where t: "heap s p = Some t" using q(2) i(3) unfolding entries_ok_def by fastforce
    show ?thesis
      using sel s1 Some t assms(3) i(3) by (auto simp: tag_get_def tag_get_locked_def tag_get_open_def
          service_at_def open_code_def module_put_get deref_def get_ts_def)
  qed
qed

lemma tag_get_occupied:
  assumes "quiet s" "perm = EVERYONE \<or> perm = ONLY_OWNER" "0 < k"
    "service_at s (nat (k mod 512)) \<noteq> None"
  shows "tag_get e k CREATE_TAG perm s = Inr (- ENOKEY, s)"
proof -
  let ?i = "k mod 512"
  let ?s = "module_get s"
  have i: "0 \<le> ?i" "?i < 512" "nat ?i < 512" by (simp_all add: nat_less_iff)
  have q: "table_wf ?s" "entries_ok ?s" "\<not> held ?s ?i" using quiet_wf [of ?s] assms(1) by simp_all
  have sel: "tag_get_select k CREATE_TAG perm s = Inr (Inr ?i, ?s)"
    using assms(2,3) by (auto simp: tag_get_select_def hash_function_nonneg Let_def)
  obtain s1 where s1: "mutex_lock ?i ?s = Inr s1" "mutex_unlock ?i s1 = Inr ?s"
    "is_entry_available ?i s1 = Inr (if entry s (nat ?i) = None then 1 else 0)"
    using lock_unlock_id [OF q(1) i(1,2) q(3)] by auto
  obtain p where "entry s (nat ?i) = Some p" using assms(4) i(3) by (auto simp: service_at_def split: option.splits)
  with s1(3) have "is_entry_available ?i s1 = Inr 0" by simp
  then show ?thesis
    using sel s1(1,2) by (simp add: tag_get_def tag_get_locked_def tag_get_create_def module_put_get)
qed

lemma tag_get_private:
  assumes "quiet s" "perm = EVERYONE \<or> perm = ONLY_OWNER"
  shows "free_entries s = {} \<Longrightarrow> tag_get e 0 CREATE_TAG perm s = Inr (- ENOMEM, s)"
    "free_entries s = {} \<Longrightarrow> tag_get e 0 OPEN_TAG perm s = Inl OutOfBounds"
    "free_entries s \<noteq> {} \<Longrightarrow> \<exists>i. tag_get e 0 OPEN_TAG perm s = Inr (- EBADR, set_first_free (int i) s)"
proof -
  let ?s = "module_get s"
  have wf: "table_wf ?s" "counter_ok ?s" using assms(1) by (simp_all add: quiet_def module_ok_def counter_ok_def)
  show "free_entries s = {} \<Longrightarrow> tag_get e 0 CREATE_TAG perm s = Inr (- ENOMEM, s)"
    "free_entries s = {} \<Longrightarrow> tag_get e 0 OPEN_TAG perm s = Inl OutOfBounds"
    using assms(2) find_first_entry_result [OF wf]
    by (auto simp: tag_get_def tag_get_select_def tag_get_locked_def mutex_lock_def lock_at_cases
        in_range_def module_put_get Let_def)
  assume ne: "free_entries s \<noteq> {}"
  obtain i where i: "i \<in> free_entries s" "find_first_entry_available ?s = Inr (int i, set_first_free (int i) ?s)"
    using find_first_entry_cases [OF wf] ne by (metis free_entries_frame(2))
  let ?sf = "set_first_free (int i) ?s"
  have i5: "i < 512" "entry s i = None" using i(1) by (simp_all add: free_entries_def)
  have q: "table_wf ?sf" "\<not> held ?sf (int i)"
    using quiet_wf [of ?sf] quiet_set_first_free [of ?s "int i"] assms(1) i5 by simp_all
  obtain s1 where s1: "mutex_lock (int i) ?sf = Inr s1" "mutex_unlock (int i) s1 = Inr ?sf"
    "is_entry_available (int i) s1 = Inr (if entry s i = None then 1 else 0)"
    using lock_unlock_id [OF q(1) _ _ q(2)] i5 by auto
  have "module_put ?sf = set_first_free (int i) s"
    by (simp add: module_put_def module_get_def set_first_free_def)
  then have "tag_get e 0 OPEN_TAG perm s = Inr (- EBADR, set_first_free (int i) s)"
    using assms(2) i s1 i5 by (auto simp: tag_get_def tag_get_select_def tag_get_locked_def tag_get_open_def Let_def)
  then show "\<exists>i. tag_get e 0 OPEN_TAG perm s = Inr (- EBADR, set_first_free (int i) s)" ..
qed

text \<open>
  The refusals of \<open>tag_get\<close> leave the state exactly as it was: wrong arguments, a positive key whose
  entry is taken, \<open>IPC_PRIVATE\<close> on a full table, and opening with \<open>IPC_PRIVATE\<close>, which may only move
  the remembered free entry.
\<close>

theorem tag_get_refuses:
  assumes "quiet s"
  shows "(perm \<notin> {EVERYONE, ONLY_OWNER} \<or> command \<notin> {CREATE_TAG, OPEN_TAG} \<longrightarrow>
      tag_get e k command perm s = Inr (- EINVAL, s))
    \<and> (perm \<in> {EVERYONE, ONLY_OWNER} \<and> 0 < k \<and> service_at s (nat (k mod 512)) \<noteq> None \<longrightarrow>
      tag_get e k CREATE_TAG perm s = Inr (- ENOKEY, s))
    \<and> (perm \<in> {EVERYONE, ONLY_OWNER} \<and> free_entries s = {} \<longrightarrow>
      tag_get e IPC_PRIVATE CREATE_TAG perm s = Inr (- ENOMEM, s))
    \<and> (perm \<in> {EVERYONE, ONLY_OWNER} \<and> free_entries s \<noteq> {} \<longrightarrow>
      (\<exists>i. tag_get e IPC_PRIVATE OPEN_TAG perm s = Inr (- EBADR, set_first_free (int i) s)))"
proof -
  have "perm \<notin> {EVERYONE, ONLY_OWNER} \<or> command \<notin> {CREATE_TAG, OPEN_TAG} \<Longrightarrow>
      tag_get e k command perm s = Inr (- EINVAL, s)"
    by (auto simp: tag_get_def tag_get_select_def Let_def module_put_get)
  then show ?thesis
    using tag_get_occupied [OF assms, of perm k e] tag_get_private [OF assms, of perm e] by auto
qed

text \<open>
  Two arguments that pass the checks of \<open>tag_get\<close> make it use an index outside the table and the
  array of mutexes: any negative key that is no multiple of 512, and opening with \<open>IPC_PRIVATE\<close> when
  the table is full (the -1 of a failed search is only rejected for \<open>CREATE_TAG\<close>).
\<close>

theorem tag_get_out_of_bounds:
  assumes "quiet s" "perm \<in> {EVERYONE, ONLY_OWNER}"
  shows "(k < 0 \<and> \<not> 512 dvd k \<and> command \<in> {CREATE_TAG, OPEN_TAG} \<longrightarrow>
      tag_get e k command perm s = Inl OutOfBounds)
    \<and> (free_entries s = {} \<longrightarrow> tag_get e IPC_PRIVATE OPEN_TAG perm s = Inl OutOfBounds)"
proof -
  have "tag_get e k command perm s = Inl OutOfBounds"
    if k: "k < 0" "\<not> 512 dvd k" and c: "command \<in> {CREATE_TAG, OPEN_TAG}"
  proof -
    have "hash_function k < 0" using hash_function_negative k by simp
    then have "mutex_lock (hash_function k) (module_get s) = Inl OutOfBounds"
      by (simp add: mutex_lock_def lock_at_cases in_range_def)
    then show ?thesis using c assms(2) k
      by (auto simp: tag_get_def tag_get_select_def tag_get_locked_def Let_def)
  qed
  then show ?thesis using tag_get_private(2) [OF assms(1)] assms(2) by auto
qed

section \<open>The invariant\<close>

lemma quiet_next_addr: "quiet s \<Longrightarrow> next_addr s \<le> n \<Longrightarrow> quiet (s\<lparr>next_addr := n\<rparr>)"
  by (fastforce simp: quiet_def module_ok_def table_wf_def counter_ok_def entries_ok_def ledger_ok_def
      free_entries_def driver_wf_def dev_held_def)

lemma mutex_lock_quiet:
  assumes "quiet s" "mutex_lock i s = Inr s1"
  shows "0 \<le> i" "i < 512" "unlocked i (s1\<lparr>next_addr := n\<rparr>) = s\<lparr>next_addr := n\<rparr>"
    "next_addr s1 = next_addr s" "ledger_ok s1" "module_refs s1 = module_refs s"
    "in_range (access_lock (tsm s1)) i"
proof -
  have m: "in_range (access_lock (tsm s)) i" "\<not> held s i"
    "s1 = s\<lparr>tsm := (tsm s)\<lparr>access_lock := (access_lock (tsm s))[nat i := True]\<rparr>\<rparr>"
    using mutex_lock_InrD [OF assms(2)] by simp_all
  have "length (access_lock (tsm s)) = 512" using assms(1) by (simp add: quiet_def module_ok_def table_wf_def)
  then show i: "0 \<le> i" "i < 512" using m(1) by (simp_all add: in_range_def)
  have "\<not> access_lock (tsm s) ! nat i" using m(1,2) by (simp add: held_def held_at_def)
  then have "(access_lock (tsm s))[nat i := True, nat i := False] = access_lock (tsm s)"
    by (metis (full_types) list_update_id list_update_overwrite)
  then show "unlocked i (s1\<lparr>next_addr := n\<rparr>) = s\<lparr>next_addr := n\<rparr>" by (simp add: m(3) unlocked_def)
  show "next_addr s1 = next_addr s" "ledger_ok s1" "module_refs s1 = module_refs s"
    "in_range (access_lock (tsm s1)) i"
    using assms(1) m by (simp_all add: quiet_def ledger_ok_def)
qed

lemma tag_get_open_state:
  assumes "tag_get_open e k i s = Inr (r, s')"
  shows "s' = module_put (unlocked i s)"
  using assms by (auto simp: tag_get_open_def mutex_unlock_eq elim!: and_then_InrE split: if_splits)

lemma tag_get_locked_quiet:
  assumes q: "quiet s" and c: "tag_get_locked e k command perm i s = Inr (Some r, s')"
  shows "quiet s' \<and> module_refs s' = module_refs s - 1"
proof -
  obtain s1 where l: "mutex_lock i s = Inr s1" using c by (auto simp: tag_get_locked_def elim!: and_then_InrE)
  note L = mutex_lock_quiet [OF q l]
  have same: "s\<lparr>next_addr := next_addr s\<rparr> = s" "s1\<lparr>next_addr := next_addr s\<rparr> = s1"
    using L(4) by simp_all
  have restored: "module_put (unlocked i s1) = module_put s" using L(3) [of "next_addr s"] same by simp
  consider "tag_get_create e k perm i s1 = Inr (Some r, s')" | "s' = module_put (unlocked i s1)"
    using c l L(7) tag_get_open_state
    by (fastforce simp: tag_get_locked_def mutex_unlock_eq elim!: and_then_InrE split: if_splits)
  then show ?thesis
  proof cases
    case 1
    obtain n where "next_addr s1 \<le> n" "s' = module_put (unlocked i (s1\<lparr>next_addr := n\<rparr>))"
      using tag_get_create_fails [OF 1 L(5)] by blast
    then show ?thesis using quiet_next_addr [OF q, of n] L(3,4) by simp
  next
    case 2
    then show ?thesis using q restored by simp
  qed
qed

lemma tag_get_select_quiet:
  assumes q: "quiet s" and c: "tag_get_select k command perm s = Inr (x, s')"
  shows "quiet s' \<and> module_refs s' = (case x of Inl _ \<Rightarrow> module_refs s | Inr _ \<Rightarrow> module_refs s + 1)"
proof -
  have wf: "table_wf (module_get s)" "counter_ok (module_get s)"
    using q by (simp_all add: quiet_def module_ok_def counter_ok_def)
  have f: "quiet s2 \<and> module_refs s2 = module_refs s + 1"
    if "find_first_entry_available (module_get s) = Inr (j, s2)" for j s2
    using wf
  proof (cases rule: find_first_entry_cases)
    case 1
    then show ?thesis using that q by simp
  next
    case (2 i)
    then show ?thesis using that q quiet_set_first_free [of "module_get s" "int i"] by (simp add: free_entries_def)
  qed
  show ?thesis using c f q
    by (auto simp: tag_get_select_def Let_def module_put_get elim!: and_then_InrE split: if_splits)
qed

text \<open>
  C7 Whatever \<open>tag_get\<close> is called with and whatever fails in it, if it returns, the state is well formed
  again: no lock is held, the counter of free entries is exact, every occupied entry points to a live
  service that knows its tag, and the reference to the module is given back.
\<close>

theorem tag_get_invariant:
  assumes "quiet s" "tag_get e k command perm s = Inr (r, s')"
  shows "quiet s' \<and> module_refs s' = module_refs s"
proof -
  obtain x s1 where sel: "tag_get_select k command perm s = Inr (x, s1)"
    "(case x of Inl code \<Rightarrow> Inr (code, s1)
     | Inr i \<Rightarrow> and_then (tag_get_locked e k command perm i s1) (\<lambda>(done', s).
         case done' of Some code \<Rightarrow> Inr (code, s) | None \<Rightarrow> tag_get_publish e i s)) = Inr (r, s')"
    using assms(2) by (auto simp: tag_get_def elim!: and_then_InrE)
  note S = tag_get_select_quiet [OF assms(1) sel(1)]
  show ?thesis
  proof (cases x)
    case (Inl code)
    then show ?thesis using sel S by simp
  next
    case (Inr i)
    with S have q: "quiet s1" "module_refs s1 = module_refs s + 1" by simp_all
    obtain d s2 where l: "tag_get_locked e k command perm i s1 = Inr (d, s2)"
      "(case d of Some code \<Rightarrow> Inr (code, s2) | None \<Rightarrow> tag_get_publish e i s2) = Inr (r, s')"
      using sel(2) Inr by (auto elim!: and_then_InrE)
    show ?thesis
    proof (cases d)
      case (Some code)
      then show ?thesis using l tag_get_locked_quiet [OF q(1)] q(2) by auto
    next
      case None
      then have p: "tag_get_publish e i s2 = Inr (r, s')" using l(2) by simp
      have c: "command = CREATE_TAG" and i: "0 \<le> i" "i < 512"
        using l(1) None mutex_lock_quiet(1,2) [OF q(1)]
        by (auto simp: tag_get_locked_def elim!: and_then_InrE split: if_splits)
      have "quiet (dec_remaining s2)" "module_refs (dec_remaining s2) = module_refs s1"
        using create_locked(1,8) [OF q(1), of "nat i" e k perm s2] l(1) None c i by simp_all
      then show ?thesis using publish_quiet [OF p] q(2) by (simp add: dec_remaining_def)
    qed
  qed
qed

section \<open>On the mounted module\<close>

lemma booted_quiet: "quiet (booted m)"
  using booted_ok booted_driver booted_ledger by (simp add: quiet_def)

lemma plain_env_usable: "usable (plain_env u)"
  by (simp add: usable_def plain_env_def)

lemma plain_env_gap: "gap (junk (plain_env u)) = []" "small_gap (junk (plain_env u))"
proof -
  show "gap (junk (plain_env u)) = []" by (rule gap_NUL) (simp add: plain_env_def)
  then show "small_gap (junk (plain_env u))" by (simp add: small_gap_def)
qed

lemma booted_service: "service_at (booted m) i = None"
  by (simp add: service_at_def booted_entry)

lemma booted_free_ne: "free_entries (booted m) \<noteq> {}"
  by (simp add: booted_free lessThan_empty_iff)

theorem tag_get_creates_witness:
  "\<exists>s'. tag_get (plain_env 1000) 1027 CREATE_TAG ONLY_OWNER (booted 240) = Inr (3, s')
    \<and> created (plain_env 1000) 1027 ONLY_OWNER 3 (booted 240) s'"
proof -
  have "service_at (booted 240) (nat (1027 mod MAX_TAG_SERVICES)) = None" by (rule booted_service)
  from tag_get_creates [OF booted_quiet plain_env_usable plain_env_gap(2) _ _ this, of ONLY_OWNER] show ?thesis by auto
qed

theorem tag_get_creates_private_witness:
  "\<exists>i s'. tag_get (plain_env 1000) IPC_PRIVATE CREATE_TAG EVERYONE (booted 240) = Inr (int i, s')
    \<and> created (plain_env 1000) IPC_PRIVATE EVERYONE i (booted 240) s'"
  using tag_get_creates_private [OF booted_quiet plain_env_usable plain_env_gap(2) _ booted_free_ne, of EVERYONE] by blast

theorem tag_get_opens_witness:
  "tag_get (plain_env 1000) 7 OPEN_TAG EVERYONE (booted 240) = Inr (- EBADR, booted 240)"
  using tag_get_opens [OF booted_quiet, of EVERYONE 7 "plain_env 1000"]
  by (simp add: booted_service open_code_def)

theorem tag_get_refuses_witness:
  "tag_get (plain_env 1000) 7 9 EVERYONE (booted 240) = Inr (- EINVAL, booted 240)"
  using tag_get_refuses [OF booted_quiet, of EVERYONE 9 "plain_env 1000" 7] by simp

theorem tag_get_out_of_bounds_witness:
  "tag_get (plain_env 1000) (- 1) CREATE_TAG EVERYONE (booted 240) = Inl OutOfBounds"
proof -
  have "\<not> 512 dvd (- 1 :: int)" by simp
  then show ?thesis
    using tag_get_out_of_bounds [OF booted_quiet, of EVERYONE "- 1" CREATE_TAG "plain_env 1000"] by simp
qed

theorem tag_get_invariant_witness:
  "\<exists>s'. tag_get (plain_env 1000) 7 CREATE_TAG EVERYONE (booted 240) = Inr (7, s') \<and> quiet s' \<and> module_refs s' = 0"
proof -
  have "service_at (booted 240) (nat (7 mod MAX_TAG_SERVICES)) = None" by (rule booted_service)
  from tag_get_create_key [OF booted_quiet plain_env_usable plain_env_gap(2) _ _ this, of EVERYONE 1000]
  obtain s' where c: "tag_get (plain_env 1000) 7 CREATE_TAG EVERYONE (booted 240) = Inr (7, s')" by auto
  from tag_get_invariant [OF booted_quiet c] c show ?thesis by (simp add: booted_def)
qed

end
