(* ===== verification/Tag_Send.thy ===== *)
theory Tag_Send
  imports Tag_Get
begin

text \<open>
  The system call \<open>tag_send\<close> and the RCU callback \<open>free_after_send\<close> that ends a delivery: the message
  stays in its level, and \<open>access_lock[tag]\<close> stays locked, until the callback runs.
\<close>

section \<open>User memory\<close>

text \<open>
  A \<open>char *\<close> argument: \<open>None\<close> is NULL, \<open>Some b\<close> points to memory of which the bytes \<open>b\<close> are mapped.
  \<open>strlen\<close> on it faults when it leaves the mapped bytes; \<open>copy_from_user\<close> returns the number of bytes
  it could not copy and fills the rest of the range with zeros; \<open>copy_to_user\<close> stops at the end of the
  mapped bytes.
\<close>

type_synonym user_ptr = "buffer option"

definition user_strlen :: "user_ptr \<Rightarrow> nat outcome" where
  "user_strlen u = (case u of None \<Rightarrow> Inl PageFault
     | Some b \<Rightarrow> if terminated b then Inr (length (c_str b)) else Inl PageFault)"

definition copy_from_user :: "buffer \<Rightarrow> user_ptr \<Rightarrow> nat \<Rightarrow> (nat \<times> buffer) outcome" where
  "copy_from_user dst u n =
     (let m = (case u of None \<Rightarrow> [] | Some b \<Rightarrow> take n b) in
      if length dst < n then Inl BufferOverflow
      else Inr (n - length m, m @ replicate (n - length m) NUL @ drop n dst))"

section \<open>RCU\<close>

definition call_rcu :: "rcu_cb \<Rightarrow> kstate \<Rightarrow> kstate" where
  "call_rcu c s = s\<lparr>rcu_queue := rcu_queue s @ [(c, rcu_readers s)]\<rparr>"

text \<open>
  After its \<open>mutex_unlock\<close> the code reads \<open>message_ready\<close> once more, for the log only. The level is still
  there: no operation of the module frees the array of levels before the module is unmounted.
\<close>

definition free_after_send :: "nat \<Rightarrow> int \<Rightarrow> kstate \<Rightarrow> kstate outcome" where
  "free_after_send p lev s =
     and_then (get_ts s p) (\<lambda>t.
     and_then (get_level t lev) (\<lambda>l.
     and_then (memset0 (message l) MAX_MESSAGE_SIZE) (\<lambda>m.
       mutex_unlock (lev_tag l)
         (put_ts p (put_level lev (l\<lparr>message_ready := NOT_READY, message := m\<rparr>) t) s))))"

section \<open>The system call\<close>

text \<open>The copy of the user's message into a fresh page: the page and the number of bytes copied.\<close>

definition tag_send_copy :: "kenv \<Rightarrow> user_ptr \<Rightarrow> nat \<Rightarrow> (buffer \<times> nat) outcome" where
  "tag_send_copy e u size' =
     and_then (if size' > MAX_MESSAGE_SIZE - 1 then Inr (MAX_MESSAGE_SIZE - 1)
               else and_then (user_strlen u) (\<lambda>n. Inr (n + 1))) (\<lambda>real_size.
     if \<not> alloc_ok e 0 then Inl NullDeref
     else
       and_then (copy_from_user (replicate 4096 NUL) u real_size) (\<lambda>(not_copied, page).
         Inr (page, real_size - not_copied)))"

text \<open>
  Up to the lock: a return code, or the service found in the table with the page and its length.
  The return for a tag out of range gives no module reference back.
\<close>

definition tag_send_enter ::
    "kenv \<Rightarrow> int \<Rightarrow> int \<Rightarrow> user_ptr \<Rightarrow> nat \<Rightarrow> kstate \<Rightarrow> ((int + nat \<times> buffer \<times> nat) \<times> kstate) outcome" where
  "tag_send_enter e i lev u size' s =
     (let s = module_get s in
      if i < 0 \<or> i > MAX_TAG_SERVICES then Inr (Inl (- EINVAL), s)
      else if lev < 0 \<or> lev \<ge> MAX_LEVELS then Inr (Inl (- EINVAL), module_put s)
      else
        and_then (tag_send_copy e u size') (\<lambda>(page, n).
        and_then (slot s i) (\<lambda>p. case p of
            None \<Rightarrow> Inr (Inl (- EBADF), module_put s)
          | Some p \<Rightarrow> Inr (Inr (p, page, n), s))))"

text \<open>The message goes into its level.\<close>

definition store_message :: "buffer \<Rightarrow> nat \<Rightarrow> tag_level \<Rightarrow> tag_level outcome" where
  "store_message page n l =
     and_then (memcpy (message l) page n) (\<lambda>m.
     and_then (arr_set m (int n) NUL) (\<lambda>m.
       Inr (l\<lparr>message := m, lev_size := of_nat n, message_ready := READY\<rparr>)))"

definition tag_send_locked ::
    "kenv \<Rightarrow> int \<Rightarrow> int \<Rightarrow> nat \<Rightarrow> buffer \<Rightarrow> nat \<Rightarrow> nat \<Rightarrow> kstate \<Rightarrow> (int \<times> kstate) outcome" where
  "tag_send_locked e i lev p page n size' s =
     and_then (mutex_lock i s) (\<lambda>s.
     and_then (get_ts s p) (\<lambda>t.
     if lazy_deleted t = YES then
       and_then (mutex_unlock i s) (\<lambda>s. Inr (- EBADF, module_put s))
     else if owner_euid t \<noteq> euid e \<and> permission t = ONLY_OWNER then
       and_then (mutex_unlock i s) (\<lambda>s. Inr (- EACCES, module_put s))
     else
       and_then (get_level t lev) (\<lambda>l.
       and_then (store_message page n l) (\<lambda>l.
       and_then
         (if thread_waiting_message_count t > 0 then
            Inr (call_rcu (FreeAfterSend p lev) (put_ts p (put_level lev l t) s))
          else
            and_then (memset0 (message l) MAX_MESSAGE_SIZE) (\<lambda>m.
              mutex_unlock i
                (put_ts p (put_level lev (l\<lparr>message_ready := NOT_READY, message := m\<rparr>) t) s)))
         (\<lambda>s. Inr (if size' > MAX_MESSAGE_SIZE - 1 then - EMSGSIZE else 0, module_put s))))))"

definition tag_send :: "kenv \<Rightarrow> int \<Rightarrow> int \<Rightarrow> user_ptr \<Rightarrow> nat \<Rightarrow> kstate \<Rightarrow> (int \<times> kstate) outcome" where
  "tag_send e i lev u size' s =
     and_then (tag_send_enter e i lev u size' s) (\<lambda>(r, s).
     case r of
       Inl code \<Rightarrow> Inr (code, s)
     | Inr (p, page, n) \<Rightarrow> tag_send_locked e i lev p page n size' s)"

section \<open>The copy of the message\<close>

text \<open>
  The bytes that a send stores: all of a string that fits with its NUL, the first 4095 bytes of what
  is mapped when the size is given as too big.
\<close>

definition sent_bytes :: "user_ptr \<Rightarrow> nat \<Rightarrow> buffer" where
  "sent_bytes u size' = (case u of None \<Rightarrow> []
     | Some b \<Rightarrow> if size' > 4095 then take 4095 b else c_str b @ [NUL])"

lemma c_str_shorter: "terminated b \<Longrightarrow> length (c_str b) < length b"
proof -
  assume "terminated b"
  then obtain t where "b = c_str b @ NUL # t" by (rule terminated_split)
  then have "length b = length (c_str b @ NUL # t)" by (rule arg_cong)
  then show ?thesis by simp
qed

lemma c_str_take: "terminated b \<Longrightarrow> take (Suc (length (c_str b))) b = c_str b @ [NUL]"
  by (erule terminated_split) (metis Suc_eq_plus1 add.commute append_Cons append_Nil append_assoc
      append_eq_conv_conj length_append_singleton)

lemma tag_send_copy_ok:
  assumes "alloc_ok e 0" "size' > 4095 \<or> (\<exists>b. u = Some b \<and> terminated b \<and> length (c_str b) < 4095)"
  shows "\<exists>page. tag_send_copy e u size' = Inr (page, length (sent_bytes u size'))
    \<and> length page = 4096 \<and> take (length (sent_bytes u size')) page = sent_bytes u size'
    \<and> length (sent_bytes u size') \<le> 4095"
proof (cases "size' > 4095")
  case True
  let ?m = "case u of None \<Rightarrow> [] | Some b \<Rightarrow> take 4095 b"
  have m: "?m = sent_bytes u size'" "length ?m \<le> 4095"
    using True by (simp_all add: sent_bytes_def split: option.split)
  then show ?thesis using True assms(1)
    by (simp add: tag_send_copy_def copy_from_user_def Let_def)
next
  case False
  then obtain b where b: "u = Some b" "terminated b" "length (c_str b) < 4095" using assms(2) by auto
  then have "sent_bytes u size' = c_str b @ [NUL]" using False by (simp add: sent_bytes_def)
  then show ?thesis using False assms(1) b c_str_take [OF b(2)]
    by (simp add: tag_send_copy_def copy_from_user_def user_strlen_def Let_def)
qed

lemma store_message_ok:
  assumes "length (message l) = 4096" "length page = 4096" "take n page = bs" "length bs = n" "n \<le> 4095"
  shows "\<exists>m. store_message page n l = Inr (l\<lparr>message := m, lev_size := of_nat n, message_ready := READY\<rparr>)
    \<and> length m = 4096 \<and> take (n + 1) m = bs @ [NUL]"
proof -
  let ?m = "take n page @ drop n (message l)"
  let ?m' = "?m[n := NUL]"
  have "memcpy (message l) page n = Inr ?m" using assms by (simp add: memcpy_def)
  moreover have "in_range ?m (int n)" using assms by (simp add: in_range_def)
  ultimately have "store_message page n l = Inr (l\<lparr>message := ?m', lev_size := of_nat n, message_ready := READY\<rparr>)"
    by (simp add: store_message_def)
  moreover have "take (n + 1) ?m' = bs @ [NUL]"
    using assms by (simp add: list_update_append take_Suc_conv_app_nth nth_append)
  moreover have "length ?m' = 4096" using assms by simp
  ultimately show ?thesis by blast
qed

section \<open>The state between deliveries\<close>

text \<open>No delivery is under way: every level is empty and no callback waits.\<close>

definition idle_level :: "tag_level \<Rightarrow> bool" where
  "idle_level l \<longleftrightarrow> message_ready l = NOT_READY \<and> message l = replicate 4096 NUL"

definition settled :: "kstate \<Rightarrow> bool" where
  "settled s \<longleftrightarrow> quiet s \<and> rcu_queue s = [] \<and>
     (\<forall>i t. service_at s i = Some t \<longrightarrow>
        (\<forall>l \<in> set (level t). idle_level l) \<and> awake_request t = NO \<and> lazy_deleted t = NO)"

definition may_use :: "kenv \<Rightarrow> tag_service \<Rightarrow> bool" where
  "may_use e t \<longleftrightarrow> permission t = ONLY_OWNER \<longrightarrow> owner_euid t = euid e"

text \<open>A quiet state but for \<open>access_lock\<close>: what a receiver can rely on while others send.\<close>

definition calm :: "kstate \<Rightarrow> bool" where
  "calm s \<longleftrightarrow> module_ok s \<and> driver_wf s \<and> ledger_ok s \<and> (\<forall>i. \<not> dev_held s i)"

lemma quiet_calm: "quiet s \<longleftrightarrow> calm s \<and> (\<forall>i. \<not> held s i)"
  by (auto simp: quiet_def calm_def)

lemma calm_service:
  assumes "calm s" "service_at s i = Some t"
  obtains p where "i < 512" "entry s i = Some p" "heap s p = Some t" "slot s (int i) = Inr (Some p)"
    "ts_wf (int i) t" "length (level t) = 32"
proof -
  obtain p where p: "i < 512" "entry s i = Some p" "heap s p = Some t"
    using assms(2) by (auto simp: service_at_def split: if_splits option.splits)
  have "slot s (int i) = Inr (Some p)"
    using slot_entry [of s "int i"] assms(1) p by (simp add: calm_def module_ok_def)
  moreover have "ts_wf (int i) t"
    using assms(1) p unfolding calm_def module_ok_def entries_ok_def by fastforce
  ultimately show ?thesis using that p by (simp add: ts_wf_def)
qed

lemmas service_at_SomeE = calm_service [OF conjunct1 [OF quiet_calm [THEN iffD1]]]

lemma calm_put_ts:
  assumes "calm s" "service_at s i = Some t" "entry s i = Some p" "ts_wf (int i) t'"
  shows "calm (put_ts p t' s)" "service_at (put_ts p t' s) = (service_at s)(i \<mapsto> t')"
proof -
  obtain p' where "i < 512" "entry s i = Some p'" "heap s p' = Some t" using calm_service [OF assms(1,2)] .
  then have p: "i < 512" "heap s p = Some t" using assms(3) by simp_all
  have ok: "table_wf s" "counter_ok s" "entries_ok s" using assms(1) by (simp_all add: calm_def module_ok_def)
  have e: "entry (put_ts p t' s) = entry s" by (simp add: put_ts_def)
  have own: "j = i" if "entry s j = Some p" "j < 512" for j
    using entries_distinct [OF ok(3) that(1) assms(3) that(2) p(1)] .
  have "entries_ok (put_ts p t' s)"
    unfolding entries_ok_def e
  proof (intro conjI allI impI)
    fix j q assume j: "j < 512" "entry s j = Some q"
    then obtain u where u: "heap s q = Some u" "ts_wf (int j) u" using ok(3) unfolding entries_ok_def by blast
    show "\<exists>u. heap (put_ts p t' s) q = Some u \<and> ts_wf (int j) u"
      using u own [of j] j assms(4) by (cases "q = p") (auto simp: put_ts_def)
  next
    fix q assume "heap (put_ts p t' s) q \<noteq> None"
    then have "heap s q \<noteq> None" using p(2) by (auto simp: put_ts_def split: if_splits)
    then show "q < next_addr (put_ts p t' s)" using ok(3) by (simp add: entries_ok_def put_ts_def)
  qed
  moreover have "table_wf (put_ts p t' s)" "counter_ok (put_ts p t' s)" "driver_wf (put_ts p t' s)"
    "ledger_ok (put_ts p t' s)" "\<not> dev_held (put_ts p t' s) j" for j
    using ok assms(1) unfolding calm_def table_wf_def counter_ok_def free_entries_def e
    by (simp_all add: put_ts_def driver_wf_def ledger_ok_def dev_held_def)
  ultimately show "calm (put_ts p t' s)" by (simp add: calm_def module_ok_def)
  show "service_at (put_ts p t' s) = (service_at s)(i \<mapsto> t')"
  proof (rule ext)
    fix j
    show "service_at (put_ts p t' s) j = ((service_at s)(i \<mapsto> t')) j"
    proof (cases "j = i")
      case True
      then show ?thesis using p(1) assms(3) unfolding service_at_def e by (simp add: put_ts_def)
    next
      case False
      then have "j < 512 \<Longrightarrow> entry s j \<noteq> Some p" using own by blast
      then show ?thesis using False unfolding service_at_def e
        by (cases "entry s j") (simp_all add: put_ts_def)
    qed
  qed
qed

lemma slot_module_get [simp]: "slot (module_get s) i = slot s i"
  by (simp add: slot_def)

lemma get_ts_frame [simp]: "get_ts (s\<lparr>tsm := m\<rparr>) p = get_ts s p" "get_ts (module_get s) p = get_ts s p"
  by (simp_all add: get_ts_def)

text \<open>The lock section as a whole: what is left when the lock is given back, and when it is kept.\<close>

definition locked :: "int \<Rightarrow> kstate \<Rightarrow> kstate" where
  "locked i s = s\<lparr>tsm := (tsm s)\<lparr>access_lock := (access_lock (tsm s))[nat i := True]\<rparr>\<rparr>"

lemma quiet_lock:
  assumes "quiet s" "i < 512"
  shows "mutex_lock (int i) s = Inr (locked (int i) s)"
    "mutex_unlock (int i) (locked (int i) s) = Inr s"
    "mutex_unlock (int i) (put_ts p t (locked (int i) s)) = Inr (put_ts p t s)"
    "in_range (access_lock (tsm (locked (int i) s))) (int i)"
proof -
  have r: "length (access_lock (tsm s)) = 512" "\<not> access_lock (tsm s) ! i"
    using assms by (auto simp: quiet_def module_ok_def table_wf_def held_def held_at_def in_range_def
        dest: spec [of _ "int i"])
  show "mutex_lock (int i) s = Inr (locked (int i) s)"
    using mutex_lock_ok [of s "int i"] assms by (simp add: quiet_def module_ok_def locked_def)
  have "(access_lock (tsm s))[i := True, i := False] = access_lock (tsm s)"
    using r by (metis (full_types) list_update_id list_update_overwrite)
  then show "mutex_unlock (int i) (locked (int i) s) = Inr s"
    "mutex_unlock (int i) (put_ts p t (locked (int i) s)) = Inr (put_ts p t s)"
    using r assms by (simp_all add: mutex_unlock_def unlock_at_cases locked_def put_ts_def in_range_def)
  show "in_range (access_lock (tsm (locked (int i) s))) (int i)"
    using r assms by (simp add: locked_def in_range_def)
qed

lemma get_ts_locked [simp]: "get_ts (locked i s) p = get_ts s p"
  by (simp add: locked_def)

lemma tag_send_enter_ok:
  assumes "quiet s" "service_at s i = Some t" "0 \<le> lev" "lev < MAX_LEVELS" "alloc_ok e 0"
    "size' > 4095 \<or> (\<exists>b. u = Some b \<and> terminated b \<and> length (c_str b) < 4095)"
  shows "\<exists>p page. entry s i = Some p \<and> heap s p = Some t \<and>
    tag_send_enter e (int i) lev u size' s =
      Inr (Inr (p, page, length (sent_bytes u size')), module_get s)
    \<and> length page = 4096 \<and> take (length (sent_bytes u size')) page = sent_bytes u size'
    \<and> length (sent_bytes u size') \<le> 4095"
proof -
  obtain p where p: "i < 512" "entry s i = Some p" "heap s p = Some t" "slot s (int i) = Inr (Some p)"
    using service_at_SomeE [OF assms(1,2)] .
  obtain page where c: "tag_send_copy e u size' = Inr (page, length (sent_bytes u size'))"
    "length page = 4096 \<and> take (length (sent_bytes u size')) page = sent_bytes u size'
    \<and> length (sent_bytes u size') \<le> 4095"
    using tag_send_copy_ok [OF assms(5,6)] by blast
  then show ?thesis using p assms(3,4) by (simp add: tag_send_enter_def Let_def)
qed

text \<open>The stored level, as both branches of the delivery start from it.\<close>

lemma send_stores:
  assumes "quiet s" "service_at s i = Some t" "0 \<le> lev" "lev < MAX_LEVELS" "alloc_ok e 0"
    "size' > 4095 \<or> (\<exists>b. u = Some b \<and> terminated b \<and> length (c_str b) < 4095)"
    and l: "l = level t ! nat lev"
  shows "\<exists>p m page. entry s i = Some p \<and> heap s p = Some t \<and> length m = 4096
    \<and> take (length (sent_bytes u size') + 1) m = sent_bytes u size' @ [NUL]
    \<and> length (sent_bytes u size') \<le> 4095
    \<and> tag_send e (int i) lev u size' s =
        tag_send_locked e (int i) lev p page (length (sent_bytes u size')) size' (module_get s)
    \<and> store_message page (length (sent_bytes u size')) l = Inr (l\<lparr>message := m,
        lev_size := of_nat (length (sent_bytes u size')), message_ready := READY\<rparr>)"
proof -
  let ?n = "length (sent_bytes u size')"
  obtain p page where e: "entry s i = Some p" "heap s p = Some t"
    "tag_send_enter e (int i) lev u size' s = Inr (Inr (p, page, ?n), module_get s)"
    "length page = 4096" "take ?n page = sent_bytes u size'" "?n \<le> 4095"
    using tag_send_enter_ok [OF assms(1-6)] by blast
  have "ts_wf (int i) t" "length (level t) = 32" using service_at_SomeE [OF assms(1,2)] by auto
  then have "length (message l) = 4096"
    using assms(3,4) unfolding ts_wf_def l by (auto simp: level_wf_def nat_less_iff)
  from store_message_ok [OF this e(4,5) refl e(6)] obtain m where
    "store_message page ?n l = Inr (l\<lparr>message := m, lev_size := of_nat ?n, message_ready := READY\<rparr>)"
    "length m = 4096" "take (?n + 1) m = sent_bytes u size' @ [NUL]" by blast
  with e show ?thesis by (auto simp: tag_send_def)
qed

section \<open>What a send achieves\<close>

lemma get_level_ok: "length (level t) = 32 \<Longrightarrow> 0 \<le> lev \<Longrightarrow> lev < 32 \<Longrightarrow> get_level t lev = Inr (level t ! nat lev)"
  by (simp add: get_level_def in_range_def)

text \<open>The result of \<open>tag_send\<close> once the arguments have been accepted.\<close>

definition send_code :: "nat \<Rightarrow> int" where
  "send_code size' = (if size' > 4095 then - EMSGSIZE else 0)"

text \<open>A message whose bytes can be read by the kernel and fit the page with room to spare.\<close>

definition sendable :: "kenv \<Rightarrow> user_ptr \<Rightarrow> nat \<Rightarrow> bool" where
  "sendable e u size' \<longleftrightarrow> alloc_ok e 0 \<and>
     (size' > 4095 \<or> (\<exists>b. u = Some b \<and> terminated b \<and> length (c_str b) < 4095))"

lemma send_reaches_level:
  assumes "quiet s" "service_at s i = Some t" "lazy_deleted t \<noteq> YES" "may_use e t"
    "0 \<le> lev" "lev < MAX_LEVELS" "sendable e u size'"
  obtains p m l where "entry s i = Some p" "heap s p = Some t" "length m = 4096" "i < 512"
    "take (length (sent_bytes u size') + 1) m = sent_bytes u size' @ [NUL]"
    "length (sent_bytes u size') \<le> 4095"
    "l = (level t ! nat lev)\<lparr>message := m, lev_size := of_nat (length (sent_bytes u size')), message_ready := READY\<rparr>"
    "tag_send e (int i) lev u size' s = and_then
        (if thread_waiting_message_count t > 0 then
            Inr (call_rcu (FreeAfterSend p lev) (put_ts p (put_level lev l t) (locked (int i) (module_get s))))
          else Inr (put_ts p (put_level lev (l\<lparr>message_ready := NOT_READY, message := replicate 4096 NUL\<rparr>) t)
            (module_get s)))
        (\<lambda>s. Inr (send_code size', module_put s))"
proof -
  let ?l = "level t ! nat lev"
  obtain p m page where p: "entry s i = Some p" "heap s p = Some t" "length m = 4096"
    "take (length (sent_bytes u size') + 1) m = sent_bytes u size' @ [NUL]"
    "length (sent_bytes u size') \<le> 4095"
    "tag_send e (int i) lev u size' s =
        tag_send_locked e (int i) lev p page (length (sent_bytes u size')) size' (module_get s)"
    "store_message page (length (sent_bytes u size')) ?l = Inr (?l\<lparr>message := m,
        lev_size := of_nat (length (sent_bytes u size')), message_ready := READY\<rparr>)"
    using send_stores [OF assms(1,2,5,6) _ _ refl, of e size' u] assms(7) unfolding sendable_def by blast
  have t: "i < 512" "length (level t) = 32" using service_at_SomeE [OF assms(1,2)] by auto
  have g: "get_ts (module_get s) p = Inr t" using p(2) by (simp add: get_ts_def)
  have "quiet (module_get s)" using assms(1) by simp
  note L = quiet_lock [OF this t(1)]
  have z: "memset0 m 4096 = Inr (replicate 4096 NUL)" using p(3) by (simp add: memset0_def)
  have gl: "get_level t lev = Inr ?l" using t(2) assms(5,6) by (intro get_level_ok) auto
  show ?thesis
    using that [OF p(1,2,3) t(1) p(4,5) refl] assms(3,4) p(6,7) g L z gl
    by (simp add: tag_send_locked_def may_use_def send_code_def split: if_splits)
qed

text \<open>
  A send to a service where nobody waits returns its code (0, or -EMSGSIZE for a size above 4095),
  and the message is gone: the state is the same as before but for the recorded size of the level.
\<close>

theorem tag_send_nobody_waits:
  assumes "settled s" "service_at s i = Some t" "may_use e t" "thread_waiting_message_count t = 0"
    "0 \<le> lev" "lev < MAX_LEVELS" "sendable e u size'"
  shows "\<exists>p. entry s i = Some p \<and> tag_send e (int i) lev u size' s = Inr (send_code size',
    put_ts p (put_level lev ((level t ! nat lev)\<lparr>lev_size := of_nat (length (sent_bytes u size'))\<rparr>) t) s)"
proof -
  have q: "quiet s" "lazy_deleted t \<noteq> YES" using assms(1,2) by (simp_all add: settled_def)
  obtain p where p: "length (level t) = 32" using service_at_SomeE [OF q(1) assms(2)] .
  let ?l = "level t ! nat lev"
  have l: "idle_level ?l" using assms(1,2,5,6) p by (simp add: settled_def nat_less_iff)
  have f: "module_put (put_ts p t' (module_get s)) = put_ts p t' s" for p t'
    by (simp add: put_ts_def module_put_def module_get_def)
  from send_reaches_level [OF q(1) assms(2) q(2) assms(3,5,6,7)] show ?thesis
  proof cases
    case (1 p m l')
    have "l'\<lparr>message_ready := NOT_READY, message := replicate 4096 NUL\<rparr>
        = ?l\<lparr>lev_size := of_nat (length (sent_bytes u size'))\<rparr>"
      using l unfolding 1(7) by (cases ?l) (simp add: idle_level_def)
    then show ?thesis using 1(1,8) assms(4) f by simp
  qed
qed

text \<open>
  C9 A send to a service where threads wait returns its code with the message stored and flagged in its
  level (its bytes, a NUL behind them, their number as the size), \<open>access_lock\<close> of the tag locked, and
  the callback queued that will clear the level once the present RCU readers have left. Every other
  level, service and counter is as before.
\<close>

theorem tag_send_delivers:
  assumes "settled s" "service_at s i = Some t" "may_use e t" "0 < thread_waiting_message_count t"
    "0 \<le> lev" "lev < MAX_LEVELS" "sendable e u size'"
  shows "\<exists>p m. entry s i = Some p \<and> length m = 4096
    \<and> take (length (sent_bytes u size') + 1) m = sent_bytes u size' @ [NUL]
    \<and> tag_send e (int i) lev u size' s = Inr (send_code size',
        call_rcu (FreeAfterSend p lev) (put_ts p (put_level lev ((level t ! nat lev)\<lparr>message := m,
          lev_size := of_nat (length (sent_bytes u size')), message_ready := READY\<rparr>) t) (locked (int i) s)))"
proof -
  have q: "quiet s" "lazy_deleted t \<noteq> YES" using assms(1,2) by (simp_all add: settled_def)
  have f: "module_put (call_rcu c (put_ts p t' (locked i (module_get s))))
      = call_rcu c (put_ts p t' (locked i s))" for c p t' i
    by (simp add: put_ts_def module_put_def module_get_def locked_def call_rcu_def)
  from send_reaches_level [OF q(1) assms(2) q(2) assms(3,5,6,7)] show ?thesis
  proof cases
    case (1 p m l)
    then show ?thesis using 1 assms(4) f by auto
  qed
qed

section \<open>The callback ends the delivery\<close>

lemma put_ts_twice: "put_ts p t (put_ts p u s) = put_ts p t s"
  by (simp add: put_ts_def)

lemma free_after_send_ends:
  assumes q: "quiet s" and p: "i < 512" "heap s p = Some t" "ts_wf (int i) t"
    and lev: "0 \<le> lev" "lev < 32" and l: "lev_tag l = int i" "length (message l) = 4096"
  shows "free_after_send p lev ((put_ts p (put_level lev l t) (locked (int i) s))\<lparr>rcu_queue := qu\<rparr>)
    = Inr ((put_ts p (put_level lev (l\<lparr>message_ready := NOT_READY, message := replicate 4096 NUL\<rparr>) t) s)
        \<lparr>rcu_queue := qu\<rparr>)"
proof -
  let ?s = "(put_ts p (put_level lev l t) (locked (int i) s))\<lparr>rcu_queue := qu\<rparr>"
  let ?l = "l\<lparr>message_ready := NOT_READY, message := replicate 4096 NUL\<rparr>"
  have len: "length (level t) = 32" using p(3) by (simp add: ts_wf_def)
  have g: "get_ts ?s p = Inr (put_level lev l t)" by (simp add: get_ts_def put_ts_def)
  have gl: "get_level (put_level lev l t) lev = Inr l"
    using len lev by (simp add: get_level_def put_level_def in_range_def nat_less_iff)
  have pp: "put_level lev ?l (put_level lev l t) = put_level lev ?l t" by (simp add: put_level_def)
  have "quiet (s\<lparr>rcu_queue := qu\<rparr>)"
    using q by (simp add: quiet_def module_ok_def table_wf_def counter_ok_def entries_ok_def ledger_ok_def
        free_entries_def driver_wf_def dev_held_def)
  note L = quiet_lock(3) [OF this p(1), of p "put_level lev ?l t"]
  have "put_ts p (put_level lev ?l t) ?s = put_ts p (put_level lev ?l t) (locked (int i) (s\<lparr>rcu_queue := qu\<rparr>))"
    "put_ts p (put_level lev ?l t) (s\<lparr>rcu_queue := qu\<rparr>) = (put_ts p (put_level lev ?l t) s)\<lparr>rcu_queue := qu\<rparr>"
    by (simp_all add: put_ts_def locked_def)
  with L have "mutex_unlock (int i) (put_ts p (put_level lev ?l t) ?s)
      = Inr ((put_ts p (put_level lev ?l t) s)\<lparr>rcu_queue := qu\<rparr>)" by simp
  then show ?thesis using g gl l pp by (simp add: free_after_send_def memset0_def)
qed

text \<open>
  A delivery and the callback that it queues end as if nobody had waited: the lock is free again and
  the level is empty, with only its recorded size changed.
\<close>

theorem tag_send_callback_restores:
  assumes "settled s" "service_at s i = Some t" "may_use e t" "0 < thread_waiting_message_count t"
    "0 \<le> lev" "lev < MAX_LEVELS" "sendable e u size'"
  shows "\<exists>p s'. entry s i = Some p \<and> tag_send e (int i) lev u size' s = Inr (send_code size', s')
    \<and> rcu_queue s' = [(FreeAfterSend p lev, rcu_readers s)]
    \<and> free_after_send p lev (s'\<lparr>rcu_queue := []\<rparr>) = Inr (put_ts p
        (put_level lev ((level t ! nat lev)\<lparr>lev_size := of_nat (length (sent_bytes u size'))\<rparr>) t) s)"
proof -
  have q: "quiet s" "rcu_queue s = []" "lazy_deleted t \<noteq> YES" using assms(1,2) by (simp_all add: settled_def)
  let ?l = "level t ! nat lev"
  have t: "ts_wf (int i) t" "length (level t) = 32" using service_at_SomeE [OF q(1) assms(2)] by auto
  then have w: "lev_tag ?l = int i" "idle_level ?l"
    using assms(1,2,5,6) by (auto simp: ts_wf_def level_wf_def settled_def nat_less_iff)
  have f: "module_put (call_rcu c (put_ts p t' (locked i (module_get s))))
      = call_rcu c (put_ts p t' (locked i s))" for c p t' i
    by (simp add: put_ts_def module_put_def module_get_def locked_def call_rcu_def)
  from send_reaches_level [OF q(1) assms(2) q(3) assms(3,5,6,7)] show ?thesis
  proof cases
    case (1 p m l')
    have l': "lev_tag l' = int i" "length (message l') = 4096" using w 1(3,7) by simp_all
    have m: "l'\<lparr>message_ready := NOT_READY, message := replicate 4096 NUL\<rparr>
        = ?l\<lparr>lev_size := of_nat (length (sent_bytes u size'))\<rparr>"
      using w(2) unfolding 1(7) by (cases ?l) (simp add: idle_level_def)
    have c: "(call_rcu (FreeAfterSend p lev) (put_ts p (put_level lev l' t) (locked (int i) s)))\<lparr>rcu_queue := []\<rparr>
      = (put_ts p (put_level lev l' t) (locked (int i) s))\<lparr>rcu_queue := []\<rparr>"
      by (simp add: call_rcu_def)
    have r: "(put_ts p t' s)\<lparr>rcu_queue := []\<rparr> = put_ts p t' s" for t' using q(2) by (simp add: put_ts_def)
    let ?s' = "call_rcu (FreeAfterSend p lev) (put_ts p (put_level lev l' t) (locked (int i) s))"
    have "tag_send e (int i) lev u size' s = Inr (send_code size', ?s')" using 1(8) assms(4) f by simp
    moreover have "rcu_queue ?s' = [(FreeAfterSend p lev, rcu_readers s)]"
      using q(2) by (simp add: call_rcu_def put_ts_def locked_def)
    moreover have "free_after_send p lev (?s'\<lparr>rcu_queue := []\<rparr>) = Inr (put_ts p (put_level lev
        ((level t ! nat lev)\<lparr>lev_size := of_nat (length (sent_bytes u size'))\<rparr>) t) s)"
      using free_after_send_ends [OF q(1) 1(4,2) t(1) assms(5) _ l', of "[]"] assms(6)
      unfolding c m r by simp
    ultimately show ?thesis using 1(1) by blast
  qed
qed

section \<open>Refusals and faults\<close>

text \<open>
  C22 The refusals of \<open>tag_send\<close>, in the order of the checks. All leave the state as it was, with one
  exception: a tag out of range returns without giving back the reference to the module, which from
  then on cannot be unmounted. The tag 512 passes the range check and is refused as nonexistent.
\<close>

theorem tag_send_refuses:
  assumes "quiet s" "sendable e u size'"
  shows "(i < 0 \<or> 512 < i \<longrightarrow> tag_send e i lev u size' s = Inr (- EINVAL, module_get s))
    \<and> (0 \<le> i \<and> i \<le> 512 \<and> (lev < 0 \<or> MAX_LEVELS \<le> lev) \<longrightarrow> tag_send e i lev u size' s = Inr (- EINVAL, s))
    \<and> (0 \<le> i \<and> i \<le> 512 \<and> 0 \<le> lev \<and> lev < MAX_LEVELS \<and> service_at s (nat i) = None \<longrightarrow>
        tag_send e i lev u size' s = Inr (- EBADF, s))
    \<and> (0 \<le> i \<and> 0 \<le> lev \<and> lev < MAX_LEVELS \<and> service_at s (nat i) = Some t \<and> lazy_deleted t = YES \<longrightarrow>
        tag_send e i lev u size' s = Inr (- EBADF, s))
    \<and> (0 \<le> i \<and> 0 \<le> lev \<and> lev < MAX_LEVELS \<and> service_at s (nat i) = Some t \<and> lazy_deleted t = NO
        \<and> \<not> may_use e t \<longrightarrow> tag_send e i lev u size' s = Inr (- EACCES, s))"
proof (intro conjI impI)
  assume "i < 0 \<or> 512 < i"
  then show "tag_send e i lev u size' s = Inr (- EINVAL, module_get s)"
    by (auto simp: tag_send_def tag_send_enter_def Let_def)
next
  assume "0 \<le> i \<and> i \<le> 512 \<and> (lev < 0 \<or> MAX_LEVELS \<le> lev)"
  then show "tag_send e i lev u size' s = Inr (- EINVAL, s)"
    by (auto simp: tag_send_def tag_send_enter_def Let_def module_put_get)
next
  assume a: "0 \<le> i \<and> i \<le> 512 \<and> 0 \<le> lev \<and> lev < MAX_LEVELS \<and> service_at s (nat i) = None"
  have wf: "table_wf s" "entries_ok s" using assms(1) by (simp_all add: quiet_def module_ok_def)
  have "entry s (nat i) = None"
    using a wf service_at_None [OF wf(2), of "nat i"] entry_beyond [OF wf(1), of "nat i"]
    by (cases "i < 512") auto
  then have "slot s i = Inr None" using slot_entry [OF wf(1), of i] a by simp
  moreover obtain page n where "tag_send_copy e u size' = Inr (page, n)"
    using tag_send_copy_ok assms(2) unfolding sendable_def by blast
  ultimately show "tag_send e i lev u size' s = Inr (- EBADF, s)"
    using a by (simp add: tag_send_def tag_send_enter_def Let_def module_put_get)
next
  fix t
  assume a: "0 \<le> i \<and> 0 \<le> lev \<and> lev < MAX_LEVELS \<and> service_at s (nat i) = Some t \<and> lazy_deleted t = YES"
  obtain p page n where c: "tag_send_enter e (int (nat i)) lev u size' s = Inr (Inr (p, page, n), module_get s)"
    "heap s p = Some t"
    using tag_send_enter_ok [OF assms(1), of "nat i" t lev e size' u] a assms(2) unfolding sendable_def by blast
  then have g: "get_ts s p = Inr t" by (simp add: get_ts_def)
  have i: "nat i < 512" using a service_at_SomeE [OF assms(1), of "nat i" t] by blast
  have "quiet (module_get s)" using assms(1) by simp
  note L = quiet_lock [OF this i]
  show "tag_send e i lev u size' s = Inr (- EBADF, s)"
    using c(1) g a L by (simp add: tag_send_def tag_send_locked_def module_put_get)
next
  fix t
  assume a: "0 \<le> i \<and> 0 \<le> lev \<and> lev < MAX_LEVELS \<and> service_at s (nat i) = Some t \<and> lazy_deleted t = NO
    \<and> \<not> may_use e t"
  obtain p page n where c: "tag_send_enter e (int (nat i)) lev u size' s = Inr (Inr (p, page, n), module_get s)"
    "heap s p = Some t"
    using tag_send_enter_ok [OF assms(1), of "nat i" t lev e size' u] a assms(2) unfolding sendable_def by blast
  then have g: "get_ts s p = Inr t" by (simp add: get_ts_def)
  have i: "nat i < 512" using a service_at_SomeE [OF assms(1), of "nat i" t] by blast
  have "quiet (module_get s)" using assms(1) by simp
  note L = quiet_lock [OF this i]
  show "tag_send e i lev u size' s = Inr (- EACCES, s)"
    using c(1) g a L by (simp add: tag_send_def tag_send_locked_def module_put_get may_use_def)
qed

text \<open>
  For sizes up to 4095 the size argument has no influence on \<open>tag_send\<close>: the length of the message
  is found by \<open>strlen\<close> on the user's pointer, whatever size the caller gives.
\<close>

theorem tag_send_ignores_size:
  assumes "size1 \<le> 4095" "size2 \<le> 4095"
  shows "tag_send e i lev u size1 s = tag_send e i lev u size2 s"
proof -
  have "tag_send_copy e u size1 = tag_send_copy e u size2" using assms by (simp add: tag_send_copy_def)
  moreover have "tag_send_locked e i lev p page n size1 = tag_send_locked e i lev p page n size2" for p page n
    using assms by (simp add: tag_send_locked_def fun_eq_iff)
  ultimately show ?thesis by (simp only: tag_send_def tag_send_enter_def)
qed

text \<open>
  C24 What this leads to, for a service that the caller may use, with any size up to 4095: a user string
  of 4095 characters makes \<open>tag_send\<close> write one byte behind the 4096 bytes of the message, a longer one
  overflows the intermediate page, and a NULL pointer or bytes without a NUL make the kernel fault.
\<close>

theorem tag_send_trusts_strlen:
  assumes "quiet s" "service_at s i = Some t" "lazy_deleted t = NO" "may_use e t"
    "0 \<le> lev" "lev < MAX_LEVELS" "alloc_ok e 0" "size' \<le> 4095"
  shows "(terminated b \<and> length (c_str b) = 4095 \<longrightarrow> tag_send e (int i) lev (Some b) size' s = Inl OutOfBounds)
    \<and> (terminated b \<and> 4096 \<le> length (c_str b) \<longrightarrow> tag_send e (int i) lev (Some b) size' s = Inl BufferOverflow)
    \<and> (\<not> terminated b \<longrightarrow> tag_send e (int i) lev (Some b) size' s = Inl PageFault)
    \<and> tag_send e (int i) lev None size' s = Inl PageFault"
proof -
  obtain p where p: "i < 512" "heap s p = Some t" "slot s (int i) = Inr (Some p)" "ts_wf (int i) t"
    "length (level t) = 32" using service_at_SomeE [OF assms(1,2)] .
  have "tag_send e (int i) lev (Some b) size' s = Inl OutOfBounds" if b: "terminated b" "length (c_str b) = 4095"
  proof -
    have "4096 \<le> length b" using c_str_shorter [OF b(1)] b(2) by simp
    then have n: "length (take (Suc (length (c_str b))) b) = 4096" using b by simp
    have c: "tag_send_copy e (Some b) size' = Inr (take 4096 b, 4096)"
      using b assms(7,8) n by (simp add: tag_send_copy_def copy_from_user_def user_strlen_def Let_def)
    let ?l = "level t ! nat lev"
    have "length (message ?l) = 4096" using p(4,5) assms(5,6) by (auto simp: ts_wf_def level_wf_def nat_less_iff)
    then have st: "store_message (take 4096 b) 4096 ?l = Inl OutOfBounds"
      using n b by (simp add: store_message_def memcpy_def in_range_def)
    have "quiet (module_get s)" using assms(1) by simp
    note L = quiet_lock [OF this p(1)]
    have g: "get_ts s p = Inr t" using p(2) by (simp add: get_ts_def)
    have gl: "get_level t lev = Inr ?l" using p(5) assms(5,6) by (intro get_level_ok) auto
    show ?thesis using c st L g gl p(1,3) assms(3-6)
      by (auto simp: tag_send_def tag_send_enter_def tag_send_locked_def may_use_def Let_def)
  qed
  moreover have "tag_send e (int i) lev (Some b) size' s = Inl BufferOverflow"
    if "terminated b" "4096 \<le> length (c_str b)"
    using that p(1) assms(5-8)
    by (simp add: tag_send_def tag_send_enter_def tag_send_copy_def user_strlen_def copy_from_user_def Let_def)
  moreover have "\<not> terminated b \<Longrightarrow> tag_send e (int i) lev (Some b) size' s = Inl PageFault"
    "tag_send e (int i) lev None size' s = Inl PageFault"
    using p(1) assms(5-8) by (simp_all add: tag_send_def tag_send_enter_def tag_send_copy_def user_strlen_def Let_def)
  ultimately show ?thesis by blast
qed

section \<open>On a module with one service\<close>

lemma one_service_entry: "i < 4096 \<Longrightarrow> entry (one_service w) i = (if i = 5 then Some 0 else None)"
  by (simp add: entry_def one_service_def nth_list_update)

lemma one_service_free: "free_entries (one_service w) = {..<512} - {5}"
  by (auto simp: free_entries_def one_service_entry)

lemma one_service_ts: "ts_wf 5 (demo_service w)"
  by (auto simp: ts_wf_def demo_service_def level_wf_def demo_level_def nth_list_update set_conv_nth)

lemma one_service_at: "service_at (one_service w) i = (if i = 5 then Some (demo_service w) else None)"
  by (simp add: service_at_def one_service_entry) (simp add: one_service_def)

lemma one_service_quiet: "quiet (one_service w)"
proof -
  have "table_wf (one_service w)"
    by (simp add: table_wf_def one_service_entry) (simp add: one_service_def)
  moreover have "counter_ok (one_service w)"
    unfolding counter_ok_def one_service_free by (simp add: one_service_def)
  moreover have "entries_ok (one_service w)"
    using one_service_ts [of w] by (simp add: entries_ok_def one_service_entry) (simp add: one_service_def)
  moreover have "ledger_ok (one_service w)" "\<not> held (one_service w) i" for i
    by (auto simp: ledger_ok_def one_service_def held_def held_at_def in_range_def)
  ultimately show ?thesis using one_service_driver by (simp add: quiet_def module_ok_def)
qed

lemma one_service_settled: "settled (one_service w)"
proof -
  have "\<forall>l \<in> set (level (demo_service w)). idle_level l"
    by (auto simp: demo_service_def idle_level_def demo_level_def set_conv_nth nth_list_update)
  then show ?thesis using one_service_quiet
    by (simp add: settled_def one_service_at) (simp add: one_service_def demo_service_def)
qed

lemma demo_facts: "thread_waiting_message_count (demo_service w) = w" "lazy_deleted (demo_service w) = NO"
  "may_use (plain_env 1000) (demo_service w)" "\<not> may_use (plain_env 7) (demo_service w)"
  by (simp_all add: demo_service_def may_use_def plain_env_def)

lemma sendable_ciao: "sendable (plain_env u) (Some (''ciao'' @ [NUL])) 5"
proof -
  have "c_str (''ciao'' @ NUL # []) = ''ciao''" by (rule c_str_append) simp
  then show ?thesis by (simp add: sendable_def plain_env_def terminated_def)
qed

theorem tag_send_nobody_waits_witness:
  "\<exists>s'. tag_send (plain_env 1000) 5 3 (Some (''ciao'' @ [NUL])) 5 (one_service 0) = Inr (0, s')
    \<and> access_lock (tsm s') = access_lock (tsm (one_service 0)) \<and> rcu_queue s' = []"
proof -
  have "0 \<le> (3::int)" "(3::int) < MAX_LEVELS" by simp_all
  from tag_send_nobody_waits [OF one_service_settled _ demo_facts(3) [of 0] _ this sendable_ciao, of 0 5]
  show ?thesis by (auto simp: one_service_at demo_facts send_code_def put_ts_def) (simp_all add: one_service_def)
qed

theorem tag_send_delivers_witness:
  "\<exists>s'. tag_send (plain_env 1000) 5 3 (Some (''ciao'' @ [NUL])) 5 (one_service 1) = Inr (0, s')
    \<and> rcu_queue s' = [(FreeAfterSend 0 3, {})]"
proof -
  have "0 \<le> (3::int)" "(3::int) < MAX_LEVELS" by simp_all
  from tag_send_delivers [OF one_service_settled _ demo_facts(3) [of 1] _ this sendable_ciao, of 1 5]
  show ?thesis by (auto simp: one_service_at demo_facts send_code_def put_ts_def call_rcu_def locked_def
      one_service_entry) (auto simp: one_service_def)
qed

theorem tag_send_callback_restores_witness:
  "\<exists>s' s''. tag_send (plain_env 1000) 5 3 (Some (''ciao'' @ [NUL])) 5 (one_service 1) = Inr (0, s')
    \<and> free_after_send 0 3 (s'\<lparr>rcu_queue := []\<rparr>) = Inr s''"
proof -
  have "0 \<le> (3::int)" "(3::int) < MAX_LEVELS" by simp_all
  from tag_send_callback_restores [OF one_service_settled _ demo_facts(3) [of 1] _ this sendable_ciao, of 1 5]
  show ?thesis by (auto simp: one_service_at demo_facts send_code_def one_service_entry)
qed

theorem tag_send_refuses_witness:
  "tag_send (plain_env 7) 5 3 (Some (''ciao'' @ [NUL])) 5 (one_service 1) = Inr (- EACCES, one_service 1)
  \<and> tag_send (plain_env 7) 512 3 (Some (''ciao'' @ [NUL])) 5 (one_service 1) = Inr (- EBADF, one_service 1)"
  using tag_send_refuses [OF one_service_quiet [of 1] sendable_ciao [of 7], of 5 3 "demo_service 1"]
    tag_send_refuses [OF one_service_quiet [of 1] sendable_ciao [of 7], of 512 3]
  by (simp add: one_service_at demo_facts)

theorem tag_send_ignores_size_witness:
  "tag_send (plain_env 1000) 5 3 (Some (''ciao'' @ [NUL])) 1 (one_service 1)
    = tag_send (plain_env 1000) 5 3 (Some (''ciao'' @ [NUL])) 5 (one_service 1)"
  by (rule tag_send_ignores_size) simp_all

theorem tag_send_trusts_strlen_witness:
  "tag_send (plain_env 1000) 5 3 None 5 (one_service 1) = Inl PageFault"
  using tag_send_trusts_strlen [OF one_service_quiet [of 1], where i = 5 and t = "demo_service 1"
      and e = "plain_env 1000" and lev = 3 and size' = 5 and b = "[]"]
  by (simp add: one_service_at demo_facts) (simp add: plain_env_def)

end
