(* ===== verification/Tag_Receive.thy ===== *)
theory Tag_Receive
  imports Tag_Send
begin

text \<open>
  The system call \<open>tag_receive\<close> in the pieces that other threads can come between: the checks, the
  entry into the level (counters and device text), the wait, the RCU section that takes the message,
  and the way out.
\<close>

section \<open>RCU readers\<close>

definition rcu_read_lock :: "nat \<Rightarrow> kstate \<Rightarrow> kstate" where
  "rcu_read_lock th s = s\<lparr>rcu_readers := insert th (rcu_readers s)\<rparr>"

definition rcu_read_unlock :: "nat \<Rightarrow> kstate \<Rightarrow> kstate" where
  "rcu_read_unlock th s = s\<lparr>rcu_readers := rcu_readers s - {th},
     rcu_queue := map (\<lambda>(c, rs). (c, rs - {th})) (rcu_queue s)\<rparr>"

section \<open>The system call\<close>

text \<open>Up to the entry: a return code, or the service to wait on.\<close>

definition tag_receive_check ::
    "kenv \<Rightarrow> int \<Rightarrow> int \<Rightarrow> user_ptr \<Rightarrow> kstate \<Rightarrow> ((int + nat) \<times> kstate) outcome" where
  "tag_receive_check e i lev u s =
     (let s = module_get s in
      if i < 0 \<or> i > MAX_TAG_SERVICES - 1 then Inr (Inl (- EINVAL), module_put s)
      else if lev < 0 \<or> lev \<ge> MAX_LEVELS then Inr (Inl (- EINVAL), module_put s)
      else
        and_then (slot s i) (\<lambda>p. case p of
            None \<Rightarrow> Inr (Inl (- EBADF), module_put s)
          | Some p \<Rightarrow>
              and_then (get_ts s p) (\<lambda>t.
              if lazy_deleted t = YES then Inr (Inl (- EBADF), module_put s)
              else if owner_euid t \<noteq> euid e \<and> permission t = ONLY_OWNER then
                Inr (Inl (- EACCES), module_put s)
              else if u = None then Inr (Inl (- EACCES), module_put s)
              else Inr (Inr p, s))))"

definition receive_size :: "nat \<Rightarrow> nat" where
  "receive_size size' = (if size' \<ge> MAX_MESSAGE_SIZE - 1 then MAX_MESSAGE_SIZE - 1 else size')"

text \<open>
  The two counters, each changed by one atomic instruction, on the way in (\<open>f = atomic_inc\<close>) and on the
  way out (\<open>f = atomic_dec\<close>).
\<close>

definition count_total :: "(64 word \<Rightarrow> 64 word) \<Rightarrow> tag_service \<Rightarrow> tag_service" where
  "count_total f t = t\<lparr>thread_waiting_message_count := f (thread_waiting_message_count t)\<rparr>"

definition count_level :: "(64 word \<Rightarrow> 64 word) \<Rightarrow> int \<Rightarrow> tag_service \<Rightarrow> tag_service outcome" where
  "count_level f lev t =
     and_then (get_level t lev) (\<lambda>l. Inr (put_level lev (l\<lparr>thread_waiting := f (thread_waiting l)\<rparr>) t))"

definition tag_receive_total :: "(64 word \<Rightarrow> 64 word) \<Rightarrow> nat \<Rightarrow> kstate \<Rightarrow> kstate outcome" where
  "tag_receive_total f p s = and_then (get_ts s p) (\<lambda>t. Inr (put_ts p (count_total f t) s))"

definition tag_receive_level :: "(64 word \<Rightarrow> 64 word) \<Rightarrow> int \<Rightarrow> nat \<Rightarrow> kstate \<Rightarrow> kstate outcome" where
  "tag_receive_level f lev p s =
     and_then (get_ts s p) (\<lambda>t. and_then (count_level f lev t) (\<lambda>t. Inr (put_ts p t s)))"

text \<open>Both counters and the device text, when nobody comes between.\<close>

definition tag_receive_enter :: "kenv \<Rightarrow> int \<Rightarrow> int \<Rightarrow> nat \<Rightarrow> kstate \<Rightarrow> kstate outcome" where
  "tag_receive_enter e i lev p s =
     and_then (tag_receive_total atomic_inc p s) (\<lambda>s.
     and_then (tag_receive_level atomic_inc lev p s) (\<lambda>s.
     and_then (update_chrdev e i lev s) (\<lambda>(_, s). Inr s)))"

definition tag_receive_leave :: "kenv \<Rightarrow> int \<Rightarrow> int \<Rightarrow> nat \<Rightarrow> kstate \<Rightarrow> kstate outcome" where
  "tag_receive_leave e i lev p s =
     and_then (tag_receive_total atomic_dec p s) (\<lambda>s.
     and_then (tag_receive_level atomic_dec lev p s) (\<lambda>s.
     and_then (update_chrdev e i lev s) (\<lambda>(_, s). Inr (module_put s))))"

text \<open>The condition of \<open>wait_event_interruptible\<close>.\<close>

definition wait_condition :: "int \<Rightarrow> tag_service \<Rightarrow> bool outcome" where
  "wait_condition lev t =
     and_then (get_level t lev) (\<lambda>l. Inr (message_ready l = READY \<or> awake_request t = YES))"

definition copy_to_user :: "user_ptr \<Rightarrow> buffer \<Rightarrow> nat \<Rightarrow> buffer outcome" where
  "copy_to_user u src n =
     (if length src < n then Inl OverRead
      else Inr (case u of None \<Rightarrow> [] | Some b \<Rightarrow> take (min n (length b)) src))"

text \<open>
  Inside the RCU section: the code to return and the bytes that reach the user. A failed copy is only
  logged.
\<close>

definition tag_receive_read ::
    "bool \<Rightarrow> int \<Rightarrow> user_ptr \<Rightarrow> nat \<Rightarrow> tag_service \<Rightarrow> (int \<times> buffer) outcome" where
  "tag_receive_read signal lev u size' t =
     (if signal then Inr (- EINTR, [])
      else
        and_then (get_level t lev) (\<lambda>l.
        if message_ready l \<noteq> READY then Inr (- EINTR, [])
        else
          let real_size = receive_size size';
              real_size = (if unat (lev_size l) < real_size then unat (lev_size l) else real_size)
          in and_then (copy_to_user u (message l) real_size) (\<lambda>bs. Inr (0, bs))))"

text \<open>
  The whole call for a thread that does not have to wait for another one: a wait whose condition does
  not hold and that no signal ends is \<open>Blocked\<close>.
\<close>

definition tag_receive ::
    "kenv \<Rightarrow> nat \<Rightarrow> bool \<Rightarrow> int \<Rightarrow> int \<Rightarrow> user_ptr \<Rightarrow> nat \<Rightarrow> kstate \<Rightarrow> ((int \<times> buffer) \<times> kstate) outcome" where
  "tag_receive e th signal i lev u size' s =
     and_then (tag_receive_check e i lev u s) (\<lambda>(r, s).
     case r of
       Inl code \<Rightarrow> Inr ((code, []), s)
     | Inr p \<Rightarrow>
         and_then (tag_receive_enter e i lev p s) (\<lambda>s.
         and_then (get_ts s p) (\<lambda>t.
         and_then (wait_condition lev t) (\<lambda>c.
         if \<not> c \<and> \<not> signal then Inl Blocked
         else
           and_then (tag_receive_read signal lev u size' t) (\<lambda>res.
           and_then (tag_receive_leave e i lev p (rcu_read_unlock th (rcu_read_lock th s)))
             (\<lambda>s. Inr (res, s)))))))"

section \<open>The counters\<close>

definition count_in :: "int \<Rightarrow> tag_service \<Rightarrow> tag_service outcome" where
  "count_in lev t = count_level atomic_inc lev (count_total atomic_inc t)"

definition count_out :: "int \<Rightarrow> tag_service \<Rightarrow> tag_service outcome" where
  "count_out lev t = count_level atomic_dec lev (count_total atomic_dec t)"

lemma get_ts_put: "get_ts (put_ts p t s) p = Inr t"
  by (simp add: get_ts_def put_ts_def)

lemma tag_receive_enter_eq:
  "tag_receive_enter e i lev p s =
     and_then (get_ts s p) (\<lambda>t.
     and_then (count_in lev t) (\<lambda>t.
     and_then (update_chrdev e i lev (put_ts p t s)) (\<lambda>(_, s). Inr s)))"
  by (cases "get_ts s p") (simp_all add: tag_receive_enter_def tag_receive_total_def tag_receive_level_def count_in_def
      get_ts_put put_ts_twice and_then_assoc)

lemma tag_receive_leave_eq:
  "tag_receive_leave e i lev p s =
     and_then (get_ts s p) (\<lambda>t.
     and_then (count_out lev t) (\<lambda>t.
     and_then (update_chrdev e i lev (put_ts p t s)) (\<lambda>(_, s). Inr (module_put s))))"
  by (cases "get_ts s p") (simp_all add: tag_receive_leave_def tag_receive_total_def tag_receive_level_def count_out_def
      get_ts_put put_ts_twice and_then_assoc)

lemma count_in_ok:
  assumes "length (level t) = 32" "0 \<le> lev" "lev < 32"
  shows "count_in lev t = Inr (put_level lev ((level t ! nat lev)
      \<lparr>thread_waiting := atomic_inc (thread_waiting (level t ! nat lev))\<rparr>)
      (t\<lparr>thread_waiting_message_count := atomic_inc (thread_waiting_message_count t)\<rparr>))"
  using assms by (simp add: count_in_def count_level_def count_total_def get_level_def in_range_def put_level_def)

lemma count_out_ok:
  assumes "length (level t) = 32" "0 \<le> lev" "lev < 32"
  shows "count_out lev t = Inr (put_level lev ((level t ! nat lev)
      \<lparr>thread_waiting := atomic_dec (thread_waiting (level t ! nat lev))\<rparr>)
      (t\<lparr>thread_waiting_message_count := atomic_dec (thread_waiting_message_count t)\<rparr>))"
  using assms by (simp add: count_out_def count_level_def count_total_def get_level_def in_range_def put_level_def)

text \<open>The total of a service is the sum over its levels, and small enough for its atomic counters.\<close>

definition totals_ok :: "tag_service \<Rightarrow> bool" where
  "totals_ok t \<longleftrightarrow> unat (thread_waiting_message_count t) = sum_list (counts t)
     \<and> sum_list (counts t) < 10 ^ 9"

lemma counts_put_level:
  "length (level t) = 32 \<Longrightarrow> 0 \<le> lev \<Longrightarrow> lev < 32 \<Longrightarrow>
   counts (put_level lev l t) = (counts t)[nat lev := unat (thread_waiting l)]"
  by (simp add: counts_def put_level_def map_update)

lemma counts_nth: "length (level t) = 32 \<Longrightarrow> n < 32 \<Longrightarrow> counts t ! n = unat (thread_waiting (level t ! n))"
  by (simp add: counts_def)

lemma length_counts [simp]: "length (counts t) = length (level t)"
  by (simp add: counts_def)

lemma counts_total [simp]: "counts (t\<lparr>thread_waiting_message_count := w\<rparr>) = counts t"
  by (simp add: counts_def)

lemma count_le_sum: "n < length xs \<Longrightarrow> xs ! n \<le> sum_list (xs :: nat list)"
  by (simp add: member_le_sum_list)

lemma count_in_totals:
  assumes "length (level t) = 32" "0 \<le> lev" "lev < 32" "totals_ok t" "sum_list (counts t) + 1 < 10 ^ 9"
    "count_in lev t = Inr t'"
  shows "totals_ok t' \<and> counts t' = (counts t)[nat lev := counts t ! nat lev + 1]
    \<and> thread_waiting_message_count t' > 0"
proof -
  have n: "nat lev < 32" using assms by auto
  have c: "counts t ! nat lev \<le> sum_list (counts t)" using n assms(1) by (intro count_le_sum) simp
  have u: "unat (thread_waiting_message_count t) = sum_list (counts t)"
    "unat (thread_waiting (level t ! nat lev)) = counts t ! nat lev"
    using assms(1,4) n by (simp_all add: totals_ok_def counts_nth)
  have i: "unat (atomic_inc (thread_waiting_message_count t)) = sum_list (counts t) + 1"
    "unat (atomic_inc (thread_waiting (level t ! nat lev))) = counts t ! nat lev + 1"
    using unat_atomic_inc [of "thread_waiting_message_count t"]
      unat_atomic_inc [of "thread_waiting (level t ! nat lev)"] u c assms(5) by simp_all
  have t': "t' = put_level lev ((level t ! nat lev)
      \<lparr>thread_waiting := atomic_inc (thread_waiting (level t ! nat lev))\<rparr>)
      (t\<lparr>thread_waiting_message_count := atomic_inc (thread_waiting_message_count t)\<rparr>)"
    using count_in_ok [OF assms(1-3)] assms(6) by simp
  have cs: "counts t' = (counts t)[nat lev := counts t ! nat lev + 1]"
    using assms(1-3) i(2) by (simp add: t' counts_put_level)
  have "sum_list (counts t') = sum_list (counts t) + 1"
    using n assms(1) c by (simp add: cs sum_list_update)
  moreover have "thread_waiting_message_count t' = atomic_inc (thread_waiting_message_count t)"
    by (simp add: t' put_level_def)
  moreover have "thread_waiting_message_count t' > 0"
    using i(1) calculation(2) by (simp add: word_gt_0 flip: unat_eq_zero) 
  ultimately show ?thesis using cs i(1) assms(5) by (simp add: totals_ok_def)
qed

lemma count_out_totals:
  assumes "length (level t) = 32" "0 \<le> lev" "lev < 32" "totals_ok t" "0 < counts t ! nat lev"
    "count_out lev t = Inr t'"
  shows "totals_ok t' \<and> counts t' = (counts t)[nat lev := counts t ! nat lev - 1]"
proof -
  have n: "nat lev < 32" using assms by auto
  have c: "counts t ! nat lev \<le> sum_list (counts t)" using n assms(1) by (intro count_le_sum) simp
  have u: "unat (thread_waiting_message_count t) = sum_list (counts t)" "sum_list (counts t) < 10 ^ 9"
    "unat (thread_waiting (level t ! nat lev)) = counts t ! nat lev"
    using assms(1,4) n by (simp_all add: totals_ok_def counts_nth)
  have i: "unat (atomic_dec (thread_waiting_message_count t)) = sum_list (counts t) - 1"
    "unat (atomic_dec (thread_waiting (level t ! nat lev))) = counts t ! nat lev - 1"
    using unat_atomic_dec [of "thread_waiting_message_count t"]
      unat_atomic_dec [of "thread_waiting (level t ! nat lev)"] u c assms(5) by simp_all
  have t': "t' = put_level lev ((level t ! nat lev)
      \<lparr>thread_waiting := atomic_dec (thread_waiting (level t ! nat lev))\<rparr>)
      (t\<lparr>thread_waiting_message_count := atomic_dec (thread_waiting_message_count t)\<rparr>)"
    using count_out_ok [OF assms(1-3)] assms(6) by simp
  have cs: "counts t' = (counts t)[nat lev := counts t ! nat lev - 1]"
    using assms(1-3) i(2) by (simp add: t' counts_put_level)
  have "sum_list (counts t') = sum_list (counts t) - 1"
    using n assms(1,5) c by (simp add: cs sum_list_update)
  moreover have "thread_waiting_message_count t' = atomic_dec (thread_waiting_message_count t)"
    by (simp add: t' put_level_def)
  ultimately show ?thesis using cs i(1) u(2) by (simp add: totals_ok_def)
qed

section \<open>The way in and the way out\<close>

text \<open>
  Fresh memory happens to be zero. \<open>kmalloc\<close> does not promise it, and \<open>update_chrdev\<close> appends to a string that it
  never started: only under this assumption is the device text exact after an update.
\<close>

definition zeroed :: "kenv \<Rightarrow> bool" where
  "zeroed e \<longleftrightarrow> (\<forall>m n. junk e m n = NUL)"

lemma plain_env_zeroed: "zeroed (plain_env u)"
  by (simp add: zeroed_def plain_env_def)

text \<open>The device of the entry \<open>i\<close> shows the counts of its service.\<close>

definition device_shows :: "kstate \<Rightarrow> nat \<Rightarrow> tag_service \<Rightarrow> bool" where
  "device_shows s i t \<longleftrightarrow> is_int (key t) \<and> shows_status s (int i) (key t) (owner_euid t) (counts t)"

lemma calm_core:
  assumes "core s' = core s" "driver_wf s' = driver_wf s" "dev_held s' = dev_held s"
  shows "calm s' = calm s" "service_at s' = service_at s"
proof -
  note C = core_eqD(2-4) [OF assms(1)] entry_core [OF assms(1)]
  show "calm s' = calm s"
    using assms module_ok_core [OF assms(1)] C by (simp add: calm_def ledger_ok_def)
  show "service_at s' = service_at s" by (rule ext) (simp add: service_at_def C split: option.split)
qed

lemma ts_wf_put_level:
  assumes "ts_wf i t" "0 \<le> lev" "lev < 32"
  shows "ts_wf i (put_level lev ((level t ! nat lev)\<lparr>thread_waiting := w\<rparr>)
    (t\<lparr>thread_waiting_message_count := c\<rparr>))"
proof -
  have n: "nat lev < length (level t)" using assms by (simp add: ts_wf_def nat_less_iff)
  then have "level_wf i (level t ! nat lev)" using assms(1) by (simp add: ts_wf_def)
  then have "level_wf i ((level t ! nat lev)\<lparr>thread_waiting := w\<rparr>)" by (simp add: level_wf_def)
  then show ?thesis using assms(1) by (auto simp: ts_wf_def put_level_def dest: set_update_subset_insert [THEN subsetD])
qed

text \<open>
  A change of the count of one level followed by \<open>update_chrdev\<close>: the state stays well formed and the
  device shows the new counts.
\<close>

lemma recount:
  assumes c: "calm s" and t: "service_at s i = Some t" "entry s i = Some p" and u: "zeroed e"
    and lev: "0 \<le> lev" "lev < 32" and d: "device_shows s i t" "totals_ok t"
    and t': "t' = put_level lev ((level t ! nat lev)\<lparr>thread_waiting := w\<rparr>)
        (t\<lparr>thread_waiting_message_count := n\<rparr>)" "totals_ok t'"
  shows "\<exists>s'. update_chrdev e (int i) lev (put_ts p t' s) = Inr (0, s') \<and> calm s'
    \<and> service_at s' = (service_at s)(i \<mapsto> t') \<and> device_shows s' i t'
    \<and> core s' = core (put_ts p t' s)"
proof -
  obtain p' where "i < 512" "entry s i = Some p'" "heap s p' = Some t" "ts_wf (int i) t" "length (level t) = 32"
    using calm_service [OF c t(1)] .
  then have p: "i < 512" "heap s p = Some t" "ts_wf (int i) t" "length (level t) = 32" using t(2) by simp_all
  have wf': "ts_wf (int i) t'" using ts_wf_put_level [OF p(3) lev] t'(1) by simp
  note P = calm_put_ts [OF c t wf']
  have n: "nat lev < 32" using lev by auto
  have same: "key t' = key t" "owner_euid t' = owner_euid t" "tag t' = int i" "length (level t') = 32"
    "level t' ! nat lev = (level t ! nat lev)\<lparr>thread_waiting := w\<rparr>"
    using p(3,4) n by (simp_all add: t'(1) put_level_def ts_wf_def)
  have cs: "counts t' = (counts t)[nat lev := unat w]"
    using counts_put_level [of "t\<lparr>thread_waiting_message_count := n\<rparr>" lev] p(4) lev by (simp add: t'(1))
  have le: "unat w \<le> sum_list (counts t')"
    using count_le_sum [of "nat lev" "counts t'"] n p(4) by (simp add: cs)
  have all: "\<forall>x \<in> set (counts t). x < 10 ^ 10"
  proof
    fix x assume "x \<in> set (counts t)"
    then have "x \<le> sum_list (counts t)" by (intro member_le_sum_list) simp_all
    then show "x < 10 ^ 10" using d(2) by (simp add: totals_ok_def)
  qed
  have "slot (put_ts p t' s) (int i) = Inr (Some p)"
    using slot_entry [of s "int i"] c t(2) p(1) by (simp add: calm_def module_ok_def slot_def put_ts_def)
  moreover have "shows_status (put_ts p t' s) (int i) (key t') (owner_euid t') (counts t)"
    using d(1) same by (simp add: device_shows_def shows_status_def get_content_def put_ts_def)
  moreover have "driver_wf (put_ts p t' s)" "\<not> dev_held (put_ts p t' s) (int i)"
    using P(1) by (simp_all add: calm_def)
  ultimately have "\<exists>s'. update_chrdev e (int i) (int (nat lev)) (put_ts p t' s) = Inr (0, s') \<and> driver_wf s' \<and>
      shows_status s' (int i) (key t') (owner_euid t') ((counts t)[nat lev := unat (thread_waiting (level t' ! nat lev))])"
    using p(1,4) same n le t'(2) all d(1) u
    by (intro update_chrdev_shows [where a = p])
      (simp_all add: put_ts_def totals_ok_def device_shows_def zeroed_def)
  then obtain s' where s': "update_chrdev e (int i) lev (put_ts p t' s) = Inr (0, s')" "driver_wf s'"
    "shows_status s' (int i) (key t') (owner_euid t') (counts t')"
    using lev cs same(5) by auto
  note U = drv.update_client [OF s'(1)]
  have "calm s'" "service_at s' = service_at (put_ts p t' s)"
    using calm_core [of s' "put_ts p t' s"] U update_driver_wf [OF s'(1)] P(1) by simp_all
  then show ?thesis using s' P(2) d(1) same U by (auto simp: device_shows_def)
qed

lemma calm_heap:
  assumes "calm s" "service_at s i = Some t" "entry s i = Some p"
  shows "get_ts s p = Inr t" "length (level t) = 32" "ts_wf (int i) t" "i < 512"
proof -
  obtain p' where "i < 512" "entry s i = Some p'" "heap s p' = Some t" "ts_wf (int i) t" "length (level t) = 32"
    using calm_service [OF assms(1,2)] .
  then show "get_ts s p = Inr t" "length (level t) = 32" "ts_wf (int i) t" "i < 512"
    using assms(3) by (simp_all add: get_ts_def)
qed

lemma enter_counts:
  assumes c: "calm s" and t: "service_at s i = Some t" "entry s i = Some p" and u: "zeroed e"
    and lev: "0 \<le> lev" "lev < 32"
    and d: "device_shows s i t" "totals_ok t" "sum_list (counts t) + 1 < 10 ^ 9"
  obtains s' t' where "tag_receive_enter e (int i) lev p s = Inr s'" "count_in lev t = Inr t'" "calm s'"
    "service_at s' = (service_at s)(i \<mapsto> t')" "device_shows s' i t'" "totals_ok t'"
    "counts t' = (counts t)[nat lev := counts t ! nat lev + 1]" "core s' = core (put_ts p t' s)"
    "0 < thread_waiting_message_count t'"
proof -
  note h = calm_heap [OF c t]
  obtain t' where t': "count_in lev t = Inr t'"
    "t' = put_level lev ((level t ! nat lev)\<lparr>thread_waiting := atomic_inc (thread_waiting (level t ! nat lev))\<rparr>)
      (t\<lparr>thread_waiting_message_count := atomic_inc (thread_waiting_message_count t)\<rparr>)"
    using count_in_ok [OF h(2) lev] by blast
  note T = count_in_totals [OF h(2) lev d(2,3) t'(1)]
  obtain s' where "update_chrdev e (int i) lev (put_ts p t' s) = Inr (0, s')" "calm s'"
    "service_at s' = (service_at s)(i \<mapsto> t')" "device_shows s' i t'" "core s' = core (put_ts p t' s)"
    using recount [OF c t u lev d(1,2) t'(2)] T by blast
  then show thesis using that t'(1) T h(1) by (simp add: tag_receive_enter_eq)
qed

lemma calm_module_put: "calm (module_put s) = calm s"
  by (simp add: calm_def ledger_ok_def)

lemma leave_counts:
  assumes c: "calm s" and t: "service_at s i = Some t" "entry s i = Some p" and u: "zeroed e"
    and lev: "0 \<le> lev" "lev < 32"
    and d: "device_shows s i t" "totals_ok t" "0 < counts t ! nat lev"
  obtains s' t' where "tag_receive_leave e (int i) lev p s = Inr s'" "count_out lev t = Inr t'" "calm s'"
    "service_at s' = (service_at s)(i \<mapsto> t')" "device_shows s' i t'" "totals_ok t'"
    "counts t' = (counts t)[nat lev := counts t ! nat lev - 1]" "core s' = core (module_put (put_ts p t' s))"
proof -
  note h = calm_heap [OF c t]
  obtain t' where t': "count_out lev t = Inr t'"
    "t' = put_level lev ((level t ! nat lev)\<lparr>thread_waiting := atomic_dec (thread_waiting (level t ! nat lev))\<rparr>)
      (t\<lparr>thread_waiting_message_count := atomic_dec (thread_waiting_message_count t)\<rparr>)"
    using count_out_ok [OF h(2) lev] by blast
  note T = count_out_totals [OF h(2) lev d(2,3) t'(1)]
  obtain s' where s': "update_chrdev e (int i) lev (put_ts p t' s) = Inr (0, s')" "calm s'"
    "service_at s' = (service_at s)(i \<mapsto> t')" "device_shows s' i t'" "core s' = core (put_ts p t' s)"
    using recount [OF c t u lev d(1,2) t'(2)] T by blast
  have "core (module_put s') = module_put (core s')" "core (module_put (put_ts p t' s)) = module_put (core (put_ts p t' s))"
    by (simp_all add: core_def module_put_def)
  then show thesis using that [of "module_put s'" t'] s' t'(1) T h(1) calm_module_put
    by (simp add: tag_receive_leave_eq device_shows_def shows_status_def get_content_def)
qed

text \<open>
  Entering a level: the count of the level and the total of the service go up by one, the device
  shows it, and nothing else changes.
\<close>

theorem tag_receive_enter_counts:
  assumes "calm s" "service_at s i = Some t" "entry s i = Some p" "zeroed e"
    "0 \<le> lev" "lev < MAX_LEVELS" "device_shows s i t" "totals_ok t" "sum_list (counts t) + 1 < 10 ^ 9"
  shows "\<exists>s' t'. tag_receive_enter e (int i) lev p s = Inr s' \<and> count_in lev t = Inr t' \<and> calm s'
    \<and> service_at s' = (service_at s)(i \<mapsto> t') \<and> device_shows s' i t' \<and> totals_ok t'
    \<and> counts t' = (counts t)[nat lev := counts t ! nat lev + 1] \<and> core s' = core (put_ts p t' s)"
proof -
  have "lev < 32" using assms(6) by simp
  from enter_counts [OF assms(1-5) this assms(7-9)] show ?thesis by blast
qed

text \<open>
  Leaving a level takes both counts back by one and shows it in the device, and the reference to the
  module is given back.
\<close>

theorem tag_receive_leave_counts:
  assumes "calm s" "service_at s i = Some t" "entry s i = Some p" "zeroed e"
    "0 \<le> lev" "lev < MAX_LEVELS" "device_shows s i t" "totals_ok t" "0 < counts t ! nat lev"
  shows "\<exists>s' t'. tag_receive_leave e (int i) lev p s = Inr s' \<and> calm s'
    \<and> service_at s' = (service_at s)(i \<mapsto> t') \<and> device_shows s' i t' \<and> totals_ok t'
    \<and> counts t' = (counts t)[nat lev := counts t ! nat lev - 1]
    \<and> core s' = core (module_put (put_ts p t' s))"
proof -
  have "lev < 32" using assms(6) by simp
  from leave_counts [OF assms(1-5) this assms(7-9)] show ?thesis by blast
qed

section \<open>The whole call\<close>

lemma count_out_in:
  assumes "length (level t) = 32" "0 \<le> lev" "lev < 32" "count_in lev t = Inr t'"
  shows "count_out lev t' = Inr t"
proof -
  have n: "nat lev < length (level t)" using assms by auto
  have t': "t' = put_level lev ((level t ! nat lev)
      \<lparr>thread_waiting := atomic_inc (thread_waiting (level t ! nat lev))\<rparr>)
      (t\<lparr>thread_waiting_message_count := atomic_inc (thread_waiting_message_count t)\<rparr>)"
    using count_in_ok [OF assms(1-3)] assms(4) by simp
  have "length (level t') = 32" using assms(1) by (simp add: t' put_level_def)
  from count_out_ok [OF this assms(2,3)] show ?thesis
    using n by (simp add: t' put_level_def atomic_dec_inc)
qed

lemma count_in_same:
  assumes "length (level t) = 32" "0 \<le> lev" "lev < 32" "count_in lev t = Inr t'"
  shows "tag_receive_read sig lev u size' t' = tag_receive_read sig lev u size' t"
    "wait_condition lev t' = wait_condition lev t"
  using assms count_in_ok [OF assms(1-3)]
  by (auto simp: tag_receive_read_def wait_condition_def get_level_def put_level_def in_range_def Let_def)

text \<open>A thread that is in no RCU section, and that no callback waits for.\<close>

definition outside_rcu :: "nat \<Rightarrow> kstate \<Rightarrow> bool" where
  "outside_rcu th s \<longleftrightarrow> th \<notin> rcu_readers s \<and> (\<forall>(c, rs) \<in> set (rcu_queue s). th \<notin> rs)"

lemma rcu_section_id: "outside_rcu th s \<Longrightarrow> rcu_read_unlock th (rcu_read_lock th s) = s"
proof -
  assume o: "outside_rcu th s"
  then have "map (\<lambda>(c, rs). (c, rs - {th})) (rcu_queue s) = rcu_queue s"
    by (intro map_idI) (auto simp: outside_rcu_def)
  moreover have "insert th (rcu_readers s) - {th} = rcu_readers s" using o by (auto simp: outside_rcu_def)
  ultimately show ?thesis by (simp add: rcu_read_unlock_def rcu_read_lock_def)
qed

text \<open>The checks that a receiver passes.\<close>

lemma tag_receive_check_ok:
  assumes "calm s" "service_at s i = Some t" "entry s i = Some p" "0 \<le> lev" "lev < 32"
    "lazy_deleted t \<noteq> YES" "may_use e t"
  shows "tag_receive_check e (int i) lev (Some b) s = Inr (Inr p, module_get s)"
proof -
  note h = calm_heap [OF assms(1-3)]
  have "slot s (int i) = Inr (Some p)"
    using slot_entry [of s "int i"] assms(1,3) h(4) by (simp add: calm_def module_ok_def)
  then show ?thesis using h assms(4-7) by (auto simp: tag_receive_check_def may_use_def Let_def)
qed

lemma tag_receive_runs:
  assumes c: "calm s" and t: "service_at s i = Some t" "entry s i = Some p" and u: "zeroed e"
    and lev: "0 \<le> lev" "lev < 32" and a: "lazy_deleted t \<noteq> YES" "may_use e t"
    and d: "device_shows s i t" "totals_ok t" "sum_list (counts t) + 1 < 10 ^ 9"
    and o: "outside_rcu th s" and w: "wait_condition lev t = Inr wc" "wc \<or> sig"
    and r: "tag_receive_read sig lev (Some b) size' t = Inr res"
  shows "\<exists>s'. tag_receive e th sig (int i) lev (Some b) size' s = Inr (res, s')
    \<and> core s' = core s \<and> calm s' \<and> device_shows s' i t"
proof -
  let ?s0 = "module_get s"
  have c0: "calm ?s0" "device_shows ?s0 i t"
    using c d(1) by (simp_all add: calm_def ledger_ok_def device_shows_def shows_status_def get_content_def)
  have t0: "service_at ?s0 i = Some t" "entry ?s0 i = Some p" using t by simp_all
  obtain s1 t' where e: "tag_receive_enter e (int i) lev p ?s0 = Inr s1" "count_in lev t = Inr t'" "calm s1"
    "service_at s1 = (service_at ?s0)(i \<mapsto> t')" "device_shows s1 i t'" "totals_ok t'"
    "counts t' = (counts t)[nat lev := counts t ! nat lev + 1]" "core s1 = core (put_ts p t' ?s0)"
    "0 < thread_waiting_message_count t'"
    by (rule enter_counts [OF c0(1) t0 u lev c0(2) d(2,3)])
  note h = calm_heap [OF c t]
  note S = count_in_same [OF h(2) lev e(2)]
  have en1: "entry s1 i = Some p" using t(2) entry_core [OF e(8)] by (simp add: put_ts_def)
  have at1: "service_at s1 i = Some t'" using e(4) by simp
  have g1: "get_ts s1 p = Inr t'" using calm_heap(1) [OF e(3) at1 en1] .
  have o1: "outside_rcu th s1" using o core_eqD(5,6) [OF e(8)] by (simp add: outside_rcu_def put_ts_def)
  have "nat lev < length (counts t)" using h(2) lev by simp
  then have pos: "0 < counts t' ! nat lev" by (simp add: e(7))
  obtain s2 t2 where l: "tag_receive_leave e (int i) lev p s1 = Inr s2" "count_out lev t' = Inr t2" "calm s2"
    "service_at s2 = (service_at s1)(i \<mapsto> t2)" "device_shows s2 i t2" "totals_ok t2"
    "counts t2 = (counts t')[nat lev := counts t' ! nat lev - 1]"
    "core s2 = core (module_put (put_ts p t2 s1))"
    by (rule leave_counts [OF e(3) at1 en1 u lev e(5,6) pos])
  have t2: "t2 = t" using count_out_in [OF h(2) lev e(2)] l(2) by simp
  have "tag_receive e th sig (int i) lev (Some b) size' s = Inr (res, s2)"
    using tag_receive_check_ok [OF c t lev a] e(1) g1 S w r l(1) rcu_section_id [OF o1]
    by (auto simp: tag_receive_def)
  moreover have "core s2 = core s"
  proof -
    have "heap s p = Some t" using h(1) by (simp add: get_ts_def split: option.splits)
    then have hp: "(heap s)(p \<mapsto> t) = heap s" by auto
    have "core (module_put (put_ts p t s1)) = module_put (put_ts p t (core s1))"
      by (simp add: core_def module_put_def put_ts_def)
    also have "\<dots> = module_put (put_ts p t (core (put_ts p t' ?s0)))" by (simp only: e(8))
    also have "\<dots> = core s"
      using hp by (simp add: core_def module_put_def module_get_def put_ts_def)
    finally show ?thesis using l(8) t2 by simp
  qed
  ultimately show ?thesis using l(3,5) t2 by blast
qed

text \<open>Whatever uninitialised memory holds: if the call returns, it has done nothing but read.\<close>

lemma tag_receive_returns:
  assumes c: "calm s" and t: "service_at s i = Some t" "entry s i = Some p"
    and lev: "0 \<le> lev" "lev < 32" and a: "lazy_deleted t \<noteq> YES" "may_use e t"
    and o: "outside_rcu th s" and w: "wait_condition lev t = Inr wc"
    and r: "tag_receive_read sig lev (Some b) size' t = Inr r"
    and run: "tag_receive e th sig (int i) lev (Some b) size' s = Inr (res, s')"
  shows "res = r" "wc \<or> sig" "core s' = core s"
proof -
  let ?s0 = "module_get s"
  note h = calm_heap [OF c t]
  have g0: "get_ts ?s0 p = Inr t" using h(1) by (simp add: get_ts_def module_get_def)
  obtain t' where t': "count_in lev t = Inr t'" using count_in_ok [OF h(2) lev] by blast
  note S = count_in_same [OF h(2) lev t']
  obtain x s1 where u1: "update_chrdev e (int i) lev (put_ts p t' ?s0) = Inr (x, s1)"
    and run1: "and_then (get_ts s1 p) (\<lambda>t. and_then (wait_condition lev t) (\<lambda>c. if \<not> c \<and> \<not> sig then Inl Blocked
      else and_then (tag_receive_read sig lev (Some b) size' t) (\<lambda>res.
        and_then (tag_receive_leave e (int i) lev p (rcu_read_unlock th (rcu_read_lock th s1))) (\<lambda>s. Inr (res, s)))))
      = Inr (res, s')"
    using run g0 t' tag_receive_check_ok [OF c t lev a]
    by (auto simp: tag_receive_def tag_receive_enter_eq elim!: and_then_InrE)
  note e1 = core_eqD(2,5,6) [OF conjunct1 [OF drv.update_client [OF u1]]]
  have o1: "rcu_read_unlock th (rcu_read_lock th s1) = s1"
    using o e1(2,3) by (intro rcu_section_id) (simp add: outside_rcu_def put_ts_def)
  have g1: "get_ts s1 p = Inr t'" using e1(1) by (simp add: get_ts_def put_ts_def)
  have co: "count_out lev t' = Inr t" using count_out_in [OF h(2) lev t'] .
  show "wc \<or> sig" using run1 g1 w S(2) by (auto split: if_splits)
  obtain y s2 where u2: "update_chrdev e (int i) lev (put_ts p t s1) = Inr (y, s2)" and fin: "res = r" "s' = module_put s2"
    using run1 g1 w r S co o1
    by (auto simp: tag_receive_leave_eq elim!: and_then_InrE split: if_splits)
  show "res = r" by (rule fin)
  have hp: "(heap s)(p \<mapsto> t) = heap s" using h(1) by (auto simp: get_ts_def split: option.splits)
  have m: "core (module_put k) = module_put (core k)" "core (put_ts p t k) = put_ts p t (core k)" for k
    by (simp_all add: core_def module_put_def put_ts_def)
  have "core s2 = core (put_ts p t s1)" "core s1 = core (put_ts p t' ?s0)"
    using drv.update_client [OF u2] drv.update_client [OF u1] by simp_all
  then have "core s' = module_put (put_ts p t (core (put_ts p t' ?s0)))" unfolding fin m by (simp only:)
  also have "\<dots> = core s" using hp by (simp add: core_def module_put_def module_get_def put_ts_def)
  finally show "core s' = core s" .
qed

section \<open>What a receive returns\<close>



text \<open>
  C3 What is sent is what is received: after a send to waiting threads, every receiver of that level
  that looks into it gets the sent bytes, cut only to the size it asked for and to its buffer, and the
  receivers of the other levels of the service find nothing.
\<close>

theorem send_receive_roundtrip:
  assumes "settled s" "service_at s i = Some t" "may_use e t" "0 < thread_waiting_message_count t"
    "0 \<le> lev" "lev < MAX_LEVELS" "sendable e u size'"
  shows "\<exists>s1 t1. tag_send e (int i) lev u size' s = Inr (send_code size', s1) \<and> service_at s1 i = Some t1
    \<and> (\<forall>b n. tag_receive_read False lev (Some b) n t1 =
         Inr (0, take (min (receive_size n) (length b)) (sent_bytes u size')))
    \<and> (\<forall>k. wait_condition k t1 = (if 0 \<le> k \<and> k < MAX_LEVELS then Inr (k = lev) else Inl OutOfBounds))"
proof -
  have q: "quiet s" "lazy_deleted t \<noteq> YES" "awake_request t = NO" "\<forall>l \<in> set (level t). idle_level l"
    using assms(1,2) by (auto simp: settled_def)
  have t: "length (level t) = 32" "i < 512" using service_at_SomeE [OF q(1) assms(2)] by auto
  have f: "module_put (call_rcu c (put_ts p t' (locked i (module_get s))))
      = call_rcu c (put_ts p t' (locked i s))" for c p t' i
    by (simp add: put_ts_def module_put_def module_get_def locked_def call_rcu_def)
  from send_reaches_level [OF q(1) assms(2) q(2) assms(3,5,6,7)] show ?thesis
  proof cases
    case (1 p m l)
    let ?n = "length (sent_bytes u size')"
    let ?t1 = "put_level lev l t"
    let ?s1 = "call_rcu (FreeAfterSend p lev) (put_ts p ?t1 (locked (int i) s))"
    have n: "nat lev < 32" using assms(5,6) by auto
    have gl: "get_level ?t1 k = (if 0 \<le> k \<and> k < 32 then Inr (if k = lev then l else level t ! nat k) else Inl OutOfBounds)" for k
      using t(1) n assms(5) by (auto simp: get_level_def put_level_def in_range_def arr_get_def nth_list_update)
    have sz: "unat (lev_size l) = ?n" using 1(6) by (simp add: 1(7) unat_of_nat take_bit_nat_eq_self_iff)
    have idle: "message_ready (level t ! nat k) = NOT_READY" if "0 \<le> k" "k < 32" for k
      using q(4) t(1) that by (simp add: idle_level_def nat_less_iff)
    have "tag_send e (int i) lev u size' s = Inr (send_code size', ?s1)" using 1(8) assms(4) f by simp
    moreover have "service_at ?s1 i = Some ?t1"
      using 1(1) t(2) by (simp add: service_at_def call_rcu_def put_ts_def locked_def entry_def)
    moreover have "tag_receive_read False lev (Some b) k ?t1 =
         Inr (0, take (min (receive_size k) (length b)) (sent_bytes u size'))" for b k
    proof -
      let ?r = "if ?n < receive_size k then ?n else receive_size k"
      have "?r \<le> ?n" by simp
      then have "take (min ?r (length b)) m = take (min ?r (length b)) (take (?n + 1) m)" by (simp add: min_def)
      also have "\<dots> = take (min (receive_size k) (length b)) (sent_bytes u size')"
        unfolding 1(5) by (simp add: min_def)
      finally have "take (min ?r (length b)) m = take (min (receive_size k) (length b)) (sent_bytes u size')" .
      moreover have "tag_receive_read False lev (Some b) k ?t1
          = and_then (copy_to_user (Some b) (message l) (if unat (lev_size l) < receive_size k
              then unat (lev_size l) else receive_size k)) (\<lambda>bs. Inr (0, bs))"
        using gl [of lev] assms(5,6) by (simp add: tag_receive_read_def Let_def) (simp add: 1(7))
      moreover have "message l = m" by (simp add: 1(7))
      ultimately show ?thesis
        using \<open>?r \<le> ?n\<close> 1(3,6) unfolding sz by (simp add: copy_to_user_def)
    qed
    moreover have "wait_condition k ?t1 = (if 0 \<le> k \<and> k < MAX_LEVELS then Inr (k = lev) else Inl OutOfBounds)" for k
      using gl [of k] idle [of k] q(3) by (auto simp: wait_condition_def 1(7) put_level_def)
    ultimately show ?thesis by blast
  qed
qed

text \<open>
  The refusals of \<open>tag_receive\<close>, in the order of its checks; the state is as before in every case.
  Here the tag 512 is out of range.
\<close>

theorem tag_receive_refuses:
  assumes "calm s"
  shows "(i < 0 \<or> 511 < i \<or> lev < 0 \<or> MAX_LEVELS \<le> lev \<longrightarrow>
      tag_receive e th sig i lev u size' s = Inr ((- EINVAL, []), s))
    \<and> (0 \<le> i \<and> i \<le> 511 \<and> 0 \<le> lev \<and> lev < MAX_LEVELS \<longrightarrow>
        (service_at s (nat i) = None \<longrightarrow> tag_receive e th sig i lev u size' s = Inr ((- EBADF, []), s))
      \<and> (\<forall>t. service_at s (nat i) = Some t \<longrightarrow>
          (lazy_deleted t = YES \<longrightarrow> tag_receive e th sig i lev u size' s = Inr ((- EBADF, []), s))
        \<and> (lazy_deleted t \<noteq> YES \<and> (\<not> may_use e t \<or> u = None) \<longrightarrow>
            tag_receive e th sig i lev u size' s = Inr ((- EACCES, []), s))))"
proof -
  have wf: "table_wf s" "entries_ok s" using assms by (simp_all add: calm_def module_ok_def)
  have none: "tag_receive e th sig i lev u size' s = Inr ((- EBADF, []), s)"
    if "0 \<le> i" "i \<le> 511" "0 \<le> lev" "lev < 32" "service_at s (nat i) = None"
  proof -
    have "slot s i = Inr None"
      using slot_entry [OF wf(1), of i] service_at_None [OF wf(2), of "nat i"] that by (simp add: nat_less_iff)
    then show ?thesis using that by (simp add: tag_receive_def tag_receive_check_def Let_def module_put_get)
  qed
  have some: "tag_receive e th sig i lev u size' s =
      (if lazy_deleted t = YES then Inr ((- EBADF, []), s) else Inr ((- EACCES, []), s))"
    if a: "0 \<le> i" "0 \<le> lev" "lev < 32" "service_at s (nat i) = Some t"
      "lazy_deleted t = YES \<or> \<not> may_use e t \<or> u = None" for t
  proof -
    obtain p where "nat i < 512" "entry s (nat i) = Some p" "heap s p = Some t" "slot s (int (nat i)) = Inr (Some p)"
      "ts_wf (int (nat i)) t" "length (level t) = 32" using calm_service [OF assms a(4)] .
    moreover have "get_ts s p = Inr t" using calculation(3) by (simp add: get_ts_def)
    ultimately show ?thesis using a
      by (auto simp: tag_receive_def tag_receive_check_def Let_def module_put_get may_use_def)
  qed
  have range: "tag_receive e th sig i lev u size' s = Inr ((- EINVAL, []), s)"
    if "i < 0 \<or> 511 < i \<or> lev < 0 \<or> 32 \<le> lev"
    using that by (auto simp: tag_receive_def tag_receive_check_def Let_def module_put_get)
  show ?thesis using none some range by auto
qed

section \<open>On a module with one service\<close>

lemma one_service_calm: "calm (one_service w)"
  using one_service_quiet by (simp add: quiet_calm)

lemma demo_counts: "counts (demo_service w) = (replicate 32 0)[3 := unat w]"
  by (simp add: counts_def demo_service_def demo_level_def map_update)

lemma demo_counts0: "counts (demo_service 0) = replicate 32 0" "sum_list (replicate 32 (0::nat)) = 0"
  by (simp_all add: demo_counts list_update_same_conv sum_list_replicate)

lemma demo_totals: "totals_ok (demo_service 0)" "device_shows (one_service 0) 5 (demo_service 0)"
  using one_service_shows [of 0]
  by (simp_all add: totals_ok_def device_shows_def demo_counts0 is_int_def)
    (simp_all add: demo_service_def)

theorem tag_receive_enter_counts_witness:
  "\<exists>s' t'. tag_receive_enter (plain_env 1000) 5 3 0 (one_service 0) = Inr s' \<and> device_shows s' 5 t'
    \<and> counts t' = (replicate 32 0)[3 := 1]"
proof -
  have "0 \<le> (3::int)" "(3::int) < MAX_LEVELS" by simp_all
  from tag_receive_enter_counts [OF one_service_calm _ _ plain_env_zeroed this, of 0 5 "demo_service 0" 0 1000]
    demo_totals
  show ?thesis by (auto simp: one_service_at one_service_entry demo_counts0)
qed

theorem tag_receive_leave_counts_witness:
  "\<exists>s s'. tag_receive_enter (plain_env 1000) 5 3 0 (one_service 0) = Inr s
    \<and> tag_receive_leave (plain_env 1000) 5 3 0 s = Inr s'"
proof -
  have lev: "0 \<le> (3::int)" "(3::int) < 32" "(3::int) < MAX_LEVELS" by simp_all
  have at: "service_at (one_service 0) 5 = Some (demo_service 0)" "entry (one_service 0) 5 = Some 0"
    by (simp_all add: one_service_at one_service_entry)
  have b: "sum_list (counts (demo_service 0)) + 1 < 10 ^ 9" by (simp add: demo_counts0)
  obtain s t where s: "tag_receive_enter (plain_env 1000) (int 5) 3 0 (one_service 0) = Inr s"
    "count_in 3 (demo_service 0) = Inr t" "calm s" "service_at s = (service_at (one_service 0))(5 \<mapsto> t)"
    "device_shows s 5 t" "totals_ok t" "counts t = (counts (demo_service 0))[nat 3 := counts (demo_service 0) ! nat 3 + 1]"
    "core s = core (put_ts 0 t (one_service 0))" "0 < thread_waiting_message_count t"
    by (rule enter_counts [OF one_service_calm at plain_env_zeroed lev(1,2) demo_totals(2,1) b])
  have "entry s 5 = Some 0" using entry_core [OF s(8)] at(2) by (simp add: put_ts_def)
  moreover have "service_at s 5 = Some t" "0 < counts t ! nat 3" using s(4,7) by (simp_all add: demo_counts0)
  ultimately show ?thesis
    using tag_receive_leave_counts [OF s(3) _ _ plain_env_zeroed lev(1,3) s(5,6)] s(1) by auto
qed



theorem send_receive_roundtrip_witness:
  "\<exists>s1 t1. tag_send (plain_env 1000) 5 3 (Some (''ciao'' @ [NUL])) 5 (one_service 1) = Inr (0, s1)
    \<and> service_at s1 5 = Some t1
    \<and> tag_receive_read False 3 (Some (replicate 64 NUL)) 64 t1 = Inr (0, ''ciao'' @ [NUL])"
proof -
  have lev: "0 \<le> (3::int)" "(3::int) < MAX_LEVELS" by simp_all
  have b: "sent_bytes (Some (''ciao'' @ [NUL])) 5 = ''ciao'' @ [NUL]"
    using c_str_append [of "''ciao''" "[]"] by (simp add: sent_bytes_def)
  from send_receive_roundtrip [OF one_service_settled _ demo_facts(3) [of 1] _ lev sendable_ciao, of 1 5]
  obtain s1 t1 where r: "tag_send (plain_env 1000) 5 3 (Some (''ciao'' @ [NUL])) 5 (one_service 1) = Inr (0, s1)"
    "service_at s1 5 = Some t1"
    "tag_receive_read False 3 (Some (replicate 64 NUL)) 64 t1 =
      Inr (0, take (min (receive_size 64) 64) (sent_bytes (Some (''ciao'' @ [NUL])) 5))"
    by (auto simp: one_service_at demo_facts send_code_def)
  have "take (min (receive_size 64) 64) (sent_bytes (Some (''ciao'' @ [NUL])) 5) = ''ciao'' @ [NUL]"
    unfolding b by (simp add: receive_size_def)
  with r show ?thesis by metis
qed

theorem tag_receive_refuses_witness:
  "tag_receive (plain_env 7) 1 False 5 3 (Some []) 64 (one_service 0) = Inr ((- EACCES, []), one_service 0)"
  using tag_receive_refuses [OF one_service_calm [of 0], of 5 3 "plain_env 7" 1 False "Some []" 64]
    demo_facts(2,4) [of 0] by (simp add: one_service_at)

end
