(* ===== verification/Tag_Ctl.thy ===== *)
theory Tag_Ctl
  imports Tag_Receive
begin

text \<open>
  The system call \<open>tag_ctl\<close>: the removal of a tag service, in the pieces that other threads can come
  between, and \<open>AWAKE_ALL\<close> with its RCU callback \<open>reset_awake_condition\<close>.
\<close>

section \<open>The system call\<close>

definition reset_awake_condition :: "nat \<Rightarrow> kstate \<Rightarrow> kstate outcome" where
  "reset_awake_condition p s =
     and_then (get_ts s p) (\<lambda>t.
       mutex_unlock (tag t) (put_ts p (t\<lparr>awake_request := NO\<rparr>) s))"

definition tag_ctl_enter :: "int \<Rightarrow> int \<Rightarrow> kstate \<Rightarrow> ((int + nat) \<times> kstate) outcome" where
  "tag_ctl_enter i command s =
     (let s = module_get s in
      if (i < 0 \<or> i > MAX_TAG_SERVICES) \<or> (command \<noteq> REMOVE_TAG \<and> command \<noteq> AWAKE_ALL) then
        Inr (Inl (- EINVAL), module_put s)
      else
        and_then (slot s i) (\<lambda>p. case p of
            None \<Rightarrow> Inr (Inl (- EBADF), module_put s)
          | Some p \<Rightarrow> Inr (Inr p, s)))"

text \<open>
  The critical section: \<open>Some r\<close> is a return with code \<open>r\<close>, \<open>None\<close> goes on with the removal, after the
  lock has been released.
\<close>

definition tag_ctl_remove :: "nat \<Rightarrow> tag_service \<Rightarrow> kstate \<Rightarrow> (int option \<times> kstate) outcome" where
  "tag_ctl_remove p t s =
     (if thread_waiting_message_count t > 0 then
        and_then (mutex_unlock (tag t) s) (\<lambda>s. Inr (Some (- EBUSY), module_put s))
      else
        and_then (mutex_unlock (tag t) (put_ts p (t\<lparr>lazy_deleted := YES\<rparr>) s)) (\<lambda>s. Inr (None, s)))"

definition tag_ctl_awake :: "nat \<Rightarrow> tag_service \<Rightarrow> kstate \<Rightarrow> (int option \<times> kstate) outcome" where
  "tag_ctl_awake p t s =
     (let t = t\<lparr>awake_request := YES\<rparr>; s = put_ts p t s in
      if thread_waiting_message_count t > 0 then
        Inr (Some SUCCESS, module_put (call_rcu (ResetAwake p) s))
      else
        and_then (mutex_unlock (tag t) (put_ts p (t\<lparr>awake_request := NO\<rparr>) s))
          (\<lambda>s. Inr (Some SUCCESS, module_put s)))"

definition tag_ctl_locked :: "kenv \<Rightarrow> int \<Rightarrow> nat \<Rightarrow> kstate \<Rightarrow> (int option \<times> kstate) outcome" where
  "tag_ctl_locked e command p s =
     and_then (get_ts s p) (\<lambda>t.
     and_then (mutex_lock (tag t) s) (\<lambda>s.
     if lazy_deleted t = YES then
       and_then (mutex_unlock (tag t) s) (\<lambda>s. Inr (Some SUCCESS, module_put s))
     else if permission t = ONLY_OWNER \<and> owner_euid t \<noteq> euid e then
       and_then (mutex_unlock (tag t) s) (\<lambda>s. Inr (Some (- EACCES), module_put s))
     else if command = REMOVE_TAG then tag_ctl_remove p t s
     else if command = AWAKE_ALL then tag_ctl_awake p t s
     else Inr (Some (- ENOSYS), module_put s)))"

text \<open>The rest of a removal: the device, then the entry and the struct.\<close>

definition inc_remaining :: "kstate \<Rightarrow> kstate" where
  "inc_remaining s = s\<lparr>tsm := (tsm s)\<lparr>remaining_entries := atomic_inc (remaining_entries (tsm s))\<rparr>\<rparr>"

definition tag_ctl_destroy :: "nat \<Rightarrow> kstate \<Rightarrow> kstate outcome" where
  "tag_ctl_destroy p s = and_then (get_ts s p) (\<lambda>t. ts_destroy_char_device_file (tag t) s)"

definition tag_ctl_unlink :: "int \<Rightarrow> nat \<Rightarrow> kstate \<Rightarrow> (int \<times> kstate) outcome" where
  "tag_ctl_unlink i p s =
     and_then (set_slot i None s) (\<lambda>s.
     and_then (find_first_entry_available s) (\<lambda>(_, s).
       Inr (SUCCESS, module_put (free_ts p (inc_remaining s)))))"

definition tag_ctl_finish :: "int \<Rightarrow> nat \<Rightarrow> kstate \<Rightarrow> (int \<times> kstate) outcome" where
  "tag_ctl_finish i p s = and_then (tag_ctl_destroy p s) (\<lambda>s. tag_ctl_unlink i p s)"

definition tag_ctl :: "kenv \<Rightarrow> int \<Rightarrow> int \<Rightarrow> kstate \<Rightarrow> (int \<times> kstate) outcome" where
  "tag_ctl e i command s =
     and_then (tag_ctl_enter i command s) (\<lambda>(r, s).
     case r of
       Inl code \<Rightarrow> Inr (code, s)
     | Inr p \<Rightarrow>
         and_then (tag_ctl_locked e command p s) (\<lambda>(r, s).
         case r of
           Some code \<Rightarrow> Inr (code, s)
         | None \<Rightarrow> tag_ctl_finish i p s))"

section \<open>The entry table after a removal\<close>

lemma scan_entries_frame:
  assumes "table_wf s" "0 \<le> i" "i + int n \<le> 512"
  shows "scan_entries i n s = Inr s \<or>
    (\<exists>j<512. scan_entries i n s = Inr (set_first_free (int j) s))"
  using assms
proof (induction n arbitrary: i)
  case 0
  then show ?case by simp
next
  case (Suc n)
  have a: "is_entry_available i s = Inr (if entry s (nat i) = None then 1 else 0)"
    using Suc.prems by (intro is_entry_available_eq) auto
  show ?case
  proof (cases "entry s (nat i) = None")
    case True
    then have "scan_entries i (Suc n) s = Inr (set_first_free (int (nat i)) s)"
      using a Suc.prems by simp
    moreover have "nat i < 512" using Suc.prems by auto
    ultimately show ?thesis by blast
  next
    case False
    then obtain p where "entry s (nat i) = Some p" by auto
    then have "scan_entries i (Suc n) s = scan_entries (i + 1) n s" using a by simp
    with Suc.IH [of "i + 1"] Suc.prems show ?thesis by simp
  qed
qed

text \<open>The search returns and only moves the remembered entry, even while the counter lags behind.\<close>

lemma find_first_frame:
  assumes "table_wf s"
  obtains r s' where "find_first_entry_available s = Inr (r, s')"
    "s' = s \<or> (\<exists>j<512. s' = set_first_free (int j) s)"
proof -
  have f: "0 \<le> first_free_entry (tsm s)" "first_free_entry (tsm s) < 512"
    using assms by (simp_all add: table_wf_def)
  have a: "is_entry_available (first_free_entry (tsm s)) s =
      Inr (if entry s (nat (first_free_entry (tsm s))) = None then 1 else 0)"
    using assms f by (intro is_entry_available_eq) auto
  have "scan_entries 0 512 s = Inr s \<or> (\<exists>j<512. scan_entries 0 512 s = Inr (set_first_free (int j) s))"
    using scan_entries_frame [OF assms, of 0 512] by simp
  then have "\<exists>r s'. find_first_entry_available s = Inr (r, s') \<and>
      (s' = s \<or> (\<exists>j<512. s' = set_first_free (int j) s))"
    using a by (auto simp: find_first_entry_available_def)
  then show thesis using that by blast
qed

lemma quiet_module_ok: "quiet s \<Longrightarrow> module_ok s"
  by (simp add: quiet_def)

lemma module_ok_delete:
  assumes ok: "module_ok s" and e: "entry s i = Some p" "i < 512"
    and s': "tsm s' = (tsm s)\<lparr>all_tag_services := (all_tag_services (tsm s))[i := None],
        first_free_entry := f, remaining_entries := atomic_inc (remaining_entries (tsm s))\<rparr>"
      "0 \<le> f" "f < 512" "heap s' = (heap s)(p := None)" "next_addr s' = next_addr s"
  shows "module_ok s'" "free_entries s' = insert i (free_entries s)"
    "service_at s' = (service_at s)(i := None)"
proof -
  have wf: "table_wf s" "counter_ok s" "entries_ok s" using ok by (simp_all add: module_ok_def)
  have len: "length (all_tag_services (tsm s)) = 4096" using wf(1) by (simp add: table_wf_def)
  have en: "entry s' = (entry s)(i := None)"
    using s'(1) e(2) len by (auto simp: entry_def fun_eq_iff)
  show fr: "free_entries s' = insert i (free_entries s)"
    using e(2) by (auto simp: free_entries_def en)
  have "i \<notin> free_entries s" using e by (simp add: free_entries_def)
  then have "card (free_entries s') = card (free_entries s) + 1" by (simp add: fr)
  moreover have "unat (remaining_entries (tsm s)) = card (free_entries s)" using wf(2) by (simp add: counter_ok_def)
  ultimately have c: "counter_ok s'"
    using card_free_le [of s] unfolding counter_ok_def s'(1) by (simp add: unat_atomic_inc)
  have own: "j = i" if "entry s j = Some p" "j < 512" for j
    using entries_distinct [OF wf(3) that(1) e(1) that(2) e(2)] .
  have "entries_ok s'"
    unfolding entries_ok_def en s'(4,5)
  proof (intro conjI allI impI)
    fix j q assume j: "j < 512" "((entry s)(i := None)) j = Some q"
    then have "entry s j = Some q" "q \<noteq> p" using own [of j] by (auto split: if_splits)
    then show "\<exists>t. ((heap s)(p := None)) q = Some t \<and> ts_wf (int j) t"
      using wf(3) j(1) unfolding entries_ok_def by auto
  next
    fix q assume "((heap s)(p := None)) q \<noteq> None"
    then show "q < next_addr s" using wf(3) by (auto simp: entries_ok_def split: if_splits)
  qed
  moreover have "table_wf s'"
    using wf(1) e(2) s'(2,3) unfolding table_wf_def en by (simp add: s'(1))
  ultimately show "module_ok s'" using c by (simp add: module_ok_def)
  show "service_at s' = (service_at s)(i := None)"
  proof (rule ext)
    fix j
    show "service_at s' j = ((service_at s)(i := None)) j"
    proof (cases "j = i")
      case False
      then have "j < 512 \<Longrightarrow> entry s j \<noteq> Some p" using own by blast
      then show ?thesis using False unfolding service_at_def en s'(4)
        by (cases "entry s j") simp_all
    qed (simp add: service_at_def en)
  qed
qed

lemma destroy_device_ok:
  assumes wf: "driver_wf s" and i: "i < 512" and free: "\<not> dev_held s (int i)"
    and c: "get_content s (int i) = Inr b"
  obtains s' where "ts_destroy_char_device_file (int i) s = Inr s'" "core s' = core s" "driver_wf s'"
    "dev_held s' = dev_held s" "\<not> cdev_added (dm s') ! i" "get_content s' (int i) = Inl UseAfterFree"
proof -
  let ?s1 = "s\<lparr>dm := (dm s)\<lparr>device_lock := (device_lock (dm s))[i := True]\<rparr>\<rparr>"
  let ?s2 = "set_content (int i) Dangling (set_cdev (int i) False ?s1)"
  let ?s3 = "?s2\<lparr>dm := (dm ?s2)\<lparr>device_lock := (device_lock (dm ?s2))[i := False]\<rparr>\<rparr>"
  have l: "dev_lock (int i) s = Inr ?s1" using dev_lock_ok [OF wf, of "int i"] free i by simp
  have rng: "in_range (device_lock (dm ?s2)) (int i)"
    using wf i by (simp add: driver_wf_def in_range_def set_content_def set_cdev_def)
  have g: "get_content (set_cdev (int i) False ?s1) (int i) = Inr b"
    using c by (simp add: get_content_def set_cdev_def)
  have cls: "ts_class (dm s) = ClassOk" using wf by (simp add: driver_wf_def)
  have d: "ts_destroy_char_device_file (int i) s = Inr ?s3"
    unfolding ts_destroy_char_device_file_def l and_then_Inr Let_def
    using cls g dev_unlock_ok [OF rng] by simp
  moreover have "\<not> cdev_added (dm ?s3) ! i" "get_content ?s3 (int i) = Inl UseAfterFree"
    using wf i by (simp_all add: driver_wf_def set_content_def set_cdev_def get_content_def in_range_def)
  ultimately show thesis
    using that drv.destroy_client [OF d] destroy_driver_wf [OF d] wf by blast
qed

section \<open>What a removal achieves\<close>

lemma tag_ctl_enter_ok:
  assumes "quiet s" "service_at s i = Some t" "command = REMOVE_TAG \<or> command = AWAKE_ALL"
  shows "\<exists>p. entry s i = Some p \<and> heap s p = Some t \<and> i < 512 \<and> ts_wf (int i) t
    \<and> tag_ctl_enter (int i) command s = Inr (Inr p, module_get s)"
proof -
  obtain p where "i < 512" "entry s i = Some p" "heap s p = Some t" "slot s (int i) = Inr (Some p)"
    "ts_wf (int i) t" "length (level t) = 32" using service_at_SomeE [OF assms(1,2)] .
  then show ?thesis using assms(3) by (auto simp: tag_ctl_enter_def Let_def)
qed

text \<open>The section under the lock, up to the branch of the command.\<close>

lemma tag_ctl_locked_runs:
  assumes "quiet s" "heap s p = Some t" "i < 512" "tag t = int i"
  shows "tag_ctl_locked e command p s =
    (if lazy_deleted t = YES then Inr (Some SUCCESS, module_put s)
     else if \<not> may_use e t then Inr (Some (- EACCES), module_put s)
     else if command = REMOVE_TAG then tag_ctl_remove p t (locked (int i) s)
     else if command = AWAKE_ALL then tag_ctl_awake p t (locked (int i) s)
     else Inr (Some (- ENOSYS), module_put (locked (int i) s)))"
proof -
  note L = quiet_lock [OF assms(1,3)]
  have "get_ts s p = Inr t" using assms(2) by (simp add: get_ts_def)
  then show ?thesis using L assms(4) by (auto simp: tag_ctl_locked_def may_use_def)
qed

lemma unlink_quiet:
  assumes q: "quiet s" and p: "entry s i = Some p" "i < 512"
  obtains s' where "tag_ctl_unlink (int i) p s = Inr (SUCCESS, s')" "quiet s'"
    "service_at s' = (service_at s)(i := None)" "free_entries s' = insert i (free_entries s)"
    "heap s' p = None" "live s' = live s - {TsObj p}" "dm s' = dm s" "module_refs s' = module_refs s - 1"
    "rcu_queue s' = rcu_queue s"
proof -
  let ?a = "(all_tag_services (tsm s))[i := None]"
  let ?s1 = "s\<lparr>tsm := (tsm s)\<lparr>all_tag_services := ?a\<rparr>\<rparr>"
  have ok: "module_ok s" "table_wf s" using q by (simp_all add: quiet_def module_ok_def)
  have len: "length (all_tag_services (tsm s)) = 4096" using ok(2) by (simp add: table_wf_def)
  have set: "set_slot (int i) None s = Inr ?s1"
    using len p(2) by (simp add: set_slot_def in_range_def)
  have e1: "entry ?s1 = (entry s)(i := None)" using len p(2) by (auto simp: entry_def fun_eq_iff)
  have "table_wf ?s1" using ok(2) unfolding table_wf_def e1 by simp
  then obtain r s2 where f: "find_first_entry_available ?s1 = Inr (r, s2)"
    "s2 = ?s1 \<or> (\<exists>j<512. s2 = set_first_free (int j) ?s1)" by (rule find_first_frame)
  then obtain m where m: "0 \<le> m" "m < 512" "s2 = set_first_free m ?s1"
  proof -
    have "?s1 = set_first_free (first_free_entry (tsm s)) ?s1" by (simp add: set_first_free_def)
    moreover have "0 \<le> first_free_entry (tsm s)" "first_free_entry (tsm s) < 512"
      using ok(2) by (simp_all add: table_wf_def)
    ultimately show thesis using that f(2) by (metis of_nat_0_le_iff of_nat_less_numeral_iff)
  qed
  let ?s' = "module_put (free_ts p (inc_remaining s2))"
  have t: "tsm ?s' = (tsm s)\<lparr>all_tag_services := ?a, first_free_entry := m,
      remaining_entries := atomic_inc (remaining_entries (tsm s))\<rparr>"
    "heap ?s' = (heap s)(p := None)" "next_addr ?s' = next_addr s" "live ?s' = live s - {TsObj p}"
    "dm ?s' = dm s" "module_refs ?s' = module_refs s - 1" "rcu_queue ?s' = rcu_queue s"
    by (simp_all add: m(3) free_ts_def inc_remaining_def set_first_free_def)
  note D = module_ok_delete [OF ok(1) p t(1) m(1,2) t(2,3)]
  have fr: "driver_wf ?s' = driver_wf s" "dev_held ?s' = dev_held s" "held ?s' = held s"
    unfolding fun_eq_iff driver_wf_def dev_held_def held_def t(1,5) by simp_all
  have "quiet ?s'"
    using q D(1) unfolding quiet_def ledger_ok_def t(3,4) fr by blast
  moreover have "tag_ctl_unlink (int i) p s = Inr (SUCCESS, ?s')"
    using set f(1) by (simp add: tag_ctl_unlink_def)
  ultimately show thesis using that D(2,3) t by simp
qed

lemma quiet_put_ts:
  assumes "quiet s" "service_at s i = Some t" "entry s i = Some p" "ts_wf (int i) t'"
  shows "quiet (put_ts p t' s)" "service_at (put_ts p t' s) = (service_at s)(i \<mapsto> t')"
proof -
  have "calm s" using assms(1) by (simp add: quiet_calm)
  note P = calm_put_ts [OF this assms(2-4)]
  have "held (put_ts p t' s) = held s" by (simp add: put_ts_def)
  then show "quiet (put_ts p t' s)" using P(1) assms(1) by (simp add: quiet_calm)
  show "service_at (put_ts p t' s) = (service_at s)(i \<mapsto> t')" by (rule P(2))
qed

lemma tag_ctl_removes:
  assumes q: "quiet s" and t: "service_at s i = Some t" "may_use e t" "lazy_deleted t = NO"
    "thread_waiting_message_count t = 0" and d: "get_content s (int i) = Inr b"
  obtains p s' where "entry s i = Some p" "tag_ctl e (int i) REMOVE_TAG s = Inr (SUCCESS, s')" "quiet s'"
    "service_at s' = (service_at s)(i := None)" "free_entries s' = insert i (free_entries s)"
    "heap s' p = None" "live s' = live s - {TsObj p}" "module_refs s' = module_refs s"
    "\<not> cdev_added (dm s') ! i" "get_content s' (int i) = Inl UseAfterFree"
proof -
  let ?t = "t\<lparr>lazy_deleted := YES\<rparr>"
  let ?s0 = "module_get s"
  obtain p where p: "entry s i = Some p" "heap s p = Some t" "i < 512" "ts_wf (int i) t"
    "tag_ctl_enter (int i) REMOVE_TAG s = Inr (Inr p, ?s0)"
    using tag_ctl_enter_ok [OF q t(1), of REMOVE_TAG] by blast
  have q0: "quiet ?s0" using q by simp
  have tg: "tag t = int i" using p(4) by (simp add: ts_wf_def)
  let ?s1 = "put_ts p ?t ?s0"
  have wf': "ts_wf (int i) ?t" using p(4) by (simp add: ts_wf_def)
  have Q1: "quiet ?s1" "service_at ?s1 = (service_at s)(i \<mapsto> ?t)"
    using quiet_put_ts [OF q0 _ _ wf', of t p] t(1) p(1) by simp_all
  have "heap ?s0 p = Some t" using p(2) by simp
  note R = tag_ctl_locked_runs [OF q0 this p(3) tg, of e REMOVE_TAG]
  have l: "tag_ctl_locked e REMOVE_TAG p ?s0 = Inr (None, ?s1)"
    using R t(2-4) quiet_lock(3) [OF q0 p(3), of p ?t] tg by (simp add: tag_ctl_remove_def)
  have c1: "get_content ?s1 (int i) = Inr b" using d by (simp add: get_content_def put_ts_def)
  have "driver_wf ?s1" "\<not> dev_held ?s1 (int i)" using Q1(1) by (simp_all add: quiet_def)
  then obtain s2 where s2: "ts_destroy_char_device_file (int i) ?s1 = Inr s2" "core s2 = core ?s1"
    "driver_wf s2" "dev_held s2 = dev_held ?s1" "\<not> cdev_added (dm s2) ! i"
    "get_content s2 (int i) = Inl UseAfterFree"
    by (rule destroy_device_ok [OF _ p(3) _ c1])
  have Q2: "quiet s2" "service_at s2 = service_at ?s1"
    using quiet_core [OF s2(2)] s2(3,4) Q1(1) by (simp_all add: quiet_def)
  have e2: "entry s2 i = Some p" using entry_core [OF s2(2)] p(1) by (simp add: put_ts_def)
  obtain s' where s': "tag_ctl_unlink (int i) p s2 = Inr (SUCCESS, s')" "quiet s'"
    "service_at s' = (service_at s2)(i := None)" "free_entries s' = insert i (free_entries s2)"
    "heap s' p = None" "live s' = live s2 - {TsObj p}" "dm s' = dm s2" "module_refs s' = module_refs s2 - 1"
    "rcu_queue s' = rcu_queue s2"
    by (rule unlink_quiet [OF Q2(1) e2 p(3)])
  have "get_ts ?s1 p = Inr ?t" by (simp add: get_ts_def put_ts_def)
  then have "tag_ctl e (int i) REMOVE_TAG s = Inr (SUCCESS, s')"
    using p(5) l s2(1) s'(1) tg by (simp add: tag_ctl_def tag_ctl_finish_def tag_ctl_destroy_def)
  moreover have "service_at s' = (service_at s)(i := None)" using s'(3) Q2(2) Q1(2) by (simp add: fun_eq_iff)
  moreover have "free_entries s2 = free_entries s" "live s2 = live s" "module_refs s2 = module_refs s + 1"
    using core_eqD [OF s2(2)] free_entries_core [OF s2(2)] by (simp_all add: put_ts_def free_entries_def)
  moreover have "get_content s' (int i) = get_content s2 (int i)" by (simp add: get_content_def s'(7))
  ultimately show thesis using that [OF p(1)] s' s2(5,6) by simp
qed

text \<open>
  C10 \<open>tag_ctl(tag, REMOVE_TAG)\<close> by a caller with permission, on a service where nobody waits: it returns
  SUCCESS, exactly this entry is free again and counted, the device is gone and the struct is freed;
  the state is well formed and no lock or module reference is left.
\<close>

theorem tag_ctl_remove_works:
  assumes "quiet s" "service_at s i = Some t" "may_use e t" "lazy_deleted t = NO"
    "thread_waiting_message_count t = 0" "get_content s (int i) = Inr b"
  shows "\<exists>p s'. entry s i = Some p \<and> tag_ctl e (int i) REMOVE_TAG s = Inr (SUCCESS, s') \<and> quiet s'
    \<and> service_at s' = (service_at s)(i := None) \<and> free_entries s' = insert i (free_entries s)
    \<and> heap s' p = None \<and> module_refs s' = module_refs s \<and> \<not> cdev_added (dm s') ! i"
  using tag_ctl_removes [OF assms] by metis

text \<open>
  C25 Creating a service and removing it again gives the table back, but not the memory: \<open>kfree(ts)\<close>
  releases the struct alone, so the array of levels and the 32 message buffers of the service stay
  allocated after its last pointer is gone.
\<close>

theorem create_remove_leaks:
  assumes "quiet s" "usable e" "small_gap (junk e)" "perm = EVERYONE \<or> perm = ONLY_OWNER" "0 < k"
    "service_at s (nat (k mod MAX_TAG_SERVICES)) = None"
  shows "\<exists>p s1 s2. tag_get e k CREATE_TAG perm s = Inr (k mod MAX_TAG_SERVICES, s1)
    \<and> tag_ctl e (k mod MAX_TAG_SERVICES) REMOVE_TAG s1 = Inr (SUCCESS, s2)
    \<and> service_at s2 = service_at s \<and> free_entries s2 = free_entries s
    \<and> p = next_addr s \<and> heap s2 p = None
    \<and> live s2 = live s \<union> {LevelsObj p} \<union> MessageObj p ` {0..<32}"
proof -
  let ?i = "nat (k mod 512)"
  let ?p = "next_addr s"
  have i: "int ?i = k mod 512" "?i < 512" by (simp_all add: nat_less_iff)
  obtain s1 where s1: "tag_get e k CREATE_TAG perm s = Inr (k mod 512, s1)" "created e k perm ?i s s1"
    using tag_get_create_key [OF assms] by auto
  let ?t = "new_service e k (int ?i) perm (replicate 32 (new_level (int ?i)))"
  have c: "quiet s1" "service_at s1 ?i = Some ?t" "entry s1 ?i = Some ?p"
    "free_entries s1 = free_entries s - {?i}" "service_at s1 = (service_at s)(?i \<mapsto> ?t)"
    "live s1 = live s \<union> {TsObj ?p, LevelsObj ?p} \<union> MessageObj ?p ` {0..<32}"
    using s1(2) by (simp_all add: created_def)
  obtain b where b: "get_content s1 (int ?i) = Inr b" using s1(2) unfolding created_def by blast
  have t: "may_use e ?t" "lazy_deleted ?t = NO" "thread_waiting_message_count ?t = 0"
    by (simp_all add: may_use_def new_service_def)
  obtain p s2 where s2: "entry s1 ?i = Some p" "tag_ctl e (int ?i) REMOVE_TAG s1 = Inr (SUCCESS, s2)" "quiet s2"
    "service_at s2 = (service_at s1)(?i := None)" "free_entries s2 = insert ?i (free_entries s1)"
    "heap s2 p = None" "live s2 = live s1 - {TsObj p}" "module_refs s2 = module_refs s1"
    "\<not> cdev_added (dm s2) ! ?i" "get_content s2 (int ?i) = Inl UseAfterFree"
    by (rule tag_ctl_removes [OF c(1,2) t b])
  have f: "?i \<in> free_entries s"
    using assms(1,6) i(2) by (simp add: free_entries_def quiet_def module_ok_def service_at_None)
  have "(service_at s)(?i := None) = service_at s" using assms(6) by auto
  then have "service_at s2 = service_at s" "free_entries s2 = free_entries s"
    using s2(4,5) c(4,5) f by auto
  moreover have "TsObj ?p \<notin> live s" using assms(1) by (auto simp: quiet_def ledger_ok_def)
  then have "live s2 = live s \<union> {LevelsObj ?p} \<union> MessageObj ?p ` {0..<32}"
    using s2(1,7) c(3,6) by auto
  ultimately show ?thesis using s1(1) s2(1,2,6) c(3) i by auto
qed

section \<open>Waking everyone\<close>

lemma put_ts_same: "heap s p = Some t \<Longrightarrow> put_ts p t s = s"
proof -
  assume "heap s p = Some t"
  then have "(heap s)(p \<mapsto> t) = heap s" by auto
  then show ?thesis by (simp add: put_ts_def)
qed

lemma awake_field [simp]:
  "t\<lparr>awake_request := x, awake_request := y\<rparr> = t\<lparr>awake_request := y\<rparr>" by simp

text \<open>
  C17 \<open>tag_ctl(tag, AWAKE_ALL)\<close> by a caller with permission returns SUCCESS. When nobody waits, nothing
  has changed. Otherwise the request is set, \<open>access_lock\<close> of the tag is kept, and the callback is
  queued that withdraws the request and releases the lock; running it gives the first state back.
\<close>

theorem tag_ctl_awake_works:
  assumes "settled s" "service_at s i = Some t" "may_use e t"
  shows "if thread_waiting_message_count t = 0 then tag_ctl e (int i) AWAKE_ALL s = Inr (SUCCESS, s)
    else \<exists>p s'. entry s i = Some p \<and> tag_ctl e (int i) AWAKE_ALL s = Inr (SUCCESS, s')
      \<and> service_at s' = (service_at s)(i \<mapsto> t\<lparr>awake_request := YES\<rparr>) \<and> held s' (int i)
      \<and> rcu_queue s' = [(ResetAwake p, rcu_readers s)]
      \<and> reset_awake_condition p (s'\<lparr>rcu_queue := []\<rparr>) = Inr s"
proof -
  have q: "quiet s" "rcu_queue s = []" "awake_request t = NO" "lazy_deleted t = NO"
    using assms(1,2) by (simp_all add: settled_def)
  let ?s0 = "module_get s"
  let ?t = "t\<lparr>awake_request := YES\<rparr>"
  obtain p where p: "entry s i = Some p" "heap s p = Some t" "i < 512" "ts_wf (int i) t"
    "tag_ctl_enter (int i) AWAKE_ALL s = Inr (Inr p, ?s0)"
    using tag_ctl_enter_ok [OF q(1) assms(2), of AWAKE_ALL] by blast
  have q0: "quiet ?s0" using q by simp
  have tg: "tag t = int i" using p(4) by (simp add: ts_wf_def)
  have wf': "ts_wf (int i) ?t" using p(4) by (simp add: ts_wf_def)
  have "heap ?s0 p = Some t" using p(2) by simp
  note R = tag_ctl_locked_runs [OF q0 this p(3) tg, of e AWAKE_ALL]
  have l: "tag_ctl_locked e AWAKE_ALL p ?s0 = tag_ctl_awake p t (locked (int i) ?s0)"
    using R q(4) assms(3) by simp
  have reset: "t\<lparr>awake_request := NO\<rparr> = t" using q(3) by simp
  show ?thesis
  proof (cases "thread_waiting_message_count t = 0")
    case True
    have "put_ts p t (put_ts p ?t (locked (int i) ?s0)) = put_ts p t (locked (int i) ?s0)"
      by (simp add: put_ts_twice)
    then have "tag_ctl_awake p t (locked (int i) ?s0) = Inr (Some SUCCESS, module_put (put_ts p t ?s0))"
      using True reset tg quiet_lock(3) [OF q0 p(3), of p t] by (simp add: tag_ctl_awake_def Let_def)
    moreover have "module_put (put_ts p t ?s0) = s"
      using put_ts_same [of ?s0 p t] p(2) by (simp add: module_put_get)
    ultimately show ?thesis using True p(5) l by (simp add: tag_ctl_def)
  next
    case False
    let ?s' = "call_rcu (ResetAwake p) (put_ts p ?t (locked (int i) s))"
    have "tag_ctl_awake p t (locked (int i) ?s0) = Inr (Some SUCCESS, ?s')"
      using False by (simp add: tag_ctl_awake_def Let_def word_gt_0 call_rcu_def put_ts_def locked_def
          module_put_def module_get_def)
    then have r: "tag_ctl e (int i) AWAKE_ALL s = Inr (SUCCESS, ?s')"
      using p(5) l by (simp add: tag_ctl_def)
    have e: "entry ?s' = entry s"
      by (simp add: entry_def call_rcu_def put_ts_def locked_def fun_eq_iff)
    have h: "heap ?s' = (heap s)(p \<mapsto> ?t)" by (simp add: call_rcu_def put_ts_def locked_def)
    have "service_at ?s' = service_at (put_ts p ?t s)"
      using e h by (intro service_at_cong) (simp_all add: put_ts_def)
    then have sv: "service_at ?s' = (service_at s)(i \<mapsto> ?t)"
      using quiet_put_ts(2) [OF q(1) assms(2) p(1) wf'] by simp
    have al: "length (access_lock (tsm s)) = 512" using q(1) by (simp add: quiet_def module_ok_def table_wf_def)
    have hd: "held ?s' (int i)"
      using al p(3) by (simp add: held_def call_rcu_def put_ts_def locked_def held_at_def in_range_def)
    have c: "?s'\<lparr>rcu_queue := []\<rparr> = put_ts p ?t (locked (int i) s)"
      using q(2) by (simp add: call_rcu_def put_ts_def locked_def)
    have "reset_awake_condition p (put_ts p ?t (locked (int i) s)) = Inr (put_ts p t s)"
      using quiet_lock(3) [OF q(1) p(3), of p t] tg reset
      by (simp add: reset_awake_condition_def get_ts_def put_ts_twice) (simp add: put_ts_def)
    then have "reset_awake_condition p (?s'\<lparr>rcu_queue := []\<rparr>) = Inr s"
      using put_ts_same [OF p(2)] unfolding c by simp
    moreover have "rcu_queue ?s' = [(ResetAwake p, rcu_readers s)]"
      using q(2) by (simp add: call_rcu_def put_ts_def locked_def)
    ultimately show ?thesis using False p(1) r sv hd by auto
  qed
qed

section \<open>Refusals\<close>

text \<open>
  C23 The refusals of \<open>tag_ctl\<close>, in the order of the checks, leave the state as it was: wrong arguments, a
  tag without a service (512 included, which passes the range check), a caller without permission, a
  removal while threads wait. On a service already marked as deleted both commands report SUCCESS.
\<close>

theorem tag_ctl_refuses:
  assumes "quiet s"
  shows "(i < 0 \<or> 512 < i \<or> command \<notin> {REMOVE_TAG, AWAKE_ALL} \<longrightarrow> tag_ctl e i command s = Inr (- EINVAL, s))
    \<and> (0 \<le> i \<and> i \<le> 512 \<and> command \<in> {REMOVE_TAG, AWAKE_ALL} \<longrightarrow>
        (service_at s (nat i) = None \<longrightarrow> tag_ctl e i command s = Inr (- EBADF, s))
      \<and> (\<forall>t. service_at s (nat i) = Some t \<longrightarrow>
          (lazy_deleted t = YES \<longrightarrow> tag_ctl e i command s = Inr (SUCCESS, s))
        \<and> (lazy_deleted t \<noteq> YES \<and> \<not> may_use e t \<longrightarrow> tag_ctl e i command s = Inr (- EACCES, s))
        \<and> (lazy_deleted t \<noteq> YES \<and> may_use e t \<and> 0 < thread_waiting_message_count t \<longrightarrow>
            tag_ctl e i REMOVE_TAG s = Inr (- EBUSY, s))))"
proof -
  have wf: "table_wf s" "entries_ok s" using assms by (simp_all add: quiet_def module_ok_def)
  have none: "tag_ctl e i command s = Inr (- EBADF, s)"
    if "0 \<le> i" "i \<le> 512" "command \<in> {REMOVE_TAG, AWAKE_ALL}" "service_at s (nat i) = None"
  proof -
    have "entry s (nat i) = None"
      using that wf service_at_None [OF wf(2), of "nat i"] entry_beyond [OF wf(1), of "nat i"]
      by (cases "i < 512") auto
    then have "slot s i = Inr None" using slot_entry [OF wf(1), of i] that by simp
    then show ?thesis using that by (auto simp: tag_ctl_def tag_ctl_enter_def Let_def module_put_get)
  qed
  have some: "tag_ctl e i c s = (if lazy_deleted t = YES then Inr (SUCCESS, s)
      else if \<not> may_use e t then Inr (- EACCES, s) else Inr (- EBUSY, s))"
    if a: "0 \<le> i" "c \<in> {REMOVE_TAG, AWAKE_ALL}" "service_at s (nat i) = Some t"
      "lazy_deleted t = YES \<or> \<not> may_use e t \<or> c = REMOVE_TAG \<and> 0 < thread_waiting_message_count t" for c t
  proof -
    have q0: "quiet (module_get s)" using assms by simp
    obtain p where p: "heap s p = Some t" "nat i < 512" "ts_wf (int (nat i)) t"
      "tag_ctl_enter (int (nat i)) c s = Inr (Inr p, module_get s)"
      using tag_ctl_enter_ok [OF assms a(3), of c] a(2) by auto
    have tg: "tag t = int (nat i)" using p(3) by (simp add: ts_wf_def)
    have "heap (module_get s) p = Some t" using p(1) by simp
    note R = tag_ctl_locked_runs [OF q0 this p(2) tg, of e c]
    note L = quiet_lock(2) [OF q0 p(2)]
    show ?thesis using R L p(4) a tg
      by (auto simp: tag_ctl_def tag_ctl_remove_def module_put_get)
  qed
  have range: "tag_ctl e i command s = Inr (- EINVAL, s)"
    if "i < 0 \<or> 512 < i \<or> command \<notin> {REMOVE_TAG, AWAKE_ALL}"
    using that by (auto simp: tag_ctl_def tag_ctl_enter_def Let_def module_put_get)
  show ?thesis using none some [of command] some [of REMOVE_TAG] range by auto
qed

section \<open>On a module with one service\<close>

lemma one_service_content: "get_content (one_service w) 5 = Inr demo_text"
  by (simp add: get_content_def one_service_def in_range_def)

theorem tag_ctl_remove_works_witness:
  "\<exists>s'. tag_ctl (plain_env 1000) 5 REMOVE_TAG (one_service 0) = Inr (SUCCESS, s') \<and> quiet s'
    \<and> service_at s' 5 = None"
  using tag_ctl_remove_works [OF one_service_quiet [of 0], of 5 "demo_service 0" "plain_env 1000" demo_text]
    one_service_content [of 0] demo_facts [of 0] by (auto simp: one_service_at)

theorem create_remove_leaks_witness:
  "\<exists>s1 s2. tag_get (plain_env 7) 9 CREATE_TAG EVERYONE (booted 240) = Inr (9, s1)
    \<and> tag_ctl (plain_env 7) 9 REMOVE_TAG s1 = Inr (SUCCESS, s2) \<and> LevelsObj 0 \<in> live s2"
proof -
  have a: "EVERYONE = EVERYONE \<or> EVERYONE = ONLY_OWNER" "(0::int) < 9" by simp_all
  have "service_at (booted 240) (nat (9 mod MAX_TAG_SERVICES)) = None" by (rule booted_service)
  from create_remove_leaks [OF booted_quiet plain_env_usable plain_env_gap(2) a this, of 7]
  show ?thesis by (auto simp: booted_def)
qed

theorem tag_ctl_awake_works_witness:
  "\<exists>s'. tag_ctl (plain_env 1000) 5 AWAKE_ALL (one_service 2) = Inr (SUCCESS, s')
    \<and> rcu_queue s' = [(ResetAwake 0, {})]"
proof -
  have "service_at (one_service 2) 5 = Some (demo_service 2)" by (simp add: one_service_at)
  from tag_ctl_awake_works [OF one_service_settled this demo_facts(3)] demo_facts(1) [of 2]
  have "\<exists>p s'. entry (one_service 2) 5 = Some p
    \<and> tag_ctl (plain_env 1000) 5 AWAKE_ALL (one_service 2) = Inr (SUCCESS, s')
    \<and> rcu_queue s' = [(ResetAwake p, rcu_readers (one_service 2))]" by auto
  then show ?thesis by (auto simp: one_service_entry) (auto simp: one_service_def)
qed

theorem tag_ctl_refuses_witness:
  "tag_ctl (plain_env 1000) 5 REMOVE_TAG (one_service 1) = Inr (- EBUSY, one_service 1)
  \<and> tag_ctl (plain_env 1000) 512 AWAKE_ALL (one_service 1) = Inr (- EBADF, one_service 1)"
  using tag_ctl_refuses [OF one_service_quiet [of 1], of 5 REMOVE_TAG "plain_env 1000"]
    tag_ctl_refuses [OF one_service_quiet [of 1], of 512 AWAKE_ALL "plain_env 1000"] demo_facts [of 1]
  by (simp add: one_service_at)

end
