(* ===== verification/Device_Files.thy ===== *)
theory Device_Files
  imports Tag_Ctl
begin

text \<open>
  The file operations of the char devices: \<open>ts_open\<close>, \<open>ts_release\<close>, \<open>ts_read\<close> and \<open>ts_write\<close> of
  \<open>tag_device_driver.c\<close>. An open file is its \<open>private_data\<close> (the service the table held at the time
  of the open) and its position.
\<close>

section \<open>The operations\<close>

definition get_tag_status :: "kenv \<Rightarrow> kstate \<Rightarrow> int \<Rightarrow> buffer outcome" where
  "get_tag_status e s tag_minor =
     and_then (get_content s tag_minor) (\<lambda>c. memcpy (fresh (junk e 0) BUFSIZE) c BUFSIZE)"

text \<open>
  The device numbers of the inode are \<open>unsigned int\<close>; \<open>i_cdev\<close> is given as the index in \<open>dm->cdev\<close>
  it points to, if any. The result is the return code and \<open>private_data\<close>.
\<close>

definition ts_open :: "32 word \<Rightarrow> 32 word \<Rightarrow> nat option \<Rightarrow> kstate \<Rightarrow> (int \<times> nat option) outcome" where
  "ts_open imajor iminor i_cdev s =
     (if imajor \<noteq> ts_major (dm s) \<or> iminor \<ge> 512 then Inr (- ENODEV, None)
      else
        and_then (slot s (uint iminor)) (\<lambda>p.
        if i_cdev \<noteq> Some (unat iminor) then Inr (- ENODEV, p)
        else Inr (0, p)))"

definition ts_release :: int where
  "ts_release = 0"

definition ts_write :: "64 word \<Rightarrow> 64 word" where
  "ts_write count = count"

text \<open>The environment of the event gets the variable \<open>DEVMODE\<close>, printed with \<open>%#o\<close>.\<close>

definition my_dev_uevent :: "string list \<Rightarrow> int \<times> string list" where
  "my_dev_uevent env = (0, env @ [''DEVMODE=0444''])"

text \<open>
  The number of bytes that \<open>ts_read\<close> copies. The sum \<open>*f_pos + count\<close> and the comparisons with
  \<open>count\<close> are on \<open>unsigned long\<close>.
\<close>

definition read_count :: "int \<Rightarrow> int \<Rightarrow> 64 word \<Rightarrow> 64 word" where
  "read_count size' f_pos count =
     (let count = (if word_of_int f_pos + count > word_of_int size' then word_of_int (size' - f_pos) else count)
      in if count > word_of_int size' then word_of_int size' else count)"

text \<open>
  \<open>ts_read\<close> first copies the text in an RCU section, without the device lock; then it takes the lock of the
  service's device and gives the user a part of its copy. The result is the return value, the bytes that
  reach the user and the new position. \<open>mutex_lock_killable\<close> fails when a fatal signal ends the wait for
  the lock.
\<close>

definition ts_read_copy :: "kenv \<Rightarrow> nat option \<Rightarrow> kstate \<Rightarrow> buffer outcome" where
  "ts_read_copy e private_data s =
     (if \<not> alloc_ok e 0 then Inl NullDeref
      else and_then (deref s private_data) (\<lambda>t. get_tag_status e s (tag t)))"

definition ts_read_locked ::
    "bool \<Rightarrow> nat option \<Rightarrow> user_ptr \<Rightarrow> 64 word \<Rightarrow> int \<Rightarrow> buffer \<Rightarrow> kstate \<Rightarrow> ((int \<times> buffer \<times> int) \<times> kstate) outcome" where
  "ts_read_locked killed private_data u count f_pos ts_status s =
     and_then (strlen ts_status) (\<lambda>n.
     and_then (deref s private_data) (\<lambda>t.
     let size' = int n in
     if dev_held s (tag t) \<and> killed then Inr ((- EINTR, [], f_pos), s)
     else
       and_then (dev_lock (tag t) s) (\<lambda>s.
       if f_pos \<ge> size' then
         and_then (dev_unlock (tag t) s) (\<lambda>s. Inr ((0, [], f_pos), s))
       else
         let count = read_count size' f_pos count in
         and_then (copy_to_user u ts_status (unat count)) (\<lambda>bs.
         if length bs \<noteq> unat count then
           and_then (dev_unlock (tag t) s) (\<lambda>s. Inr ((- EFAULT, bs, f_pos), s))
         else
           and_then (dev_unlock (tag t) s)
             (\<lambda>s. Inr ((uint count, bs, f_pos + uint count), s))))))"

definition ts_read ::
    "kenv \<Rightarrow> bool \<Rightarrow> nat option \<Rightarrow> user_ptr \<Rightarrow> 64 word \<Rightarrow> int \<Rightarrow> kstate \<Rightarrow> ((int \<times> buffer \<times> int) \<times> kstate) outcome" where
  "ts_read e killed private_data u count f_pos s =
     and_then (ts_read_copy e private_data s) (\<lambda>ts_status.
     ts_read_locked killed private_data u count f_pos ts_status s)"

section \<open>How much is read\<close>

lemma read_count_eq:
  assumes "0 \<le> f_pos" "f_pos < int n" "n \<le> 4096" "unat count < 2 ^ 63"
  shows "unat (read_count (int n) f_pos count) = min (unat count) (n - nat f_pos)"
proof -
  obtain f where f: "f_pos = int f" "f < n" using assms(1,2) by (metis nonneg_int_cases of_nat_less_iff)
  have u: "unat (word_of_nat m :: 64 word) = m" if "m \<le> 4096" for m
    using that by (simp add: unat_of_nat take_bit_nat_eq_self_iff)
  have s: "unat (word_of_nat f + count) = f + unat count"
    using f assms(3,4) u [of f] by (simp add: unat_word_ariths)
  have d: "word_of_int (int n - int f) = (word_of_nat (n - f) :: 64 word)"
    using f(2) by (metis of_int_of_nat_eq of_nat_diff less_imp_le_nat)
  have i: "word_of_int (int k) = (word_of_nat k :: 64 word)" for k by simp
  have c1: "(word_of_nat n < word_of_nat f + count) = (n < f + unat count)"
    using s u [OF assms(3)] by (simp add: word_less_nat_alt)
  have c2: "(word_of_nat n < w) = (n < unat w)" for w :: "64 word"
    using u [OF assms(3)] by (simp add: word_less_nat_alt)
  have nf: "unat (word_of_nat (n - f) :: 64 word) = n - f" using assms(3) by (intro u) simp
  have "read_count (int n) f_pos count =
      (let c = (if n < f + unat count then word_of_nat (n - f) else count)
       in if n < unat c then word_of_nat n else c)"
    unfolding read_count_def f(1) d i c1 c2 by (simp only: s)
  also have "unat \<dots> = min (unat count) (n - f)"
    using f(2) nf by (auto simp: Let_def min_def simp del: of_nat_diff)
  finally show ?thesis by (simp add: f(1))
qed

section \<open>What a read returns\<close>

lemma dev_lock_unlock_id:
  assumes "driver_wf s" "i < 512" "\<not> dev_held s (int i)"
  obtains s1 where "dev_lock (int i) s = Inr s1" "dev_unlock (int i) s1 = Inr s"
proof -
  let ?s1 = "s\<lparr>dm := (dm s)\<lparr>device_lock := (device_lock (dm s))[i := True]\<rparr>\<rparr>"
  have r: "length (device_lock (dm s)) = 512" "\<not> device_lock (dm s) ! i"
    using assms by (auto simp: driver_wf_def dev_held_def held_at_def in_range_def)
  have "(device_lock (dm s))[i := True, i := False] = device_lock (dm s)"
    using r by (metis (full_types) list_update_id list_update_overwrite)
  then have "dev_unlock (int i) ?s1 = Inr s"
    using r(1) assms(2) dev_unlock_ok [of ?s1 "int i"] by (simp add: in_range_def)
  moreover have "dev_lock (int i) s = Inr ?s1" using dev_lock_ok [OF assms(1), of "int i"] assms(2,3) by simp
  ultimately show thesis using that by blast
qed

lemma device_text:
  assumes "calm s" "service_at s i = Some t" "device_shows s i t"
  obtains r where "get_tag_status e s (int i) = Inr (status_text (key t) (owner_euid t) (counts t) @ NUL # r)"
    "length (status_text (key t) (owner_euid t) (counts t)) < 4096"
proof -
  let ?T = "status_text (key t) (owner_euid t) (counts t)"
  obtain r where r: "get_content s (int i) = Inr (?T @ NUL # r)" "length (?T @ NUL # r) = 4096"
    using assms(3) by (auto simp: device_shows_def shows_status_def)
  then have "get_tag_status e s (int i) = Inr (?T @ NUL # r)"
    by (simp add: get_tag_status_def memcpy_def)
  then show thesis using that r(2) by simp
qed

lemma read_status:
  assumes "calm s" "service_at s i = Some t" "entry s i = Some p" "device_shows s i t" "alloc_ok e 0"
    "0 \<le> f_pos" "unat count < 2 ^ 63" "unat count \<le> length b"
  shows "let T = status_text (key t) (owner_euid t) (counts t);
             n = min (unat count) (length T - nat f_pos)
    in ts_read e killed (Some p) (Some b) count f_pos s =
      Inr (if int (length T) \<le> f_pos then (0, [], f_pos) else (int n, take n T, f_pos + int n), s)"
proof -
  let ?T = "status_text (key t) (owner_euid t) (counts t)"
  let ?n = "min (unat count) (length ?T - nat f_pos)"
  note h = calm_heap [OF assms(1-3)]
  obtain r where r: "get_tag_status e s (int i) = Inr (?T @ NUL # r)" "length ?T < 4096"
    by (rule device_text [OF assms(1,2,4)])
  have d: "driver_wf s" "\<not> dev_held s (int i)" using assms(1) by (simp_all add: calm_def)
  obtain s1 where s1: "dev_lock (int i) s = Inr s1" "dev_unlock (int i) s1 = Inr s"
    by (rule dev_lock_unlock_id [OF d(1) h(4) d(2)])
  have dr: "deref s (Some p) = Inr t" "tag t = int i" using h(1,3) by (simp_all add: deref_def ts_wf_def)
  show ?thesis
  proof (cases "int (length ?T) \<le> f_pos")
    case True
    then show ?thesis using assms(5) dr r(1) s1 d(2) by (simp add: ts_read_def ts_read_copy_def ts_read_locked_def Let_def)
  next
    case False
    then have c: "unat (read_count (int (length ?T)) f_pos count) = ?n"
      using read_count_eq [OF assms(6) _ _ assms(7), of "length ?T"] r(2) by simp
    define n where "n = ?n"
    have le: "n \<le> length ?T" "n \<le> length b" using assms(8) unfolding n_def by linarith+
    then have "copy_to_user (Some b) (?T @ NUL # r) n = Inr (take n ?T)"
      by (simp add: copy_to_user_def min_absorb1)
    moreover have "length (take n ?T) = n" using le(1) by simp
    moreover have "unat (read_count (int (length ?T)) f_pos count) = n" using c by (simp only: n_def)
    moreover have "uint (read_count (int (length ?T)) f_pos count) = int n"
      using calculation(3) by (metis uint_nat)
    ultimately show ?thesis
      using False assms(5) dr r(1) s1 d(2) unfolding Let_def n_def [symmetric]
      by (simp add: ts_read_def ts_read_copy_def ts_read_locked_def Let_def del: length_take)
  qed
qed

text \<open>
  Reading a device from its start with room for the whole text returns the status of the service:
  the header and, for each level, its line with the number of waiting threads; the state is unchanged.
\<close>

theorem ts_read_status:
  assumes "calm s" "service_at s i = Some t" "entry s i = Some p" "device_shows s i t" "alloc_ok e 0"
    "length (status_text (key t) (owner_euid t) (counts t)) \<le> unat count"
    "unat count < 2 ^ 63" "unat count \<le> length b"
  shows "let T = status_text (key t) (owner_euid t) (counts t)
    in ts_read e killed (Some p) (Some b) count 0 s = Inr ((int (length T), T, int (length T)), s)"
proof -
  have "(0::int) \<le> 0" by simp
  from read_status [OF assms(1-5) this assms(7,8), of killed] assms(6)
  have *: "ts_read e killed (Some p) (Some b) count 0 s = Inr (
      if length (status_text (key t) (owner_euid t) (counts t)) = 0 then (0, [], 0)
      else (int (length (status_text (key t) (owner_euid t) (counts t))),
        status_text (key t) (owner_euid t) (counts t), int (length (status_text (key t) (owner_euid t) (counts t)))), s)"
    by (simp add: Let_def min_absorb2 split: if_splits)
  show ?thesis unfolding Let_def * by simp
qed

text \<open>
  C28 Reading in pieces: from a position before the end, \<open>ts_read\<close> returns as many bytes as are left, or
  as asked for, and moves the position by them, so a reader that goes on reaches the end; but the bytes
  are always the first ones of the text, whatever the position. From the end on it returns 0.
\<close>

theorem ts_read_in_pieces:
  assumes "calm s" "service_at s i = Some t" "entry s i = Some p" "device_shows s i t" "alloc_ok e 0"
    "0 \<le> f_pos" "unat count < 2 ^ 63" "unat count \<le> length b"
  shows "let T = status_text (key t) (owner_euid t) (counts t);
             n = min (unat count) (length T - nat f_pos)
    in ts_read e killed (Some p) (Some b) count f_pos s =
      Inr (if int (length T) \<le> f_pos then (0, [], f_pos) else (int n, take n T, f_pos + int n), s)"
  using assms by (rule read_status)

text \<open>
  C29 An open file keeps the pointer to its service, so reading it after the service has been removed
  dereferences freed memory.
\<close>

theorem ts_read_after_removal:
  assumes "quiet s" "service_at s i = Some t" "may_use e t" "lazy_deleted t = NO"
    "thread_waiting_message_count t = 0" "get_content s (int i) = Inr b" "alloc_ok e' 0"
  shows "\<exists>p s'. ts_open (ts_major (dm s)) (of_nat i) (Some i) s = Inr (0, Some p)
    \<and> tag_ctl e (int i) REMOVE_TAG s = Inr (SUCCESS, s')
    \<and> ts_read e' killed (Some p) u count f_pos s' = Inl UseAfterFree"
proof -
  obtain p s' where s': "entry s i = Some p" "tag_ctl e (int i) REMOVE_TAG s = Inr (SUCCESS, s')" "quiet s'"
    "service_at s' = (service_at s)(i := None)" "free_entries s' = insert i (free_entries s)"
    "heap s' p = None" "live s' = live s - {TsObj p}" "module_refs s' = module_refs s"
    "\<not> cdev_added (dm s') ! i" "get_content s' (int i) = Inl UseAfterFree"
    by (rule tag_ctl_removes [OF assms(1-6)])
  have i: "i < 512" using service_at_SomeE [OF assms(1,2)] by blast
  have u: "unat (word_of_nat i :: 32 word) = i" using i by (simp add: unat_of_nat take_bit_nat_eq_self_iff)
  then have "uint (word_of_nat i :: 32 word) = int i" by (metis uint_nat)
  moreover have "\<not> (512 :: 32 word) \<le> word_of_nat i" using i u by (simp add: word_le_nat_alt)
  moreover have "slot s (int i) = Inr (Some p)"
    using slot_entry [of s "int i"] assms(1) s'(1) i by (simp add: quiet_def module_ok_def)
  ultimately have "ts_open (ts_major (dm s)) (of_nat i) (Some i) s = Inr (0, Some p)"
    using u by (simp add: ts_open_def)
  moreover have "ts_read e' killed (Some p) u count f_pos s' = Inl UseAfterFree"
    using s'(6) assms(7) by (simp add: ts_read_def ts_read_copy_def deref_def get_ts_def)
  ultimately show ?thesis using s'(2) by blast
qed

text \<open>
  \<open>ts_open\<close> accepts exactly the device numbers of the driver, gives the service of the minor number as
  the private data of the file (NULL for a tag without one) and never fails otherwise.
\<close>

theorem ts_open_result:
  assumes "quiet s"
  shows "ts_open ma mi c s =
    (if ma \<noteq> ts_major (dm s) \<or> 512 \<le> unat mi then Inr (- ENODEV, None)
     else Inr (if c = Some (unat mi) then 0 else - ENODEV, entry s (unat mi)))"
proof -
  have w: "(512 \<le> mi) = (512 \<le> unat mi)" by (simp add: word_le_nat_alt)
  have "slot s (uint mi) = Inr (entry s (unat mi))" if "unat mi < 512"
  proof -
    have "uint mi < 4096" using uint_nat [of mi] that by linarith
    then show ?thesis
      using slot_entry [of s "uint mi"] assms by (simp add: quiet_def module_ok_def)
  qed
  then show ?thesis by (auto simp: ts_open_def w)
qed

section \<open>On a module with one service\<close>

lemma demo_device: "service_at (one_service 0) 5 = Some (demo_service 0)" "entry (one_service 0) 5 = Some 0"
  "key (demo_service 0) = 5" "owner_euid (demo_service 0) = 1000"
  by (simp_all add: one_service_at one_service_entry) (simp_all add: demo_service_def)

lemma plain_alloc: "alloc_ok (plain_env u) n"
  by (simp add: plain_env_def)

theorem ts_read_status_witness:
  "ts_read (plain_env 7) False (Some 0) (Some (replicate 4096 NUL)) 4096 0 (one_service 0) =
    Inr ((int (length (status_text 5 1000 (replicate 32 0))), status_text 5 1000 (replicate 32 0),
      int (length (status_text 5 1000 (replicate 32 0)))), one_service 0)"
proof -
  have "length (status_text 5 1000 (replicate 32 0)) \<le> 1240"
    by (rule length_status_le) (simp_all add: is_int_def)
  then show ?thesis
    using ts_read_status [OF one_service_calm demo_device(1,2) demo_totals(2), of "plain_env 7" 4096
        "replicate 4096 NUL" False] plain_alloc [of 7 0]
    by (simp add: demo_device demo_counts0 Let_def)
qed

theorem ts_read_in_pieces_witness:
  "ts_read (plain_env 7) False (Some 0) (Some (replicate 4 NUL)) 4 4 (one_service 0) =
    Inr ((4, ''KEY'' @ [TAB], 8), one_service 0)"
proof -
  let ?T = "status_text 5 1000 (replicate 32 0)"
  have T: "?T = header @ concat (map (\<lambda>i. line_text 5 1000 i (replicate 32 0 ! i)) [0..<32])"
    by (simp add: status_text_def)
  have "24 \<le> length ?T" unfolding T by (simp add: header_size_def)
  moreover have "take 4 ?T = ''KEY'' @ [TAB]" unfolding T by (simp add: header_def)
  ultimately show ?thesis
    using ts_read_in_pieces [OF one_service_calm demo_device(1,2) demo_totals(2), of "plain_env 7" 4 4
        "replicate 4 NUL" False] plain_alloc [of 7 0]
    by (simp add: demo_device demo_counts0 Let_def)
qed

theorem ts_read_after_removal_witness:
  "\<exists>s'. tag_ctl (plain_env 1000) 5 REMOVE_TAG (one_service 0) = Inr (SUCCESS, s')
    \<and> ts_read (plain_env 7) False (Some 0) None 64 0 s' = Inl UseAfterFree"
proof -
  have d: "lazy_deleted (demo_service 0) = NO" "thread_waiting_message_count (demo_service 0) = 0"
    by (simp_all add: demo_service_def)
  have g: "get_content (one_service 0) (int 5) = Inr demo_text" using one_service_content [of 0] by simp
  have "ts_open ma mi c (one_service 0) = Inr (0, Some p) \<Longrightarrow> p = 0" for ma mi c p
    by (auto simp: ts_open_def slot_def one_service_def dest!: arr_get_InrD in_range_nat elim!: and_then_InrE
        simp: nth_list_update split: if_splits)
  then show ?thesis
    using ts_read_after_removal [OF one_service_quiet demo_device(1) demo_facts(3) [of 0] d
        g plain_alloc [of 7 0], of False None 64 0] by fastforce
qed

theorem ts_open_result_witness:
  "ts_open 240 5 (Some 5) (one_service 0) = Inr (0, Some 0) \<and> ts_open 240 512 None (one_service 0) = Inr (- ENODEV, None)"
  using ts_open_result [OF one_service_quiet [of 0], of 240 5 "Some 5"]
    ts_open_result [OF one_service_quiet [of 0], of 240 512 None]
  by (simp add: demo_device) (simp add: one_service_def)

end
