(* ===== verification/Concurrency.thy ===== *)
theory Concurrency
  imports Device_Files
begin

text \<open>
  The module under concurrent use: any number of threads in the system calls and in the device files, and
  the RCU callbacks.
  A step is one of the pieces into which the theories of the system calls cut the code, or a
  callback whose grace period is over. What lies between \<open>mutex_lock\<close> and \<open>mutex_unlock\<close> is one
  step (the pieces start with the lock and block while it is held); the receiver, which takes no
  lock, is cut at its checks, at each atomic instruction on the two counters, before and after the read
  of the count that \<open>update_chrdev\<close> is going to show, between the two changes of the device's text pointer
  (under the device lock, which the readers of the device do not take for their copy), at its wait and at
  the three parts of its RCU section. A creation is cut between the entry, its counter and the device, a
  removal between the mark, the device and the entry.
\<close>

section \<open>Transition systems\<close>

locale transition_system =
  fixes init :: "'s \<Rightarrow> bool" and step :: "'s \<Rightarrow> 's \<Rightarrow> bool" and inv :: "'s \<Rightarrow> bool"
  assumes init_inv: "init s \<Longrightarrow> inv s"
    and step_inv: "inv s \<Longrightarrow> step s s' \<Longrightarrow> inv s'"
begin

lemma run_inv: "step\<^sup>*\<^sup>* s s' \<Longrightarrow> inv s \<Longrightarrow> inv s'"
  by (induction rule: rtranclp_induct) (auto intro: step_inv)

lemma reachable_inv: "init s \<Longrightarrow> step\<^sup>*\<^sup>* s s' \<Longrightarrow> inv s'"
  using run_inv init_inv by blast

end

section \<open>Threads\<close>

text \<open>
  Where a thread is, with the values its local variables hold there. \<open>Publishing\<close>: past the critical
  section of \<open>CREATE_TAG\<close>, with the entry not yet counted; \<open>Creating\<close>: about to create the device; \<open>Removing\<close>:
  past the critical section of \<open>REMOVE_TAG\<close>, with the service marked; \<open>Unlinking\<close>: with the device
  destroyed and the service still in the table. \<open>Checked\<close>: a receiver past its
  checks but not yet counted; \<open>Counted\<close>: in the total of the service, not yet in its level;
  \<open>Updating\<close>: about to call \<open>update_chrdev\<close>; \<open>Rewriting\<close>: in it, with the service found and the count read,
  before the device lock; \<open>Assigning\<close>: in it, with the device lock, the new text built and the old one freed;
  \<open>Waiting\<close>: in \<open>wait_event_interruptible\<close>; \<open>Woken\<close>: out of it (by a signal or
  not), before \<open>rcu_read_lock\<close>; \<open>Reading\<close> and \<open>Copied\<close>: in the RCU section, before and after the copy;
  \<open>Leaving\<close>: past \<open>rcu_read_unlock\<close>, still counted; \<open>Uncounted\<close>: out of the total, still in the level;
  \<open>Returning\<close>: before \<open>module_put\<close>. \<open>update_chrdev\<close> is called on the way in and on the way out: \<open>caller\<close>
  says where it goes on. \<open>Opened\<close>: a thread with an open device file (\<open>private_data\<close> and position); \<open>Showing\<close>:
  in \<open>ts_read\<close>, with its copy of the text, before the device lock.
\<close>

datatype caller = Entering nat user_ptr nat | Exiting int buffer

datatype pc = Idle
  | Getting int int int int | Publishing int | Creating int
  | Sending int int nat buffer nat nat
  | Checked int int nat user_ptr nat | Counted int int nat user_ptr nat
  | Updating int int caller | Rewriting int int nat int caller | Assigning int int int buffer caller
  | Waiting int int nat user_ptr nat | Woken bool int int nat user_ptr nat
  | Reading bool int int nat user_ptr nat | Copied int int nat int buffer
  | Leaving int int nat int buffer | Uncounted int int nat int buffer | Returning int buffer
  | Controlling int int nat | Removing int nat | Unlinking int nat
  | Opened "nat option" int | Showing "nat option" int user_ptr "64 word" buffer

fun resume :: "int \<Rightarrow> int \<Rightarrow> caller \<Rightarrow> pc" where
  "resume i lev (Entering p u sz) = Waiting i lev p u sz"
| "resume i lev (Exiting r bs) = Returning r bs"

text \<open>
  The whole system: the kernel state, the threads with their credentials, and what the calls have
  returned so far (thread, code, bytes in the user's buffer).
\<close>

record sys =
  ks :: kstate
  pcs :: "nat \<Rightarrow> pc"
  thread_euid :: "nat \<Rightarrow> 32 word"
  results :: "(nat \<times> int \<times> buffer) list"

definition goto :: "nat \<Rightarrow> pc \<Rightarrow> kstate \<Rightarrow> sys \<Rightarrow> sys" where
  "goto th c k s = s\<lparr>ks := k, pcs := (pcs s)(th := c)\<rparr>"

text \<open>A call that returns: to the state \<open>Idle\<close>, but for a read of an open file.\<close>

definition answer :: "nat \<Rightarrow> int \<Rightarrow> buffer \<Rightarrow> pc \<Rightarrow> kstate \<Rightarrow> sys \<Rightarrow> sys" where
  "answer th r bs c k s = (goto th c k s)\<lparr>results := results s @ [(th, r, bs)]\<rparr>"

abbreviation finish :: "nat \<Rightarrow> int \<Rightarrow> buffer \<Rightarrow> kstate \<Rightarrow> sys \<Rightarrow> sys" where
  "finish th r bs k s \<equiv> answer th r bs Idle k s"

lemma goto_simps [simp]:
  "ks (goto th c k s) = k" "pcs (goto th c k s) = (pcs s)(th := c)" "results (goto th c k s) = results s"
  "thread_euid (goto th c k s) = thread_euid s"
  "ks (answer th r bs c k s) = k" "pcs (answer th r bs c k s) = (pcs s)(th := c)"
  "results (answer th r bs c k s) = results s @ [(th, r, bs)]" "thread_euid (answer th r bs c k s) = thread_euid s"
  by (simp_all add: goto_def answer_def)

text \<open>Linux on x86-64 has at most this many threads (\<open>PID_MAX_LIMIT\<close>).\<close>

definition PID_MAX :: nat where "PID_MAX = 4194304"

section \<open>Steps of a thread\<close>

inductive thread_step :: "nat \<Rightarrow> sys \<Rightarrow> sys \<Rightarrow> bool" where
  get_call: "pcs s th = Idle \<Longrightarrow> tag_get_select k c perm (ks s) = Inr (Inr i, k') \<Longrightarrow>
    thread_step th s (goto th (Getting k c perm i) k' s)"
| get_refused: "pcs s th = Idle \<Longrightarrow> tag_get_select k c perm (ks s) = Inr (Inl r, k') \<Longrightarrow>
    thread_step th s (finish th r [] k' s)"
| get_locked: "pcs s th = Getting k c perm i \<Longrightarrow> euid e = thread_euid s th \<Longrightarrow>
    tag_get_locked e k c perm i (ks s) = Inr (Some r, k') \<Longrightarrow> thread_step th s (finish th r [] k' s)"
| get_created: "pcs s th = Getting k c perm i \<Longrightarrow> euid e = thread_euid s th \<Longrightarrow>
    tag_get_locked e k c perm i (ks s) = Inr (None, k') \<Longrightarrow> thread_step th s (goto th (Publishing i) k' s)"
| get_counted: "pcs s th = Publishing i \<Longrightarrow> thread_step th s (goto th (Creating i) (dec_remaining (ks s)) s)"
| get_published: "pcs s th = Creating i \<Longrightarrow> euid e = thread_euid s th \<Longrightarrow>
    tag_get_device e i (ks s) = Inr (r, k') \<Longrightarrow> thread_step th s (finish th r [] k' s)"
| send_call: "pcs s th = Idle \<Longrightarrow> euid e = thread_euid s th \<Longrightarrow>
    tag_send_enter e i lev u sz (ks s) = Inr (Inr (p, page, n), k') \<Longrightarrow>
    thread_step th s (goto th (Sending i lev p page n sz) k' s)"
| send_refused: "pcs s th = Idle \<Longrightarrow> euid e = thread_euid s th \<Longrightarrow>
    tag_send_enter e i lev u sz (ks s) = Inr (Inl r, k') \<Longrightarrow> thread_step th s (finish th r [] k' s)"
| send_locked: "pcs s th = Sending i lev p page n sz \<Longrightarrow> euid e = thread_euid s th \<Longrightarrow>
    tag_send_locked e i lev p page n sz (ks s) = Inr (r, k') \<Longrightarrow> thread_step th s (finish th r [] k' s)"
| receive_call: "pcs s th = Idle \<Longrightarrow> euid e = thread_euid s th \<Longrightarrow>
    tag_receive_check e i lev u (ks s) = Inr (Inr p, k') \<Longrightarrow>
    thread_step th s (goto th (Checked i lev p u sz) k' s)"
| receive_refused: "pcs s th = Idle \<Longrightarrow> euid e = thread_euid s th \<Longrightarrow>
    tag_receive_check e i lev u (ks s) = Inr (Inl r, k') \<Longrightarrow> thread_step th s (finish th r [] k' s)"
| receive_count: "pcs s th = Checked i lev p u sz \<Longrightarrow>
    tag_receive_total atomic_inc p (ks s) = Inr k' \<Longrightarrow> thread_step th s (goto th (Counted i lev p u sz) k' s)"
| receive_enter: "pcs s th = Counted i lev p u sz \<Longrightarrow>
    tag_receive_level atomic_inc lev p (ks s) = Inr k' \<Longrightarrow>
    thread_step th s (goto th (Updating i lev (Entering p u sz)) k' s)"
| update_skipped: "pcs s th = Updating i lev c \<Longrightarrow> update_begin i lev (ks s) = Inr None \<Longrightarrow>
    thread_step th s (goto th (resume i lev c) (ks s) s)"
| update_read: "pcs s th = Updating i lev c \<Longrightarrow> update_begin i lev (ks s) = Inr (Some (a, n)) \<Longrightarrow>
    thread_step th s (goto th (Rewriting i lev a n c) (ks s) s)"
| update_freed: "pcs s th = Rewriting i lev a n c \<Longrightarrow> update_free e lev a n (ks s) = Inr ((j, new), k') \<Longrightarrow>
    thread_step th s (goto th (Assigning i lev j new c) k' s)"
| update_written: "pcs s th = Assigning i lev j new c \<Longrightarrow>
    update_assign j new (ks s) = Inr k' \<Longrightarrow> thread_step th s (goto th (resume i lev c) k' s)"
| receive_wake: "pcs s th = Waiting i lev p u sz \<Longrightarrow> get_ts (ks s) p = Inr t \<Longrightarrow> wait_condition lev t = Inr c \<Longrightarrow>
    c \<or> signal \<Longrightarrow> thread_step th s (goto th (Woken signal i lev p u sz) (ks s) s)"
| receive_section: "pcs s th = Woken signal i lev p u sz \<Longrightarrow>
    thread_step th s (goto th (Reading signal i lev p u sz) (rcu_read_lock th (ks s)) s)"
| receive_read: "pcs s th = Reading signal i lev p u sz \<Longrightarrow> signal \<longrightarrow> signal' \<Longrightarrow> get_ts (ks s) p = Inr t \<Longrightarrow>
    tag_receive_read signal' lev u sz t = Inr (r, bs) \<Longrightarrow> thread_step th s (goto th (Copied i lev p r bs) (ks s) s)"
| receive_unlock: "pcs s th = Copied i lev p r bs \<Longrightarrow>
    thread_step th s (goto th (Leaving i lev p r bs) (rcu_read_unlock th (ks s)) s)"
| receive_uncount: "pcs s th = Leaving i lev p r bs \<Longrightarrow>
    tag_receive_total atomic_dec p (ks s) = Inr k' \<Longrightarrow> thread_step th s (goto th (Uncounted i lev p r bs) k' s)"
| receive_leave: "pcs s th = Uncounted i lev p r bs \<Longrightarrow>
    tag_receive_level atomic_dec lev p (ks s) = Inr k' \<Longrightarrow>
    thread_step th s (goto th (Updating i lev (Exiting r bs)) k' s)"
| receive_return: "pcs s th = Returning r bs \<Longrightarrow> thread_step th s (finish th r bs (module_put (ks s)) s)"
| ctl_call: "pcs s th = Idle \<Longrightarrow> tag_ctl_enter i c (ks s) = Inr (Inr p, k') \<Longrightarrow>
    thread_step th s (goto th (Controlling c i p) k' s)"
| ctl_refused: "pcs s th = Idle \<Longrightarrow> tag_ctl_enter i c (ks s) = Inr (Inl r, k') \<Longrightarrow>
    thread_step th s (finish th r [] k' s)"
| ctl_locked: "pcs s th = Controlling c i p \<Longrightarrow> euid e = thread_euid s th \<Longrightarrow>
    tag_ctl_locked e c p (ks s) = Inr (Some r, k') \<Longrightarrow> thread_step th s (finish th r [] k' s)"
| ctl_marked: "pcs s th = Controlling c i p \<Longrightarrow> euid e = thread_euid s th \<Longrightarrow>
    tag_ctl_locked e c p (ks s) = Inr (None, k') \<Longrightarrow> thread_step th s (goto th (Removing i p) k' s)"
| ctl_destroyed: "pcs s th = Removing i p \<Longrightarrow> tag_ctl_destroy p (ks s) = Inr k' \<Longrightarrow>
    thread_step th s (goto th (Unlinking i p) k' s)"
| ctl_removed: "pcs s th = Unlinking i p \<Longrightarrow> tag_ctl_unlink i p (ks s) = Inr (r, k') \<Longrightarrow>
    thread_step th s (finish th r [] k' s)"
| open_call: "pcs s th = Idle \<Longrightarrow> ts_open imajor iminor i_cdev (ks s) = Inr (0, d) \<Longrightarrow>
    thread_step th s (goto th (Opened d 0) (ks s) s)"
| open_refused: "pcs s th = Idle \<Longrightarrow> ts_open imajor iminor i_cdev (ks s) = Inr (r, d) \<Longrightarrow> r \<noteq> 0 \<Longrightarrow>
    thread_step th s (finish th r [] (ks s) s)"
| read_copied: "pcs s th = Opened d f \<Longrightarrow> ts_read_copy e d (ks s) = Inr b \<Longrightarrow>
    thread_step th s (goto th (Showing d f u n b) (ks s) s)"
| read_returned: "pcs s th = Showing d f u n b \<Longrightarrow> ts_read_locked killed d u n f b (ks s) = Inr ((r, bs, f'), k') \<Longrightarrow>
    thread_step th s (answer th r bs (Opened d f') k' s)"
| close_call: "pcs s th = Opened d f \<Longrightarrow> thread_step th s (finish th ts_release [] (ks s) s)"

section \<open>Callbacks and the whole system\<close>

definition run_callback :: "rcu_cb \<Rightarrow> kstate \<Rightarrow> kstate outcome" where
  "run_callback c k = (case c of FreeAfterSend p lev \<Rightarrow> free_after_send p lev k
     | ResetAwake p \<Rightarrow> reset_awake_condition p k)"

text \<open>A callback runs, once, when all readers of its grace period have left their sections.\<close>

inductive sys_step :: "sys \<Rightarrow> sys \<Rightarrow> bool" where
  thread: "th < PID_MAX \<Longrightarrow> thread_step th s s' \<Longrightarrow> sys_step s s'"
| callback: "rcu_queue (ks s) = q1 @ (c, {}) # q2 \<Longrightarrow>
    run_callback c ((ks s)\<lparr>rcu_queue := q1 @ q2\<rparr>) = Inr k' \<Longrightarrow> sys_step s (s\<lparr>ks := k'\<rparr>)"

definition sys_init :: "sys \<Rightarrow> bool" where
  "sys_init s \<longleftrightarrow> (\<exists>w. ks s = booted w) \<and> (\<forall>th. pcs s th = Idle) \<and> results s = []"

inductive_cases sys_stepE: "sys_step s s'"

end
