(* ===== verification/Conc_Invariant.thy ===== *)
theory Conc_Invariant
  imports Concurrency
begin

text \<open>
  The invariant of the concurrent system, and what each piece of a system call does to it: which lock
  is held is exactly which callback is pending, which level is ready is exactly which delivery is
  pending, and every pointer of a thread still means the service of its tag, unless that was freed.
\<close>

section \<open>The invariant on the kernel state\<close>

fun cb_ptr :: "rcu_cb \<Rightarrow> nat" where
  "cb_ptr (FreeAfterSend p lev) = p"
| "cb_ptr (ResetAwake p) = p"

definition pending :: "kstate \<Rightarrow> rcu_cb set" where
  "pending k = set (map fst (rcu_queue k))"

definition table_shape :: "kstate \<Rightarrow> bool" where
  "table_shape k \<longleftrightarrow> length (all_tag_services (tsm k)) = 4096 \<and> length (access_lock (tsm k)) = 512
     \<and> (\<forall>i. 512 \<le> i \<and> i < 4096 \<longrightarrow> entry k i = None)"

definition services_ok :: "kstate \<Rightarrow> bool" where
  "services_ok k \<longleftrightarrow>
     (\<forall>i p. i < 512 \<longrightarrow> entry k i = Some p \<longrightarrow> (\<exists>t. heap k p = Some t \<and> tag t = int i))
     \<and> (\<forall>p t. heap k p = Some t \<longrightarrow> ts_wf (tag t) t \<and> p < next_addr k
          \<and> (\<exists>i<512. tag t = int i \<and> entry k i = Some p))"

definition callbacks_ok :: "kstate \<Rightarrow> bool" where
  "callbacks_ok k \<longleftrightarrow> distinct (map fst (rcu_queue k))
     \<and> (\<forall>c \<in> pending k. \<exists>t. heap k (cb_ptr c) = Some t \<and> held k (tag t) \<and> lazy_deleted t \<noteq> YES)
     \<and> (\<forall>c \<in> pending k. \<forall>c' \<in> pending k. cb_ptr c = cb_ptr c' \<longrightarrow> c = c')
     \<and> (\<forall>p lev. FreeAfterSend p lev \<in> pending k \<longrightarrow> 0 \<le> lev \<and> lev < 32)
     \<and> (\<forall>i. held k i \<longrightarrow> (\<exists>c \<in> pending k. \<exists>t. heap k (cb_ptr c) = Some t \<and> tag t = i))"

definition flags_match :: "nat \<Rightarrow> rcu_cb set \<Rightarrow> tag_service \<Rightarrow> bool" where
  "flags_match p P t \<longleftrightarrow> (\<forall>n<32. (message_ready (level t ! n) = READY) = (FreeAfterSend p (int n) \<in> P))
     \<and> (awake_request t = YES) = (ResetAwake p \<in> P)"

definition kinv :: "kstate \<Rightarrow> bool" where
  "kinv k \<longleftrightarrow> table_shape k \<and> services_ok k \<and> callbacks_ok k
     \<and> (\<forall>p t. heap k p = Some t \<longrightarrow> flags_match p (pending k) t)"

text \<open>Changes that the invariant does not see.\<close>

definition neutral :: "kstate \<Rightarrow> kstate \<Rightarrow> bool" where
  "neutral k k' \<longleftrightarrow> all_tag_services (tsm k') = all_tag_services (tsm k)
     \<and> access_lock (tsm k') = access_lock (tsm k) \<and> heap k' = heap k
     \<and> map fst (rcu_queue k') = map fst (rcu_queue k) \<and> next_addr k \<le> next_addr k'"

lemma neutral_refl [simp]: "neutral k k"
  by (simp add: neutral_def)

lemma neutral_trans: "neutral k k' \<Longrightarrow> neutral k' k'' \<Longrightarrow> neutral k k''"
  by (simp add: neutral_def)

lemma neutral_frame [simp]:
  "neutral k (module_get k') = neutral k k'" "neutral k (module_put k') = neutral k k'"
  "neutral k (set_first_free i k') = neutral k k'" "neutral k (dec_remaining k') = neutral k k'"
  "neutral k (inc_remaining k') = neutral k k'" "neutral k (rcu_read_lock th k') = neutral k k'"
  by (simp_all add: neutral_def module_get_def module_put_def set_first_free_def dec_remaining_def
      inc_remaining_def rcu_read_lock_def)

lemma neutral_unlock: "neutral k (rcu_read_unlock th k)"
  by (simp add: neutral_def rcu_read_unlock_def case_prod_unfold comp_def)

lemma neutral_core: "core k' = core k \<Longrightarrow> neutral k k'"
  using core_eqD [of k' k] by (simp add: neutral_def)

lemma neutral_views:
  assumes "neutral k k'"
  shows "entry k' = entry k" "held k' = held k" "pending k' = pending k" "heap k' = heap k"
    "table_shape k' = table_shape k" "distinct (map fst (rcu_queue k')) = distinct (map fst (rcu_queue k))"
  using assms by (auto simp: neutral_def entry_def held_def pending_def table_shape_def fun_eq_iff simp del: set_map)

lemma kinv_neutral:
  assumes "kinv k" "neutral k k'" shows "kinv k'"
proof -
  have "p < next_addr k \<Longrightarrow> p < next_addr k'" for p using assms(2) by (simp add: neutral_def)
  then show ?thesis
    using assms(1) unfolding kinv_def services_ok_def callbacks_ok_def neutral_views [OF assms(2)] by blast
qed

section \<open>What the invariant says of one service\<close>

lemma kinv_service:
  assumes "kinv k" "heap k p = Some t"
  shows "ts_wf (tag t) t" "p < next_addr k" "0 \<le> tag t" "tag t < 512" "entry k (nat (tag t)) = Some p"
    "length (level t) = 32" "flags_match p (pending k) t"
  using assms by (fastforce simp: kinv_def services_ok_def ts_wf_def)+

lemma kinv_entry: "kinv k \<Longrightarrow> i < 512 \<Longrightarrow> entry k i = Some p \<Longrightarrow> \<exists>t. heap k p = Some t \<and> tag t = int i"
  by (simp add: kinv_def services_ok_def)

lemma kinv_tag_unique: "kinv k \<Longrightarrow> heap k p = Some t \<Longrightarrow> heap k q = Some u \<Longrightarrow> tag t = tag u \<Longrightarrow> p = q"
  using kinv_service(5) by (metis option.inject)

lemma kinv_held:
  assumes "kinv k" "heap k p = Some t"
  shows "held k (tag t) \<longleftrightarrow> (\<exists>c \<in> pending k. cb_ptr c = p)"
proof
  assume "held k (tag t)"
  then obtain c u where "c \<in> pending k" "heap k (cb_ptr c) = Some u" "tag u = tag t"
    using assms(1) unfolding kinv_def callbacks_ok_def by blast
  then show "\<exists>c \<in> pending k. cb_ptr c = p" using kinv_tag_unique [OF assms(1) _ assms(2)] by blast
next
  assume "\<exists>c \<in> pending k. cb_ptr c = p"
  then show "held k (tag t)" using assms unfolding kinv_def callbacks_ok_def by force
qed

lemma kinv_idle:
  assumes "kinv k" "heap k p = Some t" "\<not> held k (tag t)"
  shows "\<And>n. n < 32 \<Longrightarrow> message_ready (level t ! n) \<noteq> READY" "awake_request t \<noteq> YES"
    "\<And>c. c \<in> pending k \<Longrightarrow> cb_ptr c \<noteq> p"
  using kinv_held [OF assms(1,2)] kinv_service(7) [OF assms(1,2)] assms(3)
  by (auto simp: flags_match_def dest: bspec [where x = "FreeAfterSend p m" for m])

text \<open>
  One service changes, and with it the callbacks on it and its lock: \<open>Q\<close> are the callbacks that are
  then pending on it.
\<close>

lemma kinv_update:
  assumes k: "kinv k" and t: "heap k p = Some t"
    and h: "heap k' = (heap k)(p \<mapsto> t')" "all_tag_services (tsm k') = all_tag_services (tsm k)"
      "length (access_lock (tsm k')) = 512" "next_addr k' = next_addr k"
    and t': "tag t' = tag t" "ts_wf (tag t) t'" "flags_match p Q t'" "Q \<noteq> {} \<Longrightarrow> lazy_deleted t' \<noteq> YES"
    and q: "distinct (map fst (rcu_queue k'))" "pending k' = {c \<in> pending k. cb_ptr c \<noteq> p} \<union> Q"
    and Q: "\<And>c. c \<in> Q \<Longrightarrow> cb_ptr c = p" "\<And>c c'. c \<in> Q \<Longrightarrow> c' \<in> Q \<Longrightarrow> c = c'"
      "\<And>lev. FreeAfterSend p lev \<in> Q \<Longrightarrow> 0 \<le> lev \<and> lev < 32"
    and hd: "\<And>i. held k' i = (if i = tag t then Q \<noteq> {} else held k i)"
  shows "kinv k'"
proof -
  have e: "entry k' = entry k" using h(2) by (simp add: entry_def fun_eq_iff)
  have sh: "table_shape k'" using k h(2,3) unfolding kinv_def table_shape_def e by simp
  have sv: "services_ok k'"
    using k t t'(1,2) unfolding kinv_def services_ok_def e h(1,4) by (auto; metis)
  have other: "heap k' q = Some u \<Longrightarrow> q \<noteq> p \<Longrightarrow> tag u \<noteq> tag t" for q u
    using kinv_tag_unique [OF k _ t] h(1) by auto
  have cb: "callbacks_ok k'"
    unfolding callbacks_ok_def
  proof (intro conjI ballI allI impI)
    fix c assume c: "c \<in> pending k'"
    show "\<exists>u. heap k' (cb_ptr c) = Some u \<and> held k' (tag u) \<and> lazy_deleted u \<noteq> YES"
    proof (cases "cb_ptr c = p")
      case True
      then have "Q \<noteq> {}" using c q(2) by auto
      then show ?thesis using True h(1) t'(1,4) hd by simp
    next
      case False
      then have "c \<in> pending k" using c q(2) Q(1) by auto
      then obtain u where u: "heap k (cb_ptr c) = Some u" "held k (tag u)" "lazy_deleted u \<noteq> YES"
        using k unfolding kinv_def callbacks_ok_def by blast
      then show ?thesis using False h(1) hd other [of "cb_ptr c" u] by auto
    qed
  next
    fix c c' assume "c \<in> pending k'" "c' \<in> pending k'" "cb_ptr c = cb_ptr c'"
    then show "c = c'" using k q(2) Q(1,2) unfolding kinv_def callbacks_ok_def by auto
  next
    fix q' lev assume "FreeAfterSend q' lev \<in> pending k'"
    then have "FreeAfterSend q' lev \<in> pending k \<or> FreeAfterSend p lev \<in> Q" using q(2) Q(1) by force
    then have "0 \<le> lev \<and> lev < 32" using k Q(3) unfolding kinv_def callbacks_ok_def by blast
    then show "0 \<le> lev" "lev < 32" by simp_all
  next
    fix i assume i: "held k' i"
    show "\<exists>c \<in> pending k'. \<exists>u. heap k' (cb_ptr c) = Some u \<and> tag u = i"
    proof (cases "i = tag t")
      case True
      then obtain c where "c \<in> Q" using i hd by auto
      then show ?thesis using True q(2) Q(1) h(1) t'(1) by (intro bexI [of _ c]) auto
    next
      case False
      then obtain c u where c: "c \<in> pending k" "heap k (cb_ptr c) = Some u" "tag u = i"
        using i hd k unfolding kinv_def callbacks_ok_def by force
      then have "cb_ptr c \<noteq> p" using False t by auto
      then show ?thesis using c q(2) h(1) by (intro bexI [of _ c]) auto
    qed
  qed (rule q(1))
  have fl: "flags_match q (pending k') u" if "heap k' q = Some u" for q u
  proof (cases "q = p")
    case True
    have "c \<in> pending k' \<longleftrightarrow> c \<in> Q" if "cb_ptr c = p" for c using q(2) that by auto
    then show ?thesis using True \<open>heap k' q = Some u\<close> h(1) t'(3) by (simp add: flags_match_def)
  next
    case False
    then have "flags_match q (pending k) u" using that h(1) kinv_service(7) [OF k] by simp
    moreover have "c \<in> pending k' \<longleftrightarrow> c \<in> pending k" if "cb_ptr c = q" for c
      using q(2) Q(1) that False by auto
    ultimately show ?thesis by (simp add: flags_match_def)
  qed
  show ?thesis using sh sv cb fl by (simp add: kinv_def)
qed

end
