(* ===== verification/Conc_Segments.thy ===== *)
theory Conc_Segments
  imports Conc_Invariant
begin

text \<open>
  What every piece of a system call and every callback does to the invariant of the kernel state, and
  what it leaves of the services that other threads point to.
\<close>

section \<open>What other threads rely on\<close>

definition same_owner :: "tag_service \<Rightarrow> tag_service \<Rightarrow> bool" where
  "same_owner t t' \<longleftrightarrow> tag t' = tag t \<and> key t' = key t \<and> permission t' = permission t \<and> owner_euid t' = owner_euid t
     \<and> (lazy_deleted t = YES \<longrightarrow> lazy_deleted t' = YES)"

definition same_service :: "tag_service \<Rightarrow> tag_service \<Rightarrow> bool" where
  "same_service t t' \<longleftrightarrow> same_owner t t' \<and> counts t' = counts t
     \<and> thread_waiting_message_count t' = thread_waiting_message_count t"

lemma same_service_refl [simp]: "same_service t t"
  by (simp add: same_service_def same_owner_def)

text \<open>
  Services keep their tag, key and owner, their counters and their deletion mark; new ones appear at new addresses
  without waiting threads; only those of \<open>D\<close> go away.
\<close>

definition evolves :: "nat set \<Rightarrow> kstate \<Rightarrow> kstate \<Rightarrow> bool" where
  "evolves D k k' \<longleftrightarrow> next_addr k \<le> next_addr k'
     \<and> (\<forall>q u. heap k' q = Some u \<longrightarrow> (\<exists>t. heap k q = Some t \<and> same_service t u)
          \<or> next_addr k \<le> q \<and> counts u = replicate 32 0 \<and> thread_waiting_message_count u = 0)
     \<and> (\<forall>q. heap k q \<noteq> None \<longrightarrow> q \<notin> D \<longrightarrow> heap k' q \<noteq> None)"

lemma evolves_neutral: "neutral k k' \<Longrightarrow> evolves {} k k'"
  by (auto simp: neutral_def evolves_def)

lemma evolves_update:
  "heap k p = Some t \<Longrightarrow> heap k' = (heap k)(p \<mapsto> t') \<Longrightarrow> next_addr k' = next_addr k \<Longrightarrow> same_service t t' \<Longrightarrow>
   evolves {} k k'"
  by (auto simp: evolves_def)

section \<open>Neutral pieces\<close>

lemma scan_entries_neutral: "scan_entries i n s = Inr s' \<Longrightarrow> neutral s s'"
  by (induction i n s rule: scan_entries.induct) (auto elim!: and_then_InrE split: if_splits)

lemma find_first_neutral: "find_first_entry_available s = Inr (i, s') \<Longrightarrow> neutral s s'"
  by (auto simp: find_first_entry_available_def elim!: and_then_InrE split: if_splits dest: scan_entries_neutral)

lemma neutral_get_put [simp]: "neutral (module_get k) k' = neutral k k'"
  by (simp add: neutral_def)

lemma tag_get_select_neutral: "tag_get_select ky c perm k = Inr (x, k') \<Longrightarrow> neutral k k'"
  by (auto simp: tag_get_select_def Let_def elim!: and_then_InrE split: if_splits dest!: find_first_neutral)

lemma tag_get_device_neutral: "tag_get_device e i k = Inr (r, k') \<Longrightarrow> neutral k k'"
  by (auto simp: tag_get_device_def elim!: and_then_InrE dest!: drv.create_client neutral_core)

lemma tag_ctl_destroy_core: "tag_ctl_destroy p k = Inr k' \<Longrightarrow> core k' = core k \<and> driver_wf k' = driver_wf k \<and> dev_held k' = dev_held k"
  by (auto simp: tag_ctl_destroy_def elim!: and_then_InrE dest: drv.destroy_client destroy_driver_wf)

lemma tag_ctl_destroy_neutral: "tag_ctl_destroy p k = Inr k' \<Longrightarrow> neutral k k'"
  using tag_ctl_destroy_core neutral_core by blast

lemma tag_send_enter_neutral: "tag_send_enter e i lev u sz k = Inr (x, k') \<Longrightarrow> neutral k k'"
  by (auto simp: tag_send_enter_def Let_def elim!: and_then_InrE split: if_splits option.splits prod.splits)

lemma tag_receive_check_neutral: "tag_receive_check e i lev u k = Inr (x, k') \<Longrightarrow> neutral k k'"
  by (auto simp: tag_receive_check_def Let_def elim!: and_then_InrE split: if_splits option.splits)

lemma tag_ctl_enter_neutral: "tag_ctl_enter i c k = Inr (x, k') \<Longrightarrow> neutral k k'"
  by (auto simp: tag_ctl_enter_def Let_def elim!: and_then_InrE split: if_splits option.splits)

text \<open>Taking a lock and giving it back.\<close>

lemma mutex_lock_state:
  "mutex_lock i k = Inr k1 \<Longrightarrow> k1 = locked i k \<and> \<not> held k i \<and> in_range (access_lock (tsm k)) i"
  using mutex_lock_InrD [of i k k1] by (simp add: locked_def)

lemma locked_frame [simp]:
  "heap (locked i k) = heap k" "next_addr (locked i k) = next_addr k" "rcu_queue (locked i k) = rcu_queue k"
  "rcu_readers (locked i k) = rcu_readers k" "entry (locked i k) = entry k"
  "all_tag_services (tsm (locked i k)) = all_tag_services (tsm k)" "module_refs (locked i k) = module_refs k"
  "remaining_entries (tsm (locked i k)) = remaining_entries (tsm k)" "dm (locked i k) = dm k"
  "live (locked i k) = live k"
  by (simp_all add: locked_def entry_def fun_eq_iff)

lemma locked_range [simp]: "in_range (access_lock (tsm (locked i k))) j = in_range (access_lock (tsm k)) j"
  by (simp add: locked_def)

lemma unlock_locked:
  assumes "\<not> held k i" "in_range (access_lock (tsm k)) i"
  shows "(access_lock (tsm (locked i k)))[nat i := False] = access_lock (tsm k)"
proof -
  have "\<not> access_lock (tsm k) ! nat i" using assms by (simp add: held_def held_at_def)
  then have "(access_lock (tsm k))[nat i := False] = access_lock (tsm k)" by (metis (full_types) list_update_id)
  then show ?thesis by (simp add: locked_def)
qed

lemma held_locked: "in_range (access_lock (tsm k)) i \<Longrightarrow> held (locked i k) j = (j = i \<or> held k j)"
  by (simp add: held_def held_at_update locked_def)

lemma neutral_lock_unlock:
  "\<not> held k i \<Longrightarrow> in_range (access_lock (tsm k)) i \<Longrightarrow> next_addr k \<le> n \<Longrightarrow>
   neutral k (unlocked i ((locked i k)\<lparr>next_addr := n, live := L\<rparr>))"
  "\<not> held k i \<Longrightarrow> in_range (access_lock (tsm k)) i \<Longrightarrow> neutral k (unlocked i (locked i k))"
  using unlock_locked [of k i] by (simp_all add: neutral_def unlocked_def locked_def)

section \<open>\<open>tag_get\<close> under the lock\<close>

lemma create_fails_neutral:
  assumes "tag_get_create e ky perm i (locked i k) = Inr (Some r, k')" "\<not> held k i" "in_range (access_lock (tsm k)) i"
  shows "neutral k k'"
proof -
  let ?p = "next_addr k"
  let ?s1 = "kmark (TsObj ?p) ((locked i k)\<lparr>next_addr := ?p + 1\<rparr>)"
  obtain good m ls s2 where il: "init_levels e ?p i 0 32 [] (kmark (LevelsObj ?p) ?s1) = (good, m, ls, s2)"
    by (metis prod_cases4)
  have s2: "s2 = (kmark (LevelsObj ?p) ?s1)\<lparr>live := live (kmark (LevelsObj ?p) ?s1) \<union> MessageObj ?p ` {0..<m}\<rparr>"
    using init_levels_effect [OF il] by simp
  have u: "neutral k (unlocked i ((locked i k)\<lparr>next_addr := n, live := L\<rparr>))" if "?p \<le> n" for n L
    using neutral_lock_unlock(1) [OF assms(2,3)] that .
  have v: "neutral k (module_put ((unlocked i ((locked i k)\<lparr>next_addr := n, live := L\<rparr>))\<lparr>live := L'\<rparr>))"
    if "?p \<le> n" for n L L'
    using u [OF that, of L] by (simp add: neutral_def)
  show ?thesis
    using assms(1) il v [of ?p "live k"] v [of "?p + 1"] neutral_lock_unlock(2) [OF assms(2,3)]
    by (auto simp: tag_get_create_def Let_def mutex_unlock_eq s2 kmark_def fail_no_mem_effect
        elim!: and_then_InrE split: if_splits)
qed

lemma tag_get_locked_neutral:
  assumes "tag_get_locked e ky c perm i k = Inr (Some r, k')" shows "neutral k k'"
proof -
  obtain k1 where l: "mutex_lock i k = Inr k1" using assms by (auto simp: tag_get_locked_def elim!: and_then_InrE)
  note L = mutex_lock_state [OF l]
  have n: "neutral k (module_put (unlocked i k1))" using neutral_lock_unlock(2) [of k i] L by simp
  show ?thesis
    using assms l L n create_fails_neutral [of e ky perm i k r k']
    by (auto simp: tag_get_locked_def mutex_unlock_eq elim!: and_then_InrE dest: tag_get_open_state split: if_splits)
qed

text \<open>A creation puts a service without threads at a new address.\<close>

lemma created_service:
  "ts_wf i (new_service e ky i perm (replicate 32 (new_level i)))"
  "counts (new_service e ky i perm (replicate 32 (new_level i))) = replicate 32 0"
  "thread_waiting_message_count (new_service e ky i perm (replicate 32 (new_level i))) = 0"
  "tag (new_service e ky i perm (replicate 32 (new_level i))) = i"
  "\<forall>n<32. message_ready (level (new_service e ky i perm (replicate 32 (new_level i))) ! n) \<noteq> READY"
  "awake_request (new_service e ky i perm (replicate 32 (new_level i))) \<noteq> YES"
  by (rule ts_wf_new, rule counts_new, simp_all add: new_service_def new_level_def)

lemma tag_get_create_kinv:
  assumes k: "kinv k" and c: "tag_get_locked e ky CREATE_TAG perm i k = Inr (None, k')"
  shows "kinv k' \<and> evolves {} k k' \<and> 0 \<le> i \<and> i < 512 \<and> entry k (nat i) = None \<and> heap k (next_addr k) = None
    \<and> heap k' = (heap k)(next_addr k \<mapsto> new_service e ky i perm (replicate 32 (new_level i)))"
proof -
  let ?p = "next_addr k" and ?t = "new_service e ky i perm (replicate 32 (new_level i))"
  obtain k1 where l: "mutex_lock i k = Inr k1" and c1: "tag_get_create e ky perm i k1 = Inr (None, k')"
    using c by (auto simp: tag_get_locked_def elim!: and_then_InrE)
  note L = mutex_lock_state [OF l]
  have sh: "length (all_tag_services (tsm k)) = 4096" "length (access_lock (tsm k)) = 512"
    "\<And>j. 512 \<le> j \<Longrightarrow> j < 4096 \<Longrightarrow> entry k j = None"
    using k by (auto simp: kinv_def table_shape_def)
  have i: "0 \<le> i" "nat i < 512" using L sh(2) by (auto simp: in_range_def)
  note S = tag_get_create_succeeds [OF c1]
  have e: "entry k (nat i) = None" using S L by simp
  have v: "all_tag_services (tsm k') = (all_tag_services (tsm k))[nat i := Some ?p]"
    "access_lock (tsm k') = access_lock (tsm k)" "heap k' = (heap k)(?p \<mapsto> ?t)"
    "rcu_queue k' = rcu_queue k" "next_addr k' = Suc ?p"
    using S L unlock_locked [of k i] by (simp_all add: unlocked_def)
  have en: "entry k' j = (if j = nat i then Some ?p else entry k j)" if "j < 4096" for j
    using that sh(1) v(1) by (simp add: entry_def nth_list_update)
  have hd: "held k' = held k" and pd: "pending k' = pending k" using v by (simp_all add: held_def pending_def fun_eq_iff)
  have new: "heap k ?p = None" using kinv_service(2) [OF k, of ?p] by (cases "heap k ?p") auto
  have np: "cb_ptr c \<noteq> ?p" if "c \<in> pending k" for c
    using k that new unfolding kinv_def callbacks_ok_def by force
  have "table_shape k'" using sh v en i by (auto simp: table_shape_def)
  moreover have "services_ok k'"
    unfolding services_ok_def
  proof (intro conjI allI impI)
    fix j q assume j: "j < 512" "entry k' j = Some q"
    show "\<exists>t. heap k' q = Some t \<and> tag t = int j"
    proof (cases "j = nat i")
      case True
      then show ?thesis using j en v(3) i created_service(4) by simp
    next
      case False
      then obtain t where "heap k q = Some t" "tag t = int j" using kinv_entry [OF k j(1)] j en by auto
      then show ?thesis using v(3) new by auto
    qed
  next
    fix q t assume q: "heap k' q = Some t"
    show "ts_wf (tag t) t" "q < next_addr k'"
      using q v kinv_service(1,2) [OF k, of q] created_service(1,4) by (auto split: if_splits dest: less_SucI)
    show "\<exists>j<512. tag t = int j \<and> entry k' j = Some q"
    proof (cases "q = ?p")
      case True
      then show ?thesis using q v(3) i en created_service(4) by (intro exI [of _ "nat i"]) auto
    next
      case False
      then have t: "heap k q = Some t" using q v(3) by simp
      then have "nat (tag t) \<noteq> nat i" using kinv_service(5) [OF k t] e by auto
      then show ?thesis
        using kinv_service [OF k t] en by (intro exI [of _ "nat (tag t)"]) auto
    qed
  qed
  moreover have hp: "heap k' (cb_ptr c) = heap k (cb_ptr c)" if "c \<in> pending k" for c
    using np [OF that] v(3) by simp
  have "callbacks_ok k'"
    using k unfolding kinv_def callbacks_ok_def hd pd v(4) by (simp add: hp cong: ball_cong bex_cong)
  moreover have "flags_match q (pending k') t" if "heap k' q = Some t" for q t
  proof (cases "q = ?p")
    case True
    then show ?thesis using that v(3) np created_service(5,6) unfolding pd flags_match_def by fastforce
  next
    case False
    then show ?thesis using that v(3) kinv_service(7) [OF k] pd by simp
  qed
  ultimately have "kinv k'" using \<open>callbacks_ok k'\<close> by (simp add: kinv_def)
  moreover have "evolves {} k k'" using v(3,5) created_service(2,3) by (auto simp: evolves_def)
  ultimately show ?thesis using i e new v(3) by simp
qed

section \<open>Receivers: the counters\<close>

text \<open>The callbacks on a service whose flags and lock stay as they are.\<close>

lemma kinv_same_flags:
  assumes k: "kinv k" and t: "heap k p = Some t" and h: "neutral (k\<lparr>heap := (heap k)(p \<mapsto> t')\<rparr>) k'" "next_addr k' = next_addr k"
    and t': "tag t' = tag t" "ts_wf (tag t) t'" "awake_request t' = awake_request t" "lazy_deleted t' = lazy_deleted t"
      "\<And>n. n < 32 \<Longrightarrow> message_ready (level t' ! n) = message_ready (level t ! n)"
  shows "kinv k'"
proof -
  let ?Q = "{c \<in> pending k. cb_ptr c = p}"
  have v: "held k' = held k" "pending k' = pending k" "distinct (map fst (rcu_queue k')) = distinct (map fst (rcu_queue k))"
    "heap k' = (heap k)(p \<mapsto> t')" "access_lock (tsm k') = access_lock (tsm k)"
    "all_tag_services (tsm k') = all_tag_services (tsm k)"
    using neutral_views [OF h(1)] h(1) by (simp_all add: pending_def neutral_def)
  have cb: "callbacks_ok k" using k by (simp add: kinv_def)
  show ?thesis
  proof (rule kinv_update [OF k t])
    show "flags_match p ?Q t'" using kinv_service(7) [OF k t] t'(3,5) by (simp add: flags_match_def)
    show "lazy_deleted t' \<noteq> YES" if "?Q \<noteq> {}" using that cb t t'(4) unfolding callbacks_ok_def by fastforce
    show "pending k' = {c \<in> pending k. cb_ptr c \<noteq> p} \<union> ?Q" using v(2) by auto
    show "held k' i = (if i = tag t then ?Q \<noteq> {} else held k i)" for i using kinv_held [OF k t] v(1) by auto
    show "length (access_lock (tsm k')) = 512" using k v(5) by (simp add: kinv_def table_shape_def)
    show "c = c'" if "c \<in> ?Q" "c' \<in> ?Q" for c c' using that cb unfolding callbacks_ok_def by auto
    show "0 \<le> lev \<and> lev < 32" if "FreeAfterSend p lev \<in> ?Q" for lev
      using that cb unfolding callbacks_ok_def by blast
    show "distinct (map fst (rcu_queue k'))" using cb v(3) by (simp add: callbacks_ok_def)
  qed (use v t' h(2) in auto)
qed

text \<open>What a service is after one of its two counters changed.\<close>

definition recounted :: "int \<Rightarrow> (64 word \<Rightarrow> 64 word) \<Rightarrow> tag_service \<Rightarrow> tag_service" where
  "recounted lev f t = put_level lev ((level t ! nat lev)\<lparr>thread_waiting := f (thread_waiting (level t ! nat lev))\<rparr>) t"

lemma count_recounted:
  "length (level t) = 32 \<Longrightarrow> 0 \<le> lev \<Longrightarrow> lev < 32 \<Longrightarrow> count_level f lev t = Inr (recounted lev f t)"
  by (simp add: count_level_def recounted_def get_level_ok)

lemma recounted_fields [simp]:
  "tag (recounted lev f t) = tag t" "lazy_deleted (recounted lev f t) = lazy_deleted t"
  "awake_request (recounted lev f t) = awake_request t" "same_owner t (recounted lev f t)"
  "thread_waiting_message_count (recounted lev f t) = thread_waiting_message_count t"
  "length (level (recounted lev f t)) = length (level t)"
  by (simp_all add: recounted_def put_level_def same_owner_def)

lemma count_total_fields [simp]:
  "tag (count_total f t) = tag t" "lazy_deleted (count_total f t) = lazy_deleted t"
  "awake_request (count_total f t) = awake_request t" "same_owner t (count_total f t)"
  "thread_waiting_message_count (count_total f t) = f (thread_waiting_message_count t)"
  "level (count_total f t) = level t" "counts (count_total f t) = counts t" "ts_wf i (count_total f t) = ts_wf i t"
  by (simp_all add: count_total_def same_owner_def counts_def ts_wf_def)

lemma recounted_ready: "length (level t) = 32 \<Longrightarrow> n < 32 \<Longrightarrow>
  message_ready (level (recounted lev f t) ! n) = message_ready (level t ! n)"
  by (cases "n = nat lev") (simp_all add: recounted_def put_level_def)

lemma counts_recounted: "length (level t) = 32 \<Longrightarrow> 0 \<le> lev \<Longrightarrow> lev < 32 \<Longrightarrow>
  counts (recounted lev f t) = (counts t)[nat lev := unat (f (thread_waiting (level t ! nat lev)))]"
  by (simp add: recounted_def counts_put_level)

lemma ts_wf_recounted: "ts_wf i t \<Longrightarrow> 0 \<le> lev \<Longrightarrow> lev < 32 \<Longrightarrow> ts_wf i (recounted lev f t)"
  using ts_wf_put_level [of i t lev _ "thread_waiting_message_count t"] by (simp add: recounted_def)

text \<open>The two instructions, on the kernel state.\<close>

definition service_becomes :: "nat \<Rightarrow> tag_service \<Rightarrow> tag_service \<Rightarrow> kstate \<Rightarrow> kstate \<Rightarrow> bool" where
  "service_becomes p t t' k k' \<longleftrightarrow> heap k p = Some t \<and> k' = put_ts p t' k"

lemma kinv_put_same_flags:
  assumes k: "kinv k" and b: "service_becomes p t t' k k'"
    and t': "tag t' = tag t" "ts_wf (tag t) t'" "awake_request t' = awake_request t" "lazy_deleted t' = lazy_deleted t"
      "\<And>n. n < 32 \<Longrightarrow> message_ready (level t' ! n) = message_ready (level t ! n)"
  shows "kinv k'" "heap k' = (heap k)(p \<mapsto> t')" "next_addr k' = next_addr k"
proof -
  have h: "heap k p = Some t" "k' = put_ts p t' k" using b by (simp_all add: service_becomes_def)
  show "heap k' = (heap k)(p \<mapsto> t')" "next_addr k' = next_addr k" by (simp_all add: h(2) put_ts_def)
  have "neutral (k\<lparr>heap := (heap k)(p \<mapsto> t')\<rparr>) k'" by (simp add: h(2) put_ts_def neutral_def)
  then show "kinv k'" using kinv_same_flags [OF k h(1) _ _ t'] by (simp add: h(2) put_ts_def)
qed

lemma receive_total_state:
  assumes "tag_receive_total f p k = Inr k'"
  obtains t where "service_becomes p t (count_total f t) k k'"
  using assms by (auto simp: tag_receive_total_def get_ts_def service_becomes_def elim!: and_then_InrE split: option.splits)

lemma receive_level_state:
  assumes "kinv k" "tag_receive_level f lev p k = Inr k'" "0 \<le> lev" "lev < 32"
  obtains t where "service_becomes p t (recounted lev f t) k k'"
proof -
  obtain t t' where t: "heap k p = Some t" "count_level f lev t = Inr t'" "k' = put_ts p t' k" using assms(2)
    by (auto simp: tag_receive_level_def get_ts_def elim!: and_then_InrE split: option.splits)
  then show thesis using that count_recounted [OF kinv_service(6) [OF assms(1) t(1)] assms(3,4), of f]
    by (simp add: service_becomes_def)
qed

lemma receive_total_kinv:
  assumes "kinv k" "service_becomes p t (count_total f t) k k'"
  shows "kinv k'" "heap k' = (heap k)(p \<mapsto> count_total f t)" "next_addr k' = next_addr k"
proof -
  have "heap k p = Some t" using assms(2) by (simp add: service_becomes_def)
  note w = kinv_service(1) [OF assms(1) this]
  show "kinv k'" "heap k' = (heap k)(p \<mapsto> count_total f t)" "next_addr k' = next_addr k"
    by (rule kinv_put_same_flags [OF assms]; simp add: w)+
qed

lemma receive_level_kinv:
  assumes "kinv k" "service_becomes p t (recounted lev f t) k k'" "0 \<le> lev" "lev < 32"
  shows "kinv k'" "heap k' = (heap k)(p \<mapsto> recounted lev f t)" "next_addr k' = next_addr k"
proof -
  have "heap k p = Some t" using assms(2) by (simp add: service_becomes_def)
  note w = kinv_service(1,6) [OF assms(1) this]
  show "kinv k'" "heap k' = (heap k)(p \<mapsto> recounted lev f t)" "next_addr k' = next_addr k"
    by (rule kinv_put_same_flags [OF assms(1,2)]; simp add: ts_wf_recounted recounted_ready w assms(3,4))+
qed

text \<open>The rest of \<open>update_chrdev\<close> and the reads of a device touch the device only.\<close>

lemma update_parts_core:
  "update_free e lev a n k = Inr (x, k') \<Longrightarrow> core k' = core k" "update_assign j new k = Inr k' \<Longrightarrow> core k' = core k"
  by (auto simp: update_free_def update_assign_def elim!: and_then_InrE dest!: core_dev_lock core_dev_unlock)

lemma update_parts_neutral:
  "update_free e lev a n k = Inr (x, k') \<Longrightarrow> neutral k k'" "update_assign j new k = Inr k' \<Longrightarrow> neutral k k'"
  using update_parts_core neutral_core by blast+

lemma ts_read_locked_client:
  assumes "ts_read_locked killed d u n f b k = Inr (x, k')"
  shows "core k' = core k \<and> dev_held k' = dev_held k \<and> driver_wf k' = driver_wf k"
proof -
  have "k' = k \<or> (\<exists>i k1. dev_lock i k = Inr k1 \<and> dev_unlock i k1 = Inr k')"
    using assms by (auto simp: ts_read_locked_def Let_def elim!: and_then_InrE split: if_splits)
  then show ?thesis
  proof (elim disjE exE conjE)
    fix i k1 assume l: "dev_lock i k = Inr k1" "dev_unlock i k1 = Inr k'"
    then show ?thesis
      using dev_section_core [OF l] dev_section_held [OF l] driver_wf_dev_lock [OF l(1)] driver_wf_dev_unlock [OF l(2)] by simp
  qed simp
qed

lemma ts_read_locked_neutral: "ts_read_locked killed d u n f b k = Inr (x, k') \<Longrightarrow> neutral k k'"
  using ts_read_locked_client neutral_core by blast

end
