(* ===== verification/Conc_Sections.thy ===== *)
theory Conc_Sections
  imports Conc_Segments
begin

text \<open>
  The critical sections of \<open>tag_send\<close> and \<open>tag_ctl\<close> and the RCU callbacks, under the invariant of the
  kernel state: a section either keeps its lock and leaves one callback pending, or gives it back with
  every flag down; a callback gives back the lock that its section kept.
\<close>

section \<open>Keeping a lock and giving it back\<close>

lemma kinv_tag_range: "kinv k \<Longrightarrow> heap k p = Some t \<Longrightarrow> in_range (access_lock (tsm k)) (tag t)"
  using kinv_service(3,4) [of k p t] by (simp add: kinv_def table_shape_def in_range_def)

lemma kinv_keep_lock:
  assumes k: "kinv k" "heap k p = Some t" "\<not> held k (tag t)"
    and t': "tag t' = tag t" "ts_wf (tag t) t'" "lazy_deleted t' \<noteq> YES" "flags_match p {c} t'"
    and c: "cb_ptr c = p" "\<And>lev. c = FreeAfterSend p lev \<Longrightarrow> 0 \<le> lev \<and> lev < 32"
    and k': "k' = module_put (call_rcu c (put_ts p t' (locked (tag t) k)))"
  shows "kinv k' \<and> heap k' = (heap k)(p \<mapsto> t') \<and> next_addr k' = next_addr k"
proof -
  have v: "heap k' = (heap k)(p \<mapsto> t')" "next_addr k' = next_addr k"
    "all_tag_services (tsm k') = all_tag_services (tsm k)"
    "access_lock (tsm k') = (access_lock (tsm k))[nat (tag t) := True]"
    "pending k' = insert c (pending k)" "map fst (rcu_queue k') = map fst (rcu_queue k) @ [c]"
    unfolding k' by (simp_all add: module_put_def call_rcu_def put_ts_def pending_def locked_def)
  have np: "cb_ptr d \<noteq> p" if "d \<in> pending k" for d using kinv_idle(3) [OF k that] .
  have "kinv k'"
  proof (rule kinv_update [OF k(1,2) v(1,3) _ v(2)])
    show "length (access_lock (tsm k')) = 512" using k(1) v(4) by (simp add: kinv_def table_shape_def)
    show "pending k' = {d \<in> pending k. cb_ptr d \<noteq> p} \<union> {c}" using v(5) np by auto
    have "c \<notin> pending k" using np c(1) by auto
    then show "distinct (map fst (rcu_queue k'))"
      using k(1) unfolding v(6) by (simp add: kinv_def callbacks_ok_def pending_def)
    show "held k' i = (if i = tag t then {c} \<noteq> {} else held k i)" for i
      using held_at_update [OF kinv_tag_range [OF k(1,2)]] v(4) by (simp add: held_def)
  qed (use t' c in auto)
  then show ?thesis using v by simp
qed

text \<open>A section or a callback that leaves nothing pending on the service and its lock free.\<close>

lemma kinv_released:
  assumes k: "kinv k" "heap k p = Some t"
    and t': "tag t' = tag t" "ts_wf (tag t) t'" "flags_match p {} t'"
    and v: "heap k' = (heap k)(p \<mapsto> t')" "next_addr k' = next_addr k"
      "all_tag_services (tsm k') = all_tag_services (tsm k)"
      "access_lock (tsm k') = (access_lock (tsm k))[nat (tag t) := False]"
    and q: "distinct (map fst (rcu_queue k'))" "pending k' = {c \<in> pending k. cb_ptr c \<noteq> p}"
  shows "kinv k'"
proof (rule kinv_update [OF k v(1,3) _ v(2)])
  show "length (access_lock (tsm k')) = 512" using k(1) v(4) by (simp add: kinv_def table_shape_def)
  show "held k' i = (if i = tag t then {} \<noteq> ({} :: rcu_cb set) else held k i)" for i
    using held_at_update [OF kinv_tag_range [OF k]] v(4) by (simp add: held_def)
qed (use t' q in auto)

lemma kinv_unlocked:
  assumes k: "kinv k" "heap k p = Some t" "\<not> held k (tag t)"
    and t': "tag t' = tag t" "ts_wf (tag t) t'" "flags_match p {} t'"
    and k': "neutral (unlocked (tag t) (put_ts p t' (locked (tag t) k))) k'" "next_addr k' = next_addr k"
  shows "kinv k' \<and> heap k' = (heap k)(p \<mapsto> t')"
proof -
  have v: "heap k' = (heap k)(p \<mapsto> t')" "all_tag_services (tsm k') = all_tag_services (tsm k)"
    "access_lock (tsm k') = (access_lock (tsm k))[nat (tag t) := False]"
    "map fst (rcu_queue k') = map fst (rcu_queue k)"
    using k'(1) by (simp_all add: neutral_def put_ts_def unlocked_def locked_def)
  have "distinct (map fst (rcu_queue k'))" using k(1) unfolding v(4) by (simp add: kinv_def callbacks_ok_def)
  moreover have "pending k' = {c \<in> pending k. cb_ptr c \<noteq> p}"
    using kinv_idle(3) [OF k] v(4) by (auto simp: pending_def)
  ultimately show ?thesis using kinv_released [OF k(1,2) t' v(1) k'(2) v(2,3)] v(1) by blast
qed

text \<open>Taking the lock of a service tells that no callback waits on it and that its flags are down.\<close>

lemma section_start:
  assumes "kinv k" "mutex_lock i k = Inr k1" "heap k p = Some t" "tag t = i"
  shows "k1 = locked i k" "\<not> held k i" "flags_match p {} t" "ts_wf i t" "length (level t) = 32"
proof -
  note L = mutex_lock_state [OF assms(2)]
  show "k1 = locked i k" "\<not> held k i" using L by simp_all
  show "flags_match p {} t"
    using kinv_idle [OF assms(1,3)] L assms(4) by (simp add: flags_match_def)
  show "ts_wf i t" "length (level t) = 32" using kinv_service [OF assms(1,3)] assms(4) by simp_all
qed

text \<open>A level is replaced and the flag of no other level changes.\<close>

lemma ts_wf_level: "ts_wf i t \<Longrightarrow> 0 \<le> lev \<Longrightarrow> lev < 32 \<Longrightarrow> level_wf i l \<Longrightarrow> ts_wf i (put_level lev l t)"
  by (auto simp: ts_wf_def put_level_def dest: set_update_subset_insert [THEN subsetD])

lemma level_wf_at: "ts_wf i t \<Longrightarrow> 0 \<le> lev \<Longrightarrow> lev < 32 \<Longrightarrow> level_wf i (level t ! nat lev)"
  by (simp add: ts_wf_def nat_less_iff)

lemma flags_put_level:
  assumes "flags_match p P t" "length (level t) = 32" "0 \<le> lev" "lev < 32"
    and "(message_ready l = READY) = (FreeAfterSend p lev \<in> P')"
    and "\<And>m. m \<noteq> lev \<Longrightarrow> (FreeAfterSend p m \<in> P') = (FreeAfterSend p m \<in> P)"
    and "(ResetAwake p \<in> P') = (ResetAwake p \<in> P)"
  shows "flags_match p P' (put_level lev l t)"
  unfolding flags_match_def
proof (intro conjI allI impI)
  fix n :: nat assume n: "n < 32"
  show "(message_ready (level (put_level lev l t) ! n) = READY) = (FreeAfterSend p (int n) \<in> P')"
    using assms n by (cases "n = nat lev") (auto simp: put_level_def flags_match_def)
next
  show "(awake_request (put_level lev l t) = YES) = (ResetAwake p \<in> P')"
    using assms(1,7) by (simp add: put_level_def flags_match_def)
qed

lemma same_service_level:
  assumes "length (level t) = 32" "0 \<le> lev" "lev < 32" "thread_waiting l = thread_waiting (level t ! nat lev)"
  shows "same_service t (put_level lev l t)"
proof -
  have "counts (put_level lev l t) = (counts t)[nat lev := counts t ! nat lev]"
    using counts_put_level [OF assms(1-3)] assms by (simp add: counts_def nat_less_iff)
  then show ?thesis by (simp add: same_service_def same_owner_def put_level_def)
qed

section \<open>\<open>tag_send\<close>\<close>

lemma memset0_InrD: "memset0 b n = Inr m \<Longrightarrow> n \<le> length b \<and> m = replicate n NUL @ drop n b"
  by (auto simp: memset0_def split: if_splits)

lemma store_message_InrD:
  assumes "store_message page n l = Inr l'" "level_wf i l"
  shows "level_wf i l'" "message_ready l' = READY" "thread_waiting l' = thread_waiting l"
  using assms by (auto simp: store_message_def memcpy_def level_wf_def elim!: and_then_InrE dest!: arr_set_InrD
      split: if_splits)

lemma send_refused_neutral:
  assumes "\<not> held k i" "in_range (access_lock (tsm k)) i" "mutex_unlock i (locked i k) = Inr s"
  shows "neutral k (module_put s)"
  using assms neutral_lock_unlock(2) [OF assms(1,2)] by (simp add: mutex_unlock_eq)

lemma send_locked_cases:
  assumes k: "kinv k" and c: "tag_send_locked e i lev p page n sz k = Inr (r, k')"
    and lev: "0 \<le> lev" "lev < 32" and tg: "\<forall>t. heap k p = Some t \<longrightarrow> tag t = i"
  obtains "neutral k k'" "k' = module_put (unlocked i (locked i k))"
  | t l where "heap k p = Some t" "tag t = i" "\<not> held k i" "level_wf i l" "flags_match p {} t" "ts_wf i t"
      "thread_waiting l = thread_waiting (level t ! nat lev)" "message_ready l = READY"
      "lazy_deleted t \<noteq> YES" "0 < thread_waiting_message_count t"
      "k' = module_put (call_rcu (FreeAfterSend p lev) (put_ts p (put_level lev l t) (locked i k)))"
  | t l where "heap k p = Some t" "tag t = i" "\<not> held k i" "level_wf i l" "flags_match p {} t" "ts_wf i t"
      "thread_waiting l = thread_waiting (level t ! nat lev)" "message_ready l = NOT_READY"
      "message l = replicate 4096 NUL" "k' = module_put (unlocked i (put_ts p (put_level lev l t) (locked i k)))"
proof -
  obtain k1 t where l: "mutex_lock i k = Inr k1" and g: "get_ts k1 p = Inr t"
    using c by (auto simp: tag_send_locked_def elim!: and_then_InrE)
  have L: "k1 = locked i k" "\<not> held k i" "in_range (access_lock (tsm k)) i" using mutex_lock_state [OF l] by simp_all
  have t: "heap k p = Some t" "tag t = i" using g L(1) tg by (auto simp: get_ts_def split: option.splits)
  note S = section_start [OF k l t]
  have gl: "get_level t lev = Inr (level t ! nat lev)" using get_level_ok [OF S(5) lev] .
  note wl = level_wf_at [OF S(4) lev]
  have c': "tag_send_locked e i lev p page n sz k =
    (if lazy_deleted t = YES \<or> owner_euid t \<noteq> euid e \<and> permission t = ONLY_OWNER then
       and_then (mutex_unlock i (locked i k)) (\<lambda>s. Inr (if lazy_deleted t = YES then - EBADF else - EACCES, module_put s))
     else and_then (store_message page n (level t ! nat lev)) (\<lambda>l. and_then
         (if thread_waiting_message_count t > 0 then
            Inr (call_rcu (FreeAfterSend p lev) (put_ts p (put_level lev l t) (locked i k)))
          else
            and_then (memset0 (message l) MAX_MESSAGE_SIZE) (\<lambda>m.
              mutex_unlock i
                (put_ts p (put_level lev (l\<lparr>message_ready := NOT_READY, message := m\<rparr>) t) (locked i k))))
         (\<lambda>s. Inr (if sz > MAX_MESSAGE_SIZE - 1 then - EMSGSIZE else 0, module_put s))))"
    using l g gl L(1) by (simp add: tag_send_locked_def)
  show thesis
  proof (cases "lazy_deleted t = YES \<or> owner_euid t \<noteq> euid e \<and> permission t = ONLY_OWNER")
    case True
    then obtain s where "mutex_unlock i (locked i k) = Inr s" "k' = module_put s" using c unfolding c'
      by (auto elim!: and_then_InrE)
    then show thesis using that(1) send_refused_neutral [OF L(2,3)] by (simp add: mutex_unlock_eq split: if_splits)
  next
    case False
    then obtain l' where l': "store_message page n (level t ! nat lev) = Inr l'"
      using c unfolding c' by (auto elim!: and_then_InrE)
    note W = store_message_InrD [OF l' wl]
    show thesis
    proof (cases "thread_waiting_message_count t > 0")
      case True
      then show thesis using False c l' W S t unfolding c' by (intro that(2) [of t l']) auto
    next
      case F: False
      obtain m where m: "memset0 (message l') 4096 = Inr m" using False F c l' unfolding c'
        by (auto elim!: and_then_InrE)
      have z: "m = replicate 4096 NUL" using memset0_InrD [OF m] W(1) by (simp add: level_wf_def)
      then have w: "level_wf i (l'\<lparr>message_ready := NOT_READY, message := m\<rparr>)"
        using W(1) z by (simp add: level_wf_def)
      show thesis using False F c l' W(3) S t m w z unfolding c'
        by (intro that(3) [of t "l'\<lparr>message_ready := NOT_READY, message := m\<rparr>"])
          (auto simp: mutex_unlock_eq split: if_splits)
    qed
  qed
qed

lemma send_locked_kinv:
  assumes k: "kinv k" and c: "tag_send_locked e i lev p page n sz k = Inr (r, k')"
    and lev: "0 \<le> lev" "lev < 32" and tg: "\<forall>t. heap k p = Some t \<longrightarrow> tag t = i"
  shows "kinv k' \<and> evolves {} k k' \<and> dom (heap k') = dom (heap k)"
  using send_locked_cases [OF k c lev tg]
proof cases
  case 1
  then show ?thesis using k kinv_neutral evolves_neutral neutral_views(4) by metis
next
  case (2 t l)
  have len: "length (level t) = 32" using 2(6) by (simp add: ts_wf_def)
  have "flags_match p {FreeAfterSend p lev} (put_level lev l t)"
    using 2(5,8) flags_put_level [OF _ len lev] by simp
  from kinv_keep_lock [OF k 2(1) _ _ _ _ this] 2 lev
  have "kinv k' \<and> heap k' = (heap k)(p \<mapsto> put_level lev l t) \<and> next_addr k' = next_addr k"
    using ts_wf_level [OF 2(6) lev 2(4)] by (simp add: put_level_def)
  then show ?thesis using evolves_update [OF 2(1) _ _ same_service_level [OF len lev 2(7)]] 2(1) by auto
next
  case (3 t l)
  have len: "length (level t) = 32" using 3(6) by (simp add: ts_wf_def)
  have f: "flags_match p {} (put_level lev l t)"
    using 3(5,8) flags_put_level [OF _ len lev] by simp
  have na: "next_addr k' = next_addr k" using 3(10) by (simp add: module_put_def put_ts_def)
  have n: "neutral (unlocked (tag t) (put_ts p (put_level lev l t) (locked (tag t) k))) k'" using 3(2,10) by simp
  have "kinv k' \<and> heap k' = (heap k)(p \<mapsto> put_level lev l t)"
    by (rule kinv_unlocked [OF k 3(1) _ _ _ f n na])
      (use 3 ts_wf_level [OF 3(6) lev 3(4)] in \<open>simp_all add: put_level_def\<close>)
  then show ?thesis using evolves_update [OF 3(1) _ na same_service_level [OF len lev 3(7)]] 3(1) by auto
qed

section \<open>\<open>tag_ctl\<close>\<close>

text \<open>Who may use a service, by the effective user id.\<close>

definition allowed :: "32 word \<Rightarrow> tag_service \<Rightarrow> bool" where
  "allowed u t \<longleftrightarrow> permission t = ONLY_OWNER \<longrightarrow> owner_euid t = u"

text \<open>A change of the two marks of a service, for the flags and for the other threads.\<close>

lemma marks_frame [simp]:
  "ts_wf i (t\<lparr>awake_request := a\<rparr>) = ts_wf i t" "ts_wf i (t\<lparr>lazy_deleted := d\<rparr>) = ts_wf i t"
  "counts (t\<lparr>awake_request := a\<rparr>) = counts t" "counts (t\<lparr>lazy_deleted := d\<rparr>) = counts t"
  "same_service t (t\<lparr>awake_request := a\<rparr>)" "same_service t (t\<lparr>lazy_deleted := YES\<rparr>)"
  by (simp_all add: ts_wf_def counts_def same_service_def same_owner_def)

lemma flags_marks:
  "flags_match p {} t \<Longrightarrow> flags_match p {ResetAwake p} (t\<lparr>awake_request := YES\<rparr>)"
  "flags_match p {} t \<Longrightarrow> flags_match p {} (t\<lparr>awake_request := NO\<rparr>)"
  "flags_match p {} t \<Longrightarrow> flags_match p {} (t\<lparr>lazy_deleted := d\<rparr>)"
  by (simp_all add: flags_match_def)

lemma ctl_locked_cases:
  assumes k: "kinv k" and c: "tag_ctl_locked e cmd p k = Inr (x, k')" and cmd: "cmd = REMOVE_TAG \<or> cmd = AWAKE_ALL"
  obtains r i where "x = Some r" "neutral k k'" "k' = module_put (unlocked i (locked i k))"
  | r t where "x = Some r" "heap k p = Some t" "\<not> held k (tag t)" "flags_match p {} t" "ts_wf (tag t) t"
      "lazy_deleted t \<noteq> YES" "cmd = AWAKE_ALL" "0 < thread_waiting_message_count t"
      "k' = module_put (call_rcu (ResetAwake p) (put_ts p (t\<lparr>awake_request := YES\<rparr>) (locked (tag t) k)))"
  | r t where "x = Some r" "heap k p = Some t" "\<not> held k (tag t)" "flags_match p {} t" "ts_wf (tag t) t"
      "k' = module_put (unlocked (tag t) (put_ts p (t\<lparr>awake_request := NO\<rparr>) (locked (tag t) k)))"
  | t where "x = None" "heap k p = Some t" "\<not> held k (tag t)" "flags_match p {} t" "ts_wf (tag t) t"
      "lazy_deleted t \<noteq> YES" "thread_waiting_message_count t = 0" "cmd = REMOVE_TAG"
      "k' = unlocked (tag t) (put_ts p (t\<lparr>lazy_deleted := YES\<rparr>) (locked (tag t) k))" "allowed (euid e) t"
proof -
  obtain k1 t where g: "get_ts k p = Inr t" and l: "mutex_lock (tag t) k = Inr k1"
    using c by (auto simp: tag_ctl_locked_def elim!: and_then_InrE)
  have t: "heap k p = Some t" using g by (auto simp: get_ts_def split: option.splits)
  have L: "k1 = locked (tag t) k" "\<not> held k (tag t)" "in_range (access_lock (tsm k)) (tag t)"
    using mutex_lock_state [OF l] by simp_all
  note S = section_start [OF k l t refl]
  have n: "neutral k (module_put (unlocked (tag t) (locked (tag t) k)))"
    using neutral_lock_unlock(2) [OF L(2,3)] by simp
  have rg: "in_range (access_lock (tsm (put_ts p u (locked (tag t) k)))) (tag t)" for u
    using L(3) by (simp add: put_ts_def)
  have tw: "put_ts p u (put_ts p v s) = put_ts p u s" for u v s by (rule put_ts_twice)
  have ur: "put_ts p u (locked i k) = put_ts p u k1" if "i = tag t" for u i using that L(1) by simp
  have c': "tag_ctl_locked e cmd p k =
    (if lazy_deleted t = YES then Inr (Some SUCCESS, module_put (unlocked (tag t) (locked (tag t) k)))
     else if permission t = ONLY_OWNER \<and> owner_euid t \<noteq> euid e then
       Inr (Some (- EACCES), module_put (unlocked (tag t) (locked (tag t) k)))
     else if cmd = REMOVE_TAG then
       (if thread_waiting_message_count t > 0 then
          Inr (Some (- EBUSY), module_put (unlocked (tag t) (locked (tag t) k)))
        else Inr (None, unlocked (tag t) (put_ts p (t\<lparr>lazy_deleted := YES\<rparr>) (locked (tag t) k))))
     else if thread_waiting_message_count t > 0 then Inr (Some SUCCESS,
        module_put (call_rcu (ResetAwake p) (put_ts p (t\<lparr>awake_request := YES\<rparr>) (locked (tag t) k))))
     else Inr (Some SUCCESS,
        module_put (unlocked (tag t) (put_ts p (t\<lparr>awake_request := NO\<rparr>) (locked (tag t) k)))))"
    using g l L rg cmd
    by (auto simp: tag_ctl_locked_def tag_ctl_remove_def tag_ctl_awake_def Let_def mutex_unlock_eq put_ts_twice)
  consider (refused) r where "x = Some r" "k' = module_put (unlocked (tag t) (locked (tag t) k))"
    | (woken) r where "x = Some r" "lazy_deleted t \<noteq> YES" "cmd = AWAKE_ALL" "0 < thread_waiting_message_count t"
      "k' = module_put (call_rcu (ResetAwake p) (put_ts p (t\<lparr>awake_request := YES\<rparr>) (locked (tag t) k)))"
    | (nobody) r where "x = Some r"
      "k' = module_put (unlocked (tag t) (put_ts p (t\<lparr>awake_request := NO\<rparr>) (locked (tag t) k)))"
    | (marked) "x = None" "lazy_deleted t \<noteq> YES" "thread_waiting_message_count t = 0" "cmd = REMOVE_TAG"
      "k' = unlocked (tag t) (put_ts p (t\<lparr>lazy_deleted := YES\<rparr>) (locked (tag t) k))" "allowed (euid e) t"
    using c cmd unfolding c' by (auto split: if_splits simp: word_gt_0 allowed_def)
  then show thesis
  proof cases
    case refused
    then show thesis using that(1) n by simp
  next
    case woken
    then show thesis using that(2) [OF _ t L(2) S(3,4)] by simp
  next
    case nobody
    then show thesis using that(3) [OF _ t L(2) S(3,4)] by simp
  next
    case marked
    then show thesis using that(4) [OF _ t L(2) S(3,4)] by simp
  qed
qed

lemma ctl_locked_kinv:
  assumes k: "kinv k" and c: "tag_ctl_locked e cmd p k = Inr (x, k')" and cmd: "cmd = REMOVE_TAG \<or> cmd = AWAKE_ALL"
  shows "kinv k' \<and> evolves {} k k' \<and> dom (heap k') = dom (heap k) \<and> (x = None \<longrightarrow> (\<exists>t t'. heap k p = Some t \<and> lazy_deleted t \<noteq> YES
    \<and> thread_waiting_message_count t = 0 \<and> heap k' p = Some t' \<and> lazy_deleted t' = YES
    \<and> cmd = REMOVE_TAG \<and> allowed (euid e) t'))"
  using ctl_locked_cases [OF k c cmd]
proof cases
  case (1 r i)
  then have "kinv k'" "evolves {} k k'" "heap k' = heap k"
    using k kinv_neutral evolves_neutral neutral_views(4) by blast+
  then show ?thesis using 1(1) by simp
next
  case (2 r t)
  have "kinv k' \<and> heap k' = (heap k)(p \<mapsto> t\<lparr>awake_request := YES\<rparr>) \<and> next_addr k' = next_addr k"
    by (rule kinv_keep_lock [OF k 2(2,3) _ _ _ flags_marks(1) [OF 2(4)] _ _ 2(9)]) (use 2 in simp_all)
  then have "kinv k'" "evolves {} k k'" "dom (heap k') = dom (heap k)"
    using evolves_update [OF 2(2)] 2(2) by auto
  then show ?thesis using 2(1) by simp
next
  case (3 r t)
  have na: "next_addr k' = next_addr k" using 3(6) by (simp add: module_put_def put_ts_def)
  have n: "neutral (unlocked (tag t) (put_ts p (t\<lparr>awake_request := NO\<rparr>) (locked (tag t) k))) k'"
    using 3(6) by simp
  have "kinv k' \<and> heap k' = (heap k)(p \<mapsto> t\<lparr>awake_request := NO\<rparr>)"
    by (rule kinv_unlocked [OF k 3(2,3) _ _ flags_marks(2) [OF 3(4)] n na]) (use 3 in simp_all)
  then have "kinv k'" "evolves {} k k'" "dom (heap k') = dom (heap k)"
    using evolves_update [OF 3(2) _ na] 3(2) by auto
  then show ?thesis using 3(1) by simp
next
  case (4 t)
  have na: "next_addr k' = next_addr k" using 4(9) by (simp add: put_ts_def)
  have n: "neutral (unlocked (tag t) (put_ts p (t\<lparr>lazy_deleted := YES\<rparr>) (locked (tag t) k))) k'"
    using 4(9) by simp
  have "kinv k' \<and> heap k' = (heap k)(p \<mapsto> t\<lparr>lazy_deleted := YES\<rparr>)"
    by (rule kinv_unlocked [OF k 4(2,3) _ _ flags_marks(3) [OF 4(4)] n na]) (use 4 in simp_all)
  then have "kinv k'" "evolves {} k k'" "heap k' p = Some (t\<lparr>lazy_deleted := YES\<rparr>)" "dom (heap k') = dom (heap k)"
    using evolves_update [OF 4(2) _ na] 4(2) by (auto simp del: YES_def)
  then show ?thesis using 4(2,6-8,10) by (simp add: allowed_def)
qed

text \<open>The end of a removal: the service leaves the table and the heap.\<close>

lemma kinv_delete:
  assumes k: "kinv k" and t: "heap k p = Some t" and np: "\<And>c. c \<in> pending k \<Longrightarrow> cb_ptr c \<noteq> p"
    and v: "heap k' = (heap k)(p := None)" "next_addr k \<le> next_addr k'" "map fst (rcu_queue k') = map fst (rcu_queue k)"
      "access_lock (tsm k') = access_lock (tsm k)"
      "all_tag_services (tsm k') = (all_tag_services (tsm k))[nat (tag t) := None]"
  shows "kinv k'"
proof -
  note s = kinv_service [OF k t]
  have len: "length (all_tag_services (tsm k)) = 4096" using k by (simp add: kinv_def table_shape_def)
  have e: "entry k' = (entry k)(nat (tag t) := None)" using v(5) len s(4) by (auto simp: entry_def fun_eq_iff)
  have hp: "held k' = held k" "pending k' = pending k" using v(3,4) by (simp_all add: held_def pending_def fun_eq_iff)
  have "table_shape k'" using k v(4,5) unfolding kinv_def table_shape_def e by simp
  moreover have "services_ok k'"
    unfolding services_ok_def e v(1)
  proof (intro conjI allI impI)
    fix i q assume i: "i < 512" "((entry k)(nat (tag t) := None)) i = Some q"
    then obtain u where u: "heap k q = Some u" "tag u = int i" using kinv_entry [OF k i(1)] by (auto split: if_splits)
    have "q \<noteq> p" using i(2) u t by (auto split: if_splits)
    then show "\<exists>t. ((heap k)(p := None)) q = Some t \<and> tag t = int i" using u by simp
  next
    fix q u assume q: "((heap k)(p := None)) q = Some u"
    then have u: "heap k q = Some u" "q \<noteq> p" by (auto split: if_splits)
    then have "tag u \<noteq> tag t" using kinv_tag_unique [OF k u(1) t] by blast
    then show "ts_wf (tag u) u" "q < next_addr k'" "\<exists>i<512. tag u = int i \<and> ((entry k)(nat (tag t) := None)) i = Some q"
      using kinv_service [OF k u(1)] s(3) v(2) by (auto intro!: exI [of _ "nat (tag u)"])
  qed
  moreover have "callbacks_ok k'"
    using k np unfolding kinv_def callbacks_ok_def hp v(1,3) by (simp cong: ball_cong bex_cong)
  ultimately show ?thesis using k unfolding kinv_def hp v(1) by simp
qed

lemma no_callback_on_deleted: "kinv k \<Longrightarrow> heap k p = Some t \<Longrightarrow> lazy_deleted t = YES \<Longrightarrow> c \<in> pending k \<Longrightarrow> cb_ptr c \<noteq> p"
  unfolding kinv_def callbacks_ok_def by force

lemma ctl_unlink_kinv:
  assumes k: "kinv k" and c: "tag_ctl_unlink i p k = Inr (r, k')"
    and t: "heap k p = Some t" "lazy_deleted t = YES" "tag t = i"
  shows "kinv k' \<and> evolves {p} k k' \<and> heap k' = (heap k)(p := None) \<and> r = SUCCESS"
proof -
  obtain k2 f k3 where s: "set_slot i None k = Inr k2"
    and ff: "find_first_entry_available k2 = Inr (f, k3)" and k': "k' = module_put (free_ts p (inc_remaining k3))" "r = SUCCESS"
    using c by (auto simp: tag_ctl_unlink_def elim!: and_then_InrE)
  have k2: "k2 = k\<lparr>tsm := (tsm k)\<lparr>all_tag_services := (all_tag_services (tsm k))[nat i := None]\<rparr>\<rparr>"
    using s by (auto simp: set_slot_def elim!: and_then_InrE dest: arr_set_InrD)
  have n3: "neutral k2 k3" "next_addr k2 \<le> next_addr k3"
    using find_first_neutral [OF ff] by (simp_all add: neutral_def)
  have v: "heap k' = (heap k)(p := None)" "next_addr k \<le> next_addr k'" "map fst (rcu_queue k') = map fst (rcu_queue k)"
    "access_lock (tsm k') = access_lock (tsm k)"
    "all_tag_services (tsm k') = (all_tag_services (tsm k))[nat (tag t) := None]"
    using n3 t(3) by (simp_all add: k' k2 neutral_def free_ts_def inc_remaining_def)
  have "kinv k'" by (rule kinv_delete [OF k t(1) no_callback_on_deleted [OF k t(1,2)] v])
  moreover have "evolves {p} k k'" using v(1,2) by (auto simp: evolves_def)
  ultimately show ?thesis using v(1) k'(2) by simp
qed

section \<open>The callbacks\<close>

lemma dequeued:
  assumes k: "kinv k" and q: "rcu_queue k = q1 @ (c, rs) # q2"
  shows "distinct (map fst (q1 @ q2))" "set (map fst (q1 @ q2)) = {d \<in> pending k. cb_ptr d \<noteq> cb_ptr c}" "c \<in> pending k"
proof -
  have d: "distinct (map fst (q1 @ (c, rs) # q2))" using k unfolding q [symmetric] by (simp add: kinv_def callbacks_ok_def)
  then show "distinct (map fst (q1 @ q2))" by auto
  show c: "c \<in> pending k" by (simp add: pending_def q)
  have p: "pending k = insert c (set (map fst (q1 @ q2)))" by (auto simp: pending_def q)
  have "c \<notin> set (map fst (q1 @ q2))" using d by auto
  moreover have "cb_ptr d = cb_ptr c \<longleftrightarrow> d = c" if "d \<in> pending k" for d
    using k c that unfolding kinv_def callbacks_ok_def by blast
  ultimately show "set (map fst (q1 @ q2)) = {d \<in> pending k. cb_ptr d \<noteq> cb_ptr c}" using p by auto
qed

text \<open>A callback always runs to its end: its service is live, and the lock that it gives back exists.\<close>

lemma run_callback_kinv:
  assumes k: "kinv k" and q: "rcu_queue k = q1 @ (c, rs) # q2"
  shows "\<exists>k' t. run_callback c (k\<lparr>rcu_queue := q1 @ q2\<rparr>) = Inr k' \<and> kinv k' \<and> evolves {} k k' \<and> dom (heap k') = dom (heap k)
    \<and> heap k (cb_ptr c) = Some t \<and> \<not> held k' (tag t)
    \<and> rcu_queue k' = q1 @ q2 \<and> rcu_readers k' = rcu_readers k"
proof -
  let ?k = "k\<lparr>rcu_queue := q1 @ q2\<rparr>" and ?p = "cb_ptr c"
  note D = dequeued [OF k q]
  obtain t where t: "heap k ?p = Some t" using k D(3) unfolding kinv_def callbacks_ok_def by blast
  note s = kinv_service [OF k t]
  have rg: "in_range (access_lock (tsm (put_ts ?p u ?k))) (tag t)" for u
    using kinv_tag_range [OF k t] by (simp add: put_ts_def)
  have uniq: "d = c" if "d \<in> pending k" "cb_ptr d = ?p" for d
    using k D(3) that unfolding kinv_def callbacks_ok_def by blast
  have "\<exists>t'. run_callback c ?k = Inr (unlocked (tag t) (put_ts ?p t' ?k)) \<and> ts_wf (tag t) t' \<and> flags_match ?p {} t'
      \<and> same_service t t'"
  proof (cases c)
    case (FreeAfterSend q lev)
    then have c: "?p = q" "c = FreeAfterSend q lev" by simp_all
    have lev: "0 \<le> lev" "lev < 32" using k D(3) c(2) unfolding kinv_def callbacks_ok_def by blast+
    let ?l = "level t ! nat lev"
    let ?l' = "?l\<lparr>message_ready := NOT_READY, message := replicate 4096 NUL\<rparr>"
    have w: "level_wf (tag t) ?l" using level_wf_at [OF s(1) lev] .
    then have w': "level_wf (tag t) ?l'" by (simp add: level_wf_def)
    have "run_callback c ?k = Inr (unlocked (tag t) (put_ts ?p (put_level lev ?l' t) ?k))"
      using w rg t get_level_ok [OF s(6) lev]
      by (simp add: c run_callback_def free_after_send_def get_ts_def memset0_def level_wf_def mutex_unlock_eq)
    moreover have "flags_match ?p {} (put_level lev ?l' t)"
      by (rule flags_put_level [OF s(7,6) lev]) (use uniq c in \<open>force+\<close>)
    ultimately show ?thesis
      using ts_wf_level [OF s(1) lev w'] same_service_level [OF s(6) lev, of ?l'] by auto
  next
    case (ResetAwake q)
    then have c: "?p = q" "c = ResetAwake q" by simp_all
    have "run_callback c ?k = Inr (unlocked (tag t) (put_ts ?p (t\<lparr>awake_request := NO\<rparr>) ?k))"
      using t rg by (simp add: c run_callback_def reset_awake_condition_def get_ts_def mutex_unlock_eq)
    moreover have "flags_match ?p {} (t\<lparr>awake_request := NO\<rparr>)"
      using s(7) uniq c by (fastforce simp: flags_match_def)
    ultimately show ?thesis using s(1) by (intro exI [of _ "t\<lparr>awake_request := NO\<rparr>"]) simp
  qed
  then obtain t' where r: "run_callback c ?k = Inr (unlocked (tag t) (put_ts ?p t' ?k))" and t': "ts_wf (tag t) t'"
    "flags_match ?p {} t'" "same_service t t'" by blast
  let ?k' = "unlocked (tag t) (put_ts ?p t' ?k)"
  have v: "heap ?k' = (heap k)(?p \<mapsto> t')" "next_addr ?k' = next_addr k" "rcu_queue ?k' = q1 @ q2"
    "all_tag_services (tsm ?k') = all_tag_services (tsm k)"
    "access_lock (tsm ?k') = (access_lock (tsm k))[nat (tag t) := False]"
    by (simp_all add: put_ts_def unlocked_def)
  have "tag t' = tag t" using t'(3) by (simp add: same_service_def same_owner_def)
  then have "kinv ?k'" using D(1,2) v(3)
    by (intro kinv_released [OF k t _ t'(1,2) v(1,2,4,5)]) (simp_all add: pending_def)
  moreover have "evolves {} k ?k'" by (rule evolves_update [OF t v(1,2) t'(3)])
  moreover have "\<not> held ?k' (tag t)" using held_unlocked rg by blast
  moreover have "dom (heap ?k') = dom (heap k)" using v(1) t by auto
  moreover have "rcu_readers ?k' = rcu_readers k" by (simp add: put_ts_def unlocked_def)
  ultimately show ?thesis using r t v(3) by blast
qed

end
