(* ===== verification/Conc_System.thy ===== *)
theory Conc_System
  imports Conc_Sections
begin

text \<open>
  The invariant of the whole concurrent system (kernel state, threads, counters) and its proof for
  every step, by which it holds in every reachable state.
\<close>

section \<open>Threads and the services they point to\<close>

text \<open>A pointer that a thread found in the table: it means the service of its tag as long as that lives.\<close>

definition ptr_ok :: "kstate \<Rightarrow> int \<Rightarrow> nat \<Rightarrow> bool" where
  "ptr_ok k i p \<longleftrightarrow> p < next_addr k \<and> (\<forall>t. heap k p = Some t \<longrightarrow> tag t = i)"

definition lev_ok :: "int \<Rightarrow> bool" where
  "lev_ok lev \<longleftrightarrow> 0 \<le> lev \<and> lev < 32"

fun pc_ok :: "kstate \<Rightarrow> pc \<Rightarrow> bool" where
  "pc_ok k Idle = True"
| "pc_ok k (Getting ky c perm i) = ((perm = EVERYONE \<or> perm = ONLY_OWNER) \<and> (ky \<noteq> IPC_PRIVATE \<longrightarrow> i = hash_function ky))"
| "pc_ok k (Publishing i) = True"
| "pc_ok k (Creating i) = True"
| "pc_ok k (Sending i lev p page n sz) = (ptr_ok k i p \<and> lev_ok lev)"
| "pc_ok k (Checked i lev p u sz) = (ptr_ok k i p \<and> lev_ok lev)"
| "pc_ok k (Counted i lev p u sz) = (ptr_ok k i p \<and> lev_ok lev)"
| "pc_ok k (Updating i lev (Entering p u sz)) = (ptr_ok k i p \<and> lev_ok lev)"
| "pc_ok k (Updating i lev (Exiting r bs)) = True"
| "pc_ok k (Rewriting i lev a n (Entering p u sz)) = (ptr_ok k i p \<and> lev_ok lev)"
| "pc_ok k (Rewriting i lev a n (Exiting r bs)) = True"
| "pc_ok k (Assigning i lev j new (Entering p u sz)) = (ptr_ok k i p \<and> lev_ok lev)"
| "pc_ok k (Assigning i lev j new (Exiting r bs)) = True"
| "pc_ok k (Opened d f) = True"
| "pc_ok k (Showing d f u n b) = True"
| "pc_ok k (Waiting i lev p u sz) = (ptr_ok k i p \<and> lev_ok lev)"
| "pc_ok k (Woken sg i lev p u sz) = (ptr_ok k i p \<and> lev_ok lev)"
| "pc_ok k (Reading sg i lev p u sz) = (ptr_ok k i p \<and> lev_ok lev)"
| "pc_ok k (Copied i lev p r bs) = (ptr_ok k i p \<and> lev_ok lev)"
| "pc_ok k (Leaving i lev p r bs) = (ptr_ok k i p \<and> lev_ok lev)"
| "pc_ok k (Uncounted i lev p r bs) = (ptr_ok k i p \<and> lev_ok lev)"
| "pc_ok k (Returning r bs) = True"
| "pc_ok k (Controlling c i p) = (ptr_ok k i p \<and> (c = REMOVE_TAG \<or> c = AWAKE_ALL))"
| "pc_ok k (Removing i p) = (\<exists>t. heap k p = Some t \<and> tag t = i \<and> lazy_deleted t = YES)"
| "pc_ok k (Unlinking i p) = (\<exists>t. heap k p = Some t \<and> tag t = i \<and> lazy_deleted t = YES)"

text \<open>
  In which service a thread is counted, in the total and in a level, and what it is about to free.
\<close>

fun counted_total :: "pc \<Rightarrow> nat option" where
  "counted_total (Counted i lev p u sz) = Some p"
| "counted_total (Updating i lev (Entering p u sz)) = Some p"
| "counted_total (Rewriting i lev a n (Entering p u sz)) = Some p"
| "counted_total (Assigning i lev j new (Entering p u sz)) = Some p"
| "counted_total (Waiting i lev p u sz) = Some p"
| "counted_total (Woken sg i lev p u sz) = Some p"
| "counted_total (Reading sg i lev p u sz) = Some p"
| "counted_total (Copied i lev p r bs) = Some p"
| "counted_total (Leaving i lev p r bs) = Some p"
| "counted_total _ = None"

fun counted_at :: "pc \<Rightarrow> (nat \<times> int) option" where
  "counted_at (Updating i lev (Entering p u sz)) = Some (p, lev)"
| "counted_at (Rewriting i lev a n (Entering p u sz)) = Some (p, lev)"
| "counted_at (Assigning i lev j new (Entering p u sz)) = Some (p, lev)"
| "counted_at (Waiting i lev p u sz) = Some (p, lev)"
| "counted_at (Woken sg i lev p u sz) = Some (p, lev)"
| "counted_at (Reading sg i lev p u sz) = Some (p, lev)"
| "counted_at (Copied i lev p r bs) = Some (p, lev)"
| "counted_at (Leaving i lev p r bs) = Some (p, lev)"
| "counted_at (Uncounted i lev p r bs) = Some (p, lev)"
| "counted_at _ = None"

fun removing :: "pc \<Rightarrow> nat option" where
  "removing (Removing i p) = Some p"
| "removing (Unlinking i p) = Some p"
| "removing _ = None"

fun_cases counted_total_SomeE: "counted_total c = Some p"

fun_cases counted_at_SomeE: "counted_at c = Some x"

fun_cases removing_SomeE: "removing c = Some p"

definition receivers :: "sys \<Rightarrow> nat \<Rightarrow> nat set" where
  "receivers s p = {th. counted_total (pcs s th) = Some p}"

definition receivers_at :: "sys \<Rightarrow> nat \<Rightarrow> int \<Rightarrow> nat set" where
  "receivers_at s p lev = {th. counted_at (pcs s th) = Some (p, lev)}"

text \<open>The counters of a live service are the numbers of the threads between the two instructions on them.\<close>

definition counters_exact :: "sys \<Rightarrow> nat \<Rightarrow> tag_service \<Rightarrow> bool" where
  "counters_exact s p t \<longleftrightarrow> unat (thread_waiting_message_count t) = card (receivers s p)
     \<and> (\<forall>n<32. counts t ! n = card (receivers_at s p (int n)))"

definition threads_ok :: "sys \<Rightarrow> bool" where
  "threads_ok s \<longleftrightarrow> (\<forall>th. pcs s th \<noteq> Idle \<longrightarrow> th < PID_MAX) \<and> (\<forall>th. pc_ok (ks s) (pcs s th))
     \<and> (\<forall>th th' p. removing (pcs s th) = Some p \<longrightarrow> removing (pcs s th') = Some p \<longrightarrow> th = th')
     \<and> (\<forall>th p t. removing (pcs s th) = Some p \<longrightarrow> heap (ks s) p = Some t \<longrightarrow> allowed (thread_euid s th) t)"

definition sys_inv :: "sys \<Rightarrow> bool" where
  "sys_inv s \<longleftrightarrow> kinv (ks s) \<and> threads_ok s \<and> (\<forall>p t. heap (ks s) p = Some t \<longrightarrow> counters_exact s p t)"

lemma sys_inv_results [simp]: "sys_inv (s\<lparr>results := r\<rparr>) = sys_inv s"
  by (simp add: sys_inv_def threads_ok_def counters_exact_def receivers_def receivers_at_def)

lemma sys_inv_answer [simp]: "sys_inv (answer th r bs c k s) = sys_inv (goto th c k s)"
  by (simp add: answer_def)

section \<open>What pointers survive\<close>

definition moves :: "nat set \<Rightarrow> kstate \<Rightarrow> kstate \<Rightarrow> bool" where
  "moves D k k' \<longleftrightarrow> next_addr k \<le> next_addr k'
     \<and> (\<forall>q u. heap k' q = Some u \<longrightarrow> next_addr k \<le> q
          \<or> (\<exists>t. heap k q = Some t \<and> same_owner t u))
     \<and> (\<forall>q. heap k q \<noteq> None \<longrightarrow> q \<notin> D \<longrightarrow> heap k' q \<noteq> None)"

lemma evolves_moves: "evolves D k k' \<Longrightarrow> moves D k k'"
  unfolding evolves_def moves_def same_service_def by blast

lemma ptr_ok_moves: "ptr_ok k i p \<Longrightarrow> moves D k k' \<Longrightarrow> ptr_ok k' i p"
  unfolding ptr_ok_def moves_def same_owner_def by (metis less_le_trans not_le)

lemma pc_ok_moves:
  assumes "pc_ok k c" "moves D k k'" "kinv k" "\<And>p. removing c = Some p \<Longrightarrow> p \<notin> D"
  shows "pc_ok k' c"
proof (cases "\<exists>i p. c = Removing i p \<or> c = Unlinking i p")
  case True
  then obtain i p where c: "c = Removing i p \<or> c = Unlinking i p" by blast
  then obtain t where t: "heap k p = Some t" "tag t = i" "lazy_deleted t = YES" using assms(1) by auto
  moreover obtain u where u: "heap k' p = Some u" using assms(2,4) t(1) c unfolding moves_def by force
  moreover have "p < next_addr k" using kinv_service(2) [OF assms(3) t(1)] .
  ultimately show ?thesis using assms(2) c unfolding moves_def same_owner_def by fastforce
next
  case False
  then show ?thesis using assms(1) ptr_ok_moves [OF _ assms(2)] by (cases "(k, c)" rule: pc_ok.cases) auto
qed

lemma counted_addr:
  "pc_ok k c \<Longrightarrow> counted_at c = Some (p, lev) \<Longrightarrow> p < next_addr k"
  "pc_ok k c \<Longrightarrow> counted_total c = Some p \<Longrightarrow> p < next_addr k"
  by (auto simp: ptr_ok_def elim!: counted_at_SomeE counted_total_SomeE)

section \<open>Threads that move\<close>

lemma removing_live: "pc_ok k c \<Longrightarrow> removing c = Some p \<Longrightarrow> \<exists>t. heap k p = Some t \<and> lazy_deleted t = YES"
  by (auto elim!: removing_SomeE)

lemma allowed_moves:
  assumes s: "threads_ok s" "kinv (ks s)" and m: "moves D (ks s) k'"
    and r: "removing (pcs s th) = Some p" and u: "heap k' p = Some u"
  shows "allowed (thread_euid s th) u"
proof -
  have "pc_ok (ks s) (pcs s th)" using s(1) by (simp add: threads_ok_def)
  then obtain t where t: "heap (ks s) p = Some t" using removing_live [OF _ r] by blast
  then have "\<not> next_addr (ks s) \<le> p" using kinv_service(2) [OF s(2)] by (simp add: not_le)
  then have "same_owner t u" using m u t unfolding moves_def by fastforce
  moreover have "allowed (thread_euid s th) t" using s(1) r t unfolding threads_ok_def by blast
  ultimately show ?thesis by (simp add: allowed_def same_owner_def)
qed

lemma threads_ok_goto:
  assumes s: "threads_ok s" "kinv (ks s)" and m: "moves D (ks s) k'"
    and D: "\<And>th' p. th' \<noteq> th \<Longrightarrow> removing (pcs s th') = Some p \<Longrightarrow> p \<notin> D"
    and c: "th < PID_MAX" "pc_ok k' c" "\<And>th' p. th' \<noteq> th \<Longrightarrow> removing c = Some p \<Longrightarrow> removing (pcs s th') \<noteq> Some p"
      "\<And>p t. removing c = Some p \<Longrightarrow> heap k' p = Some t \<Longrightarrow> allowed (thread_euid s th) t"
  shows "threads_ok (goto th c k' s)"
  unfolding threads_ok_def goto_simps
proof (intro conjI allI impI)
  fix th' assume "((pcs s)(th := c)) th' \<noteq> Idle"
  then show "th' < PID_MAX" using s(1) c(1) by (cases "th' = th") (simp_all add: threads_ok_def)
next
  fix th'
  have "pc_ok k' (pcs s th')" if "th' \<noteq> th" using pc_ok_moves [OF _ m s(2)] s(1) D [OF that] by (simp add: threads_ok_def)
  then show "pc_ok k' (((pcs s)(th := c)) th')" using c(2) by simp
next
  fix th1 th2 p assume "removing (((pcs s)(th := c)) th1) = Some p" "removing (((pcs s)(th := c)) th2) = Some p"
  then show "th1 = th2" using s(1) c(3) by (auto simp: threads_ok_def split: if_splits)
next
  fix th' p t assume "removing (((pcs s)(th := c)) th') = Some p" "heap k' p = Some t"
  then show "allowed (thread_euid s th') t" using allowed_moves [OF s m, of th' p t] c(4) by (auto split: if_splits)
qed

definition same_counts :: "pc \<Rightarrow> pc \<Rightarrow> bool" where
  "same_counts c d \<longleftrightarrow> counted_total c = counted_total d \<and> counted_at c = counted_at d"

lemma receivers_goto:
  assumes "same_counts c (pcs s th)"
  shows "receivers (goto th c k s) p = receivers s p" "receivers_at (goto th c k s) p lev = receivers_at s p lev"
  using assms by (auto simp: same_counts_def receivers_def receivers_at_def split: if_splits)

text \<open>A step that leaves the counters alone.\<close>

lemma sys_inv_goto:
  assumes s: "sys_inv s" and k': "kinv k'" "evolves D (ks s) k'"
    and D: "\<And>th' p. th' \<noteq> th \<Longrightarrow> removing (pcs s th') = Some p \<Longrightarrow> p \<notin> D"
    and c: "th < PID_MAX" "pc_ok k' c" "\<And>th' p. th' \<noteq> th \<Longrightarrow> removing c = Some p \<Longrightarrow> removing (pcs s th') \<noteq> Some p"
      "\<And>p t. removing c = Some p \<Longrightarrow> heap k' p = Some t \<Longrightarrow> allowed (thread_euid s th) t"
      "same_counts c (pcs s th)"
  shows "sys_inv (goto th c k' s)"
proof -
  have si: "kinv (ks s)" "threads_ok s" "\<And>p t. heap (ks s) p = Some t \<Longrightarrow> counters_exact s p t"
    using s by (simp_all add: sys_inv_def)
  have "counters_exact (goto th c k' s) p u" if u: "heap k' p = Some u" for p u
  proof -
    from k'(2) u consider t where "heap (ks s) p = Some t" "same_service t u"
      | "next_addr (ks s) \<le> p" "counts u = replicate 32 0" "thread_waiting_message_count u = 0"
      unfolding evolves_def by blast
    then show ?thesis
    proof cases
      case 1
      then show ?thesis using si(3) [OF 1(1)]
        by (simp add: counters_exact_def receivers_goto [OF c(5)] same_service_def)
    next
      case 2
      have "counted_at (pcs s th') \<noteq> Some (p, lev)" "counted_total (pcs s th') \<noteq> Some p" for th' lev
        using counted_addr [of "ks s" "pcs s th'" p] si(2) 2(1) by (force simp: threads_ok_def)+
      then show ?thesis
        using 2 unfolding counters_exact_def receivers_goto [OF c(5)] by (simp add: receivers_def receivers_at_def)
    qed
  qed
  then show ?thesis
    using k'(1) threads_ok_goto [OF si(2,1) evolves_moves [OF k'(2)] D c(1-4)] by (simp add: sys_inv_def)
qed

lemmas sys_inv_quiet = sys_inv_goto [where D = "{}"]

section \<open>Receivers that come and go\<close>

lemma receivers_finite:
  assumes "threads_ok s"
  shows "finite (receivers s p)" "finite (receivers_at s p lev)"
    "card (receivers s p) \<le> PID_MAX" "card (receivers_at s p lev) \<le> PID_MAX"
proof -
  have i: "pcs s th \<noteq> Idle \<Longrightarrow> th < PID_MAX" for th using assms by (simp add: threads_ok_def)
  have "counted_at (pcs s th) = Some x \<Longrightarrow> th < PID_MAX" "counted_total (pcs s th) = Some y \<Longrightarrow> th < PID_MAX" for th x y
    using i [of th] by (cases "pcs s th = Idle"; simp)+
  then have "receivers s p \<subseteq> {..<PID_MAX}" "receivers_at s p lev \<subseteq> {..<PID_MAX}"
    by (auto simp: receivers_def receivers_at_def)
  then show "finite (receivers s p)" "finite (receivers_at s p lev)"
    "card (receivers s p) \<le> PID_MAX" "card (receivers_at s p lev) \<le> PID_MAX"
    using finite_subset card_mono [of "{..<PID_MAX}"] by fastforce+
qed

text \<open>One thread more or less, and the counter of it.\<close>

lemma inc_counts:
  assumes "unat w = card A" "finite A" "card A \<le> PID_MAX" "th \<notin> A"
  shows "unat (atomic_inc w) = card (insert th A)"
  using assms unat_atomic_inc [of w] by (simp add: PID_MAX_def)

lemma dec_counts:
  assumes "unat w = card A" "finite A" "card A \<le> PID_MAX" "th \<in> A"
  shows "unat (atomic_dec w) = card (A - {th})"
proof -
  have "0 < card A" using assms(2,4) by (auto simp: card_gt_0_iff)
  then show ?thesis using assms unat_atomic_dec [of w] by (simp add: PID_MAX_def)
qed

text \<open>A step that changes one service, and with it the threads that are counted there.\<close>

lemma sys_inv_service:
  fixes th c k' s defines "s' \<equiv> goto th c k' s"
  assumes s: "sys_inv s" and t: "heap (ks s) p = Some t" "same_owner t t'"
    and k': "kinv k'" "heap k' = (heap (ks s))(p \<mapsto> t')" "next_addr k' = next_addr (ks s)"
    and c: "th < PID_MAX" "pc_ok k' c" "removing c = None"
    and e: "counters_exact s' p t'"
    and same: "\<And>q. q \<noteq> p \<Longrightarrow> receivers s' q = receivers s q"
      "\<And>q m. q \<noteq> p \<Longrightarrow> receivers_at s' q m = receivers_at s q m"
  shows "sys_inv s'"
proof -
  have si: "kinv (ks s)" "threads_ok s" "\<And>p t. heap (ks s) p = Some t \<Longrightarrow> counters_exact s p t"
    using s by (simp_all add: sys_inv_def)
  have "counters_exact s' q u" if "q \<noteq> p" "heap (ks s) q = Some u" for q u
    using si(3) [OF that(2)] same that(1) by (simp add: counters_exact_def)
  moreover have "moves {} (ks s) k'" using k'(2,3) t by (auto simp: moves_def same_owner_def)
  then have "threads_ok s'" unfolding s'_def by (rule threads_ok_goto [OF si(2,1)]) (use c in simp_all)
  ultimately show ?thesis using k'(1,2) e unfolding sys_inv_def by (simp add: s'_def)
qed

lemma sys_inv_total:
  fixes th c k' s defines "s' \<equiv> goto th c k' s"
  assumes s: "sys_inv s" and b: "service_becomes p t (count_total f t) (ks s) k'"
    and c: "th < PID_MAX" "pc_ok k' c" "removing c = None" "counted_at c = counted_at (pcs s th)"
    and f: "\<And>w. unat w = card (receivers s p) \<Longrightarrow> unat (f w) = card (receivers s' p)"
    and same: "\<And>q. q \<noteq> p \<Longrightarrow> receivers s' q = receivers s q"
  shows "sys_inv s'"
proof -
  have k: "kinv (ks s)" and t: "heap (ks s) p = Some t" using s b by (simp_all add: sys_inv_def service_becomes_def)
  have "counters_exact s p t" using s t by (simp add: sys_inv_def)
  moreover have at: "receivers_at s' q m = receivers_at s q m" for q m
    using c(4) unfolding s'_def by (auto simp: receivers_at_def split: if_splits)
  ultimately have "counters_exact s' p (count_total f t)" using f by (simp add: counters_exact_def)
  then show ?thesis
    using at same unfolding s'_def
    by (intro sys_inv_service [OF s t _ receive_total_kinv [OF k b] c(1-3)]) simp_all
qed

lemma sys_inv_level:
  fixes th c k' s defines "s' \<equiv> goto th c k' s"
  assumes s: "sys_inv s" and b: "service_becomes p t (recounted lev f t) (ks s) k'" and lev: "lev_ok lev"
    and c: "th < PID_MAX" "pc_ok k' c" "removing c = None" "counted_total c = counted_total (pcs s th)"
    and f: "\<And>w. unat w = card (receivers_at s p lev) \<Longrightarrow> unat (f w) = card (receivers_at s' p lev)"
    and same: "\<And>q m. (q, m) \<noteq> (p, lev) \<Longrightarrow> receivers_at s' q m = receivers_at s q m"
  shows "sys_inv s'"
proof -
  have k: "kinv (ks s)" and t: "heap (ks s) p = Some t" using s b by (simp_all add: sys_inv_def service_becomes_def)
  have l: "0 \<le> lev" "lev < 32" "nat lev < 32" using lev by (auto simp: lev_ok_def)
  note len = kinv_service(6) [OF k t]
  have ct: "counters_exact s p t" using s t by (simp add: sys_inv_def)
  have rs: "receivers s' q = receivers s q" for q
    using c(4) unfolding s'_def by (auto simp: receivers_def split: if_splits)
  have w: "unat (thread_waiting (level t ! nat lev)) = card (receivers_at s p lev)"
    using ct l len unfolding counters_exact_def by (force simp: counts_nth)
  have "counts (recounted lev f t) ! n = card (receivers_at s' p (int n))" if "n < 32" for n
    using ct that l len f [OF w] same [of p "int n"] counts_recounted [OF len l(1,2), of f]
    by (cases "n = nat lev") (auto simp: counters_exact_def)
  then have "counters_exact s' p (recounted lev f t)" using ct rs by (simp add: counters_exact_def)
  then show ?thesis
    using rs same unfolding s'_def
    by (intro sys_inv_service [OF s t _ receive_level_kinv [OF k b l(1,2)] c(1-3)]) simp_all
qed

text \<open>The four instructions.\<close>

lemma sys_inv_counts:
  assumes s: "sys_inv s" and c: "th < PID_MAX" "pc_ok k' c" "removing c = None"
  shows "service_becomes p t (count_total atomic_inc t) (ks s) k' \<Longrightarrow> counted_at c = counted_at (pcs s th) \<Longrightarrow>
      counted_total (pcs s th) = None \<Longrightarrow> counted_total c = Some p \<Longrightarrow> sys_inv (goto th c k' s)"
    "service_becomes p t (count_total atomic_dec t) (ks s) k' \<Longrightarrow> counted_at c = counted_at (pcs s th) \<Longrightarrow>
      counted_total (pcs s th) = Some p \<Longrightarrow> counted_total c = None \<Longrightarrow> sys_inv (goto th c k' s)"
    "service_becomes p t (recounted lev atomic_inc t) (ks s) k' \<Longrightarrow> lev_ok lev \<Longrightarrow> counted_total c = counted_total (pcs s th) \<Longrightarrow>
      counted_at (pcs s th) = None \<Longrightarrow> counted_at c = Some (p, lev) \<Longrightarrow> sys_inv (goto th c k' s)"
    "service_becomes p t (recounted lev atomic_dec t) (ks s) k' \<Longrightarrow> lev_ok lev \<Longrightarrow> counted_total c = counted_total (pcs s th) \<Longrightarrow>
      counted_at (pcs s th) = Some (p, lev) \<Longrightarrow> counted_at c = None \<Longrightarrow> sys_inv (goto th c k' s)"
proof -
  have "threads_ok s" using s by (simp add: sys_inv_def)
  note F = receivers_finite [OF this]
  show "sys_inv (goto th c k' s)"
    if b: "service_becomes p t (count_total atomic_inc t) (ks s) k'" "counted_at c = counted_at (pcs s th)"
      "counted_total (pcs s th) = None" "counted_total c = Some p"
  proof -
    have R: "receivers (goto th c k' s) q = (if q = p then insert th (receivers s p) else receivers s q)"
      "th \<notin> receivers s q" for q using b(3,4) by (auto simp: receivers_def split: if_splits)
    show ?thesis by (rule sys_inv_total [OF s b(1) c b(2)]) (auto simp: R intro: inc_counts [OF _ F(1,3) R(2)])
  qed
  show "sys_inv (goto th c k' s)"
    if b: "service_becomes p t (count_total atomic_dec t) (ks s) k'" "counted_at c = counted_at (pcs s th)"
      "counted_total (pcs s th) = Some p" "counted_total c = None"
  proof -
    have R: "receivers (goto th c k' s) q = (if q = p then receivers s p - {th} else receivers s q)"
      "th \<in> receivers s p" for q using b(3,4) by (auto simp: receivers_def split: if_splits)
    show ?thesis by (rule sys_inv_total [OF s b(1) c b(2)]) (auto simp: R(1) intro: dec_counts [OF _ F(1,3) R(2)])
  qed
  show "sys_inv (goto th c k' s)"
    if b: "service_becomes p t (recounted lev atomic_inc t) (ks s) k'" "lev_ok lev" "counted_total c = counted_total (pcs s th)"
      "counted_at (pcs s th) = None" "counted_at c = Some (p, lev)"
  proof -
    have R: "receivers_at (goto th c k' s) q m = (if (q, m) = (p, lev) then insert th (receivers_at s p lev) else receivers_at s q m)"
      "th \<notin> receivers_at s q m" for q m using b(4,5) by (auto simp: receivers_at_def split: if_splits)
    show ?thesis by (rule sys_inv_level [OF s b(1,2) c b(3)]) (auto simp: R(1) intro: inc_counts [OF _ F(2,4) R(2)])
  qed
  show "sys_inv (goto th c k' s)"
    if b: "service_becomes p t (recounted lev atomic_dec t) (ks s) k'" "lev_ok lev" "counted_total c = counted_total (pcs s th)"
      "counted_at (pcs s th) = Some (p, lev)" "counted_at c = None"
  proof -
    have R: "receivers_at (goto th c k' s) q m = (if (q, m) = (p, lev) then receivers_at s p lev - {th} else receivers_at s q m)"
      "th \<in> receivers_at s p lev" for q m using b(4,5) by (auto simp: receivers_at_def split: if_splits)
    show ?thesis by (rule sys_inv_level [OF s b(1,2) c b(3)]) (auto simp: R(1) intro: dec_counts [OF _ F(2,4) R(2)])
  qed
qed

section \<open>Pointers from the table\<close>

lemma slot_ptr:
  assumes k: "kinv k" and g: "slot k i = Inr (Some p)"
  shows "ptr_ok k i p" "\<exists>t. heap k p = Some t \<and> tag t = i"
proof -
  have r: "in_range (all_tag_services (tsm k)) i" "all_tag_services (tsm k) ! nat i = Some p"
    using g arr_get_InrD by (force simp: slot_def)+
  have len: "length (all_tag_services (tsm k)) = 4096" "\<And>j. 512 \<le> j \<Longrightarrow> j < 4096 \<Longrightarrow> entry k j = None"
    using k by (simp_all add: kinv_def table_shape_def)
  have e: "entry k (nat i) = Some p" "0 \<le> i" "nat i < 4096" using r len(1) by (auto simp: entry_def in_range_def)
  then have "nat i < 512" using len(2) [of "nat i"] by force
  then obtain t where t: "heap k p = Some t" "tag t = i" using kinv_entry [OF k _ e(1)] e(2) by auto
  then show "\<exists>t. heap k p = Some t \<and> tag t = i" by blast
  show "ptr_ok k i p" using t kinv_service(2) [OF k t(1)] by (simp add: ptr_ok_def)
qed

lemma tag_get_select_found:
  "tag_get_select ky c perm k = Inr (Inr i, k') \<Longrightarrow>
   (perm = EVERYONE \<or> perm = ONLY_OWNER) \<and> (ky \<noteq> IPC_PRIVATE \<longrightarrow> i = hash_function ky)"
  by (auto simp: tag_get_select_def Let_def elim!: and_then_InrE split: if_splits)

lemma tag_send_enter_found:
  "tag_send_enter e i lev u sz k = Inr (Inr (p, page, n), k') \<Longrightarrow> slot k i = Inr (Some p) \<and> lev_ok lev"
  by (auto simp: tag_send_enter_def lev_ok_def Let_def elim!: and_then_InrE split: if_splits option.splits prod.splits)

lemma tag_receive_check_found:
  "tag_receive_check e i lev u k = Inr (Inr p, k') \<Longrightarrow> slot k i = Inr (Some p) \<and> lev_ok lev"
  by (auto simp: tag_receive_check_def lev_ok_def Let_def elim!: and_then_InrE split: if_splits option.splits prod.splits)

lemma tag_ctl_enter_found:
  "tag_ctl_enter i c k = Inr (Inr p, k') \<Longrightarrow> slot k i = Inr (Some p) \<and> (c = REMOVE_TAG \<or> c = AWAKE_ALL)"
  by (auto simp: tag_ctl_enter_def Let_def elim!: and_then_InrE split: if_splits option.splits)

lemma tag_get_none_creates: "tag_get_locked e ky c perm i k = Inr (None, k') \<Longrightarrow> c = CREATE_TAG"
  by (auto simp: tag_get_locked_def elim!: and_then_InrE split: if_splits)

section \<open>Every step keeps the invariant\<close>

lemma sys_inv_moved:
  assumes "sys_inv s" "th < PID_MAX" "neutral (ks s) k'" "pc_ok k' c" "removing c = None"
    "same_counts c (pcs s th)"
  shows "sys_inv (goto th c k' s)"
  using assms kinv_neutral [OF _ assms(3)] evolves_neutral [OF assms(3)]
  by (intro sys_inv_quiet) (simp_all add: sys_inv_def)

lemma sys_inv_thread:
  "sys_inv s \<Longrightarrow> kinv (ks s)" "sys_inv s \<Longrightarrow> pc_ok (ks s) (pcs s th)"
  by (simp_all add: sys_inv_def threads_ok_def)

lemma ptr_ok_neutral: "neutral k k' \<Longrightarrow> ptr_ok k i p \<Longrightarrow> ptr_ok k' i p"
  by (auto simp: neutral_def ptr_ok_def)

lemma ptr_ok_becomes: "service_becomes q t t' k k' \<Longrightarrow> tag t' = tag t \<Longrightarrow> ptr_ok k i p \<Longrightarrow> ptr_ok k' i p"
  by (auto simp: service_becomes_def put_ts_def ptr_ok_def)

lemma resume_facts:
  "pc_ok k (Updating i lev c) \<Longrightarrow> neutral k k' \<Longrightarrow> pc_ok k' (resume i lev c)"
  "pc_ok k (Rewriting i lev a n c) = pc_ok k (Updating i lev c)"
  "pc_ok k (Assigning i lev j new c) = pc_ok k (Updating i lev c)"
  "pc_ok k (Updating i lev c) \<Longrightarrow> neutral k k' \<Longrightarrow> pc_ok k' (Updating i lev c)"
  "same_counts (resume i lev c) (Updating i lev c)" "same_counts (Rewriting i lev a n c) (Updating i lev c)"
  "same_counts (Assigning i lev j new c) (Updating i lev c)"
  "removing (resume i lev c) = None"
  by (cases c; auto simp: same_counts_def intro: ptr_ok_neutral)+

declare same_counts_def [simp]

lemma thread_step_inv:
  assumes s: "sys_inv s" and th: "th < PID_MAX" and step: "thread_step th s s'"
  shows "sys_inv s'"
  using step
proof cases
  case (get_call k c perm i k')
  then show ?thesis
    using sys_inv_moved [OF s th tag_get_select_neutral [OF get_call(3)], of "Getting k c perm i"]
      tag_get_select_found [OF get_call(3)] by simp
next
  case (get_refused k c perm r k')
  then show ?thesis using sys_inv_moved [OF s th] tag_get_select_neutral by simp
next
  case (get_locked k c perm i e r k')
  then show ?thesis using sys_inv_moved [OF s th] tag_get_locked_neutral by simp
next
  case (get_created k c perm i e k')
  have "c = CREATE_TAG" using tag_get_none_creates [OF get_created(4)] .
  then show ?thesis
    using get_created tag_get_create_kinv [OF sys_inv_thread(1) [OF s], of e k perm i k']
    by (auto intro!: sys_inv_quiet [OF s _ _ _ th])
next
  case (get_counted i)
  then show ?thesis using sys_inv_moved [OF s th, of "dec_remaining (ks s)"] by simp
next
  case (get_published i e r k')
  then show ?thesis using sys_inv_moved [OF s th] tag_get_device_neutral by simp
next
  case (send_call e i lev u sz p page n k')
  note n = tag_send_enter_neutral [OF send_call(4)]
  have "pc_ok k' (Sending i lev p page n sz)"
    using tag_send_enter_found [OF send_call(4)] slot_ptr(1) [OF sys_inv_thread(1) [OF s]] ptr_ok_neutral [OF n] by simp
  then show ?thesis using send_call sys_inv_moved [OF s th n] by simp
next
  case (send_refused e i lev u sz r k')
  then show ?thesis using sys_inv_moved [OF s th] tag_send_enter_neutral by simp
next
  case (send_locked i lev p page n sz e r k')
  have "ptr_ok (ks s) i p" "lev_ok lev" using sys_inv_thread(2) [OF s, of th] send_locked(2) by simp_all
  then have "kinv k' \<and> evolves {} (ks s) k'"
    using send_locked_kinv [OF sys_inv_thread(1) [OF s] send_locked(4)] by (simp add: ptr_ok_def lev_ok_def)
  then show ?thesis using send_locked(1,2) by (auto intro!: sys_inv_quiet [OF s _ _ _ th])
next
  case (receive_call e i lev u p k' sz)
  note n = tag_receive_check_neutral [OF receive_call(4)]
  have "pc_ok k' (Checked i lev p u sz)"
    using tag_receive_check_found [OF receive_call(4)] slot_ptr(1) [OF sys_inv_thread(1) [OF s]] ptr_ok_neutral [OF n] by simp
  then show ?thesis using receive_call sys_inv_moved [OF s th n] by simp
next
  case (receive_refused e i lev u r k')
  then show ?thesis using sys_inv_moved [OF s th] tag_receive_check_neutral by simp
next
  case (receive_count i lev p u sz k')
  obtain t where b: "service_becomes p t (count_total atomic_inc t) (ks s) k'"
    using receive_total_state [OF receive_count(3)] .
  have "pc_ok k' (Counted i lev p u sz)" using sys_inv_thread(2) [OF s, of th] receive_count(2) ptr_ok_becomes [OF b] by simp
  then show ?thesis using receive_count(1,2) sys_inv_counts(1) [OF s th _ _ b] by simp
next
  case (receive_enter i lev p u sz k')
  have pc: "ptr_ok (ks s) i p" "lev_ok lev" using sys_inv_thread(2) [OF s, of th] receive_enter(2) by simp_all
  obtain t where b: "service_becomes p t (recounted lev atomic_inc t) (ks s) k'"
    using receive_level_state [OF sys_inv_thread(1) [OF s] receive_enter(3)] pc(2) by (auto simp: lev_ok_def)
  have "pc_ok k' (Updating i lev (Entering p u sz))" using pc ptr_ok_becomes [OF b] by simp
  then show ?thesis using receive_enter(1,2) sys_inv_counts(3) [OF s th _ _ b pc(2)] by simp
next
  case (update_skipped i lev c)
  have "pc_ok (ks s) (resume i lev c)" using sys_inv_thread(2) [OF s, of th] update_skipped(2) resume_facts(1) by simp
  then show ?thesis using update_skipped sys_inv_moved [OF s th neutral_refl] resume_facts(5,8) by simp
next
  case (update_read i lev c a n)
  then show ?thesis
    using sys_inv_moved [OF s th neutral_refl] sys_inv_thread(2) [OF s, of th] resume_facts(2,6) by simp
next
  case (update_freed i lev a n c e j new k')
  note n = update_parts_neutral(1) [OF update_freed(3)]
  have "pc_ok (ks s) (Updating i lev c)"
    using sys_inv_thread(2) [OF s, of th] update_freed(2) resume_facts(2) [of "ks s" i lev a n c] by simp
  then have "pc_ok k' (Assigning i lev j new c)" using resume_facts(3,4) n by blast
  moreover have "same_counts (Assigning i lev j new c) (Rewriting i lev a n c)"
    using resume_facts(6) [of i lev a n c] resume_facts(7) [of i lev j new c] by simp
  ultimately show ?thesis using update_freed(1,2) sys_inv_moved [OF s th n] by simp
next
  case (update_written i lev j new c k')
  note n = update_parts_neutral(2) [OF update_written(3)]
  have "pc_ok (ks s) (Updating i lev c)"
    using sys_inv_thread(2) [OF s, of th] update_written(2) resume_facts(3) [of "ks s" i lev j new c] by simp
  then have "pc_ok k' (resume i lev c)" using resume_facts(1) n by blast
  moreover have "same_counts (resume i lev c) (Assigning i lev j new c)"
    using resume_facts(5) [of i lev c] resume_facts(7) [of i lev j new c] by simp
  ultimately show ?thesis using update_written(1,2) sys_inv_moved [OF s th n] resume_facts(8) by simp
next
  case (receive_wake i lev p u sz t c signal)
  then show ?thesis using sys_inv_moved [OF s th neutral_refl] sys_inv_thread(2) [OF s, of th] by simp
next
  case (receive_section signal i lev p u sz)
  have n: "neutral (ks s) (rcu_read_lock th (ks s))" by simp
  show ?thesis
    using receive_section sys_inv_moved [OF s th n] sys_inv_thread(2) [OF s, of th] ptr_ok_neutral [OF n] by simp
next
  case (receive_read signal i lev p u sz signal' t r bs)
  then show ?thesis using sys_inv_moved [OF s th neutral_refl] sys_inv_thread(2) [OF s, of th] by simp
next
  case (receive_unlock i lev p r bs)
  note n = neutral_unlock [of "ks s" th]
  show ?thesis
    using receive_unlock sys_inv_moved [OF s th n] sys_inv_thread(2) [OF s, of th] ptr_ok_neutral [OF n] by simp
next
  case (receive_uncount i lev p r bs k')
  obtain t where b: "service_becomes p t (count_total atomic_dec t) (ks s) k'"
    using receive_total_state [OF receive_uncount(3)] .
  have "pc_ok k' (Uncounted i lev p r bs)" using sys_inv_thread(2) [OF s, of th] receive_uncount(2) ptr_ok_becomes [OF b] by simp
  then show ?thesis using receive_uncount(1,2) sys_inv_counts(2) [OF s th _ _ b] by simp
next
  case (receive_leave i lev p r bs k')
  have lev: "lev_ok lev" using sys_inv_thread(2) [OF s, of th] receive_leave(2) by simp
  obtain t where b: "service_becomes p t (recounted lev atomic_dec t) (ks s) k'"
    using receive_level_state [OF sys_inv_thread(1) [OF s] receive_leave(3)] lev by (auto simp: lev_ok_def)
  show ?thesis using receive_leave(1,2) sys_inv_counts(4) [OF s th _ _ b lev] by simp
next
  case (receive_return r bs)
  have n: "neutral (ks s) (module_put (ks s))" by simp
  then show ?thesis using receive_return sys_inv_moved [OF s th n, of Idle] by (simp add: same_counts_def)
next
  case (ctl_call i c p k')
  note n = tag_ctl_enter_neutral [OF ctl_call(3)]
  have "pc_ok k' (Controlling c i p)"
    using tag_ctl_enter_found [OF ctl_call(3)] slot_ptr(1) [OF sys_inv_thread(1) [OF s]] ptr_ok_neutral [OF n] by simp
  then show ?thesis using ctl_call sys_inv_moved [OF s th n] by simp
next
  case (ctl_refused i c r k')
  then show ?thesis using sys_inv_moved [OF s th] tag_ctl_enter_neutral by simp
next
  case (ctl_locked c i p e r k')
  have "c = REMOVE_TAG \<or> c = AWAKE_ALL" using sys_inv_thread(2) [OF s, of th] ctl_locked(2) by simp
  then show ?thesis
    using ctl_locked ctl_locked_kinv [OF sys_inv_thread(1) [OF s] ctl_locked(4)]
    by (auto intro!: sys_inv_quiet [OF s _ _ _ th])
next
  case (ctl_marked c i p e k')
  have pc: "c = REMOVE_TAG \<or> c = AWAKE_ALL" "ptr_ok (ks s) i p"
    using sys_inv_thread(2) [OF s, of th] ctl_marked(2) by simp_all
  obtain t t' where C: "kinv k'" "evolves {} (ks s) k'" "heap (ks s) p = Some t" "lazy_deleted t \<noteq> YES"
    "heap k' p = Some t'" "lazy_deleted t' = YES" "allowed (euid e) t'"
    using ctl_locked_kinv [OF sys_inv_thread(1) [OF s] ctl_marked(4) pc(1)] by blast
  have "ptr_ok k' i p" using ptr_ok_moves [OF pc(2) evolves_moves [OF C(2)]] .
  then have "pc_ok k' (Removing i p)" using C(5,6) by (simp add: ptr_ok_def)
  moreover have "removing (pcs s th') \<noteq> Some p" for th'
    using sys_inv_thread(2) [OF s, of th'] C(3,4) by (cases "pcs s th'") auto
  ultimately show ?thesis using ctl_marked(1-3) C(5,7) by (auto intro!: sys_inv_quiet [OF s C(1,2) _ th])
next
  case (ctl_destroyed i p k')
  obtain t where t: "heap (ks s) p = Some t" "lazy_deleted t = YES" "tag t = i"
    using sys_inv_thread(2) [OF s, of th] ctl_destroyed(2) by auto
  note n = tag_ctl_destroy_neutral [OF ctl_destroyed(3)]
  have k: "kinv k'" "evolves {} (ks s) k'" "heap k' = heap (ks s)"
    using kinv_neutral [OF sys_inv_thread(1) [OF s] n] evolves_neutral [OF n] neutral_views(4) [OF n] by simp_all
  have "removing (pcs s th') \<noteq> Some p" if "th' \<noteq> th" for th'
    using s that ctl_destroyed(2) unfolding sys_inv_def threads_ok_def by fastforce
  moreover have "allowed (thread_euid s th) t"
    using s t(1) ctl_destroyed(2) unfolding sys_inv_def threads_ok_def by auto
  ultimately show ?thesis
    using ctl_destroyed(1,2) t k(3) by (auto intro!: sys_inv_goto [OF s k(1,2) _ th])
next
  case (ctl_removed i p r k')
  obtain t where t: "heap (ks s) p = Some t" "lazy_deleted t = YES" "tag t = i"
    using sys_inv_thread(2) [OF s, of th] ctl_removed(2) by auto
  have F: "kinv k'" "evolves {p} (ks s) k'"
    using ctl_unlink_kinv [OF sys_inv_thread(1) [OF s] ctl_removed(3) t] by simp_all
  have "removing (pcs s th') \<noteq> Some p" if "th' \<noteq> th" for th'
    using s that ctl_removed(2) unfolding sys_inv_def threads_ok_def by fastforce
  then show ?thesis using ctl_removed(1,2) by (auto intro!: sys_inv_goto [OF s F _ th])
next
  case (read_returned d f u n b killed r bs f' k')
  then show ?thesis using sys_inv_moved [OF s th ts_read_locked_neutral [OF read_returned(3)]] by simp
qed (use sys_inv_moved [OF s th neutral_refl] in simp_all)

text \<open>A callback, which runs in no thread.\<close>

lemma callback_inv:
  assumes s: "sys_inv s" and q: "rcu_queue (ks s) = q1 @ (c, rs) # q2"
    and r: "run_callback c ((ks s)\<lparr>rcu_queue := q1 @ q2\<rparr>) = Inr k'"
  shows "sys_inv (s\<lparr>ks := k'\<rparr>)"
proof -
  have k: "kinv k'" "evolves {} (ks s) k'" using run_callback_kinv [OF sys_inv_thread(1) [OF s] q] r by auto
  have th: "\<exists>th. th < PID_MAX \<and> goto th (pcs s th) k' s = s\<lparr>ks := k'\<rparr>"
    by (rule exI [of _ 0]) (simp add: goto_def PID_MAX_def)
  then obtain th where th: "th < PID_MAX" "goto th (pcs s th) k' s = s\<lparr>ks := k'\<rparr>" by blast
  have "pc_ok k' (pcs s th)"
    using pc_ok_moves [OF sys_inv_thread(2) [OF s] evolves_moves [OF k(2)] sys_inv_thread(1) [OF s]] by simp
  moreover have "removing (pcs s th') \<noteq> Some p" if "th' \<noteq> th" "removing (pcs s th) = Some p" for th' p
    using s that unfolding sys_inv_def threads_ok_def by blast
  moreover have "allowed (thread_euid s th) t" if "removing (pcs s th) = Some p" "heap k' p = Some t" for p t
    using allowed_moves [OF _ _ evolves_moves [OF k(2)] that] s by (simp add: sys_inv_def)
  ultimately have "sys_inv (goto th (pcs s th) k' s)" by (intro sys_inv_quiet [OF s k _ th(1)]) simp_all
  then show ?thesis using th(2) by simp
qed

lemma sys_init_inv: "sys_init s \<Longrightarrow> sys_inv s"
proof -
  assume s: "sys_init s"
  then obtain w where w: "ks s = booted w" by (auto simp: sys_init_def)
  have "entry (booted w) i = None" if "i < 4096" for i using that by (rule booted_entry)
  moreover have "\<not> held (booted w) i" for i by (simp add: held_def held_at_def in_range_def booted_def)
  ultimately have "kinv (booted w)"
    unfolding kinv_def table_shape_def services_ok_def callbacks_ok_def by (auto simp: booted_def pending_def)
  then show ?thesis using s w by (simp add: sys_inv_def threads_ok_def sys_init_def) (simp add: booted_def)
qed

lemma sys_step_inv: "sys_inv s \<Longrightarrow> sys_step s s' \<Longrightarrow> sys_inv s'"
  by (erule sys_stepE) (auto intro: thread_step_inv callback_inv)

interpretation module: transition_system sys_init sys_step sys_inv
  by unfold_locales (auto intro: sys_init_inv sys_step_inv)

end
