(* ===== verification/Conc_Rcu.thy ===== *)
theory Conc_Rcu
  imports Conc_System
begin

text \<open>
  Grace periods: the readers of the kernel state are the threads in their RCU section, a callback waits
  only for such readers, and so every delivery ends: the readers can leave, the callback can run, and
  the lock that the delivery kept is free.
\<close>

section \<open>Readers and callbacks\<close>

definition rcu_same :: "kstate \<Rightarrow> kstate \<Rightarrow> bool" where
  "rcu_same k k' \<longleftrightarrow> rcu_readers k' = rcu_readers k \<and> rcu_queue k' = rcu_queue k"

text \<open>A piece of code that queues at most a callback that waits for all present readers.\<close>

definition rcu_frame :: "kstate \<Rightarrow> kstate \<Rightarrow> bool" where
  "rcu_frame k k' \<longleftrightarrow> rcu_readers k' = rcu_readers k
     \<and> (\<forall>(c, rs) \<in> set (rcu_queue k'). (c, rs) \<in> set (rcu_queue k) \<or> rs = rcu_readers k)"

lemma rcu_same_refl [simp]: "rcu_same k k"
  by (simp add: rcu_same_def)

lemma rcu_same_trans: "rcu_same k k' \<Longrightarrow> rcu_same k' k'' \<Longrightarrow> rcu_same k k''"
  by (simp add: rcu_same_def)

lemma rcu_same_frame: "rcu_same k k' \<Longrightarrow> rcu_frame k k'"
  by (auto simp: rcu_same_def rcu_frame_def)

lemma rcu_same_simps [simp]:
  "rcu_same k (module_get k') = rcu_same k k'" "rcu_same k (module_put k') = rcu_same k k'"
  "rcu_same (module_get k) k' = rcu_same k k'" "rcu_same k (set_first_free i k') = rcu_same k k'"
  "rcu_same k (dec_remaining k') = rcu_same k k'" "rcu_same k (inc_remaining k') = rcu_same k k'"
  "rcu_same k (put_ts p t k') = rcu_same k k'" "rcu_same k (free_ts p k') = rcu_same k k'"
  "rcu_same k (unlocked i k') = rcu_same k k'" "rcu_same k (locked i k') = rcu_same k k'"
  "rcu_same k (kmark o' k') = rcu_same k k'" "rcu_same k (k'\<lparr>tsm := m\<rparr>) = rcu_same k k'"
  "rcu_same k (k'\<lparr>live := l\<rparr>) = rcu_same k k'" "rcu_same k (k'\<lparr>next_addr := n\<rparr>) = rcu_same k k'"
  by (simp_all add: rcu_same_def module_get_def module_put_def set_first_free_def dec_remaining_def inc_remaining_def
      put_ts_def free_ts_def unlocked_def locked_def kmark_def)

lemma rcu_frame_put [simp]: "rcu_frame k (module_put k') = rcu_frame k k'"
  by (simp add: rcu_frame_def module_put_def)

lemma rcu_same_core: "core k' = core k \<Longrightarrow> rcu_same k k'"
  using core_eqD(5,6) [of k' k] by (simp add: rcu_same_def)

lemma rcu_same_lock: "mutex_lock i k = Inr k' \<Longrightarrow> rcu_same k k'" "mutex_unlock i k = Inr k' \<Longrightarrow> rcu_same k k'"
  by (auto simp: mutex_lock_def mutex_unlock_def elim!: and_then_InrE)

lemma rcu_same_unlock:
  "rcu_same k k1 \<Longrightarrow> mutex_unlock j (put_ts p t k1) = Inr k2 \<or> mutex_unlock j k1 = Inr k2 \<Longrightarrow> rcu_same k k2"
  by (auto dest!: rcu_same_lock(2)) (auto simp: rcu_same_def put_ts_def)

lemma rcu_same_slot: "set_slot i v k = Inr k' \<Longrightarrow> rcu_same k k'"
  by (auto simp: set_slot_def elim!: and_then_InrE)

lemma scan_entries_rcu: "scan_entries i n s = Inr s' \<Longrightarrow> rcu_same s s'"
  by (induction i n s rule: scan_entries.induct) (auto elim!: and_then_InrE split: if_splits)

lemma find_first_rcu: "find_first_entry_available s = Inr (i, s') \<Longrightarrow> rcu_same s s'"
  by (auto simp: find_first_entry_available_def elim!: and_then_InrE split: if_splits dest: scan_entries_rcu)

lemma tag_get_select_rcu: "tag_get_select ky c perm k = Inr (x, k') \<Longrightarrow> rcu_same k k'"
  by (auto simp: tag_get_select_def Let_def elim!: and_then_InrE split: if_splits dest!: find_first_rcu)

lemma tag_get_create_rcu:
  assumes "tag_get_create e ky perm i k = Inr (x, k')" shows "rcu_same k k'"
proof -
  let ?p = "next_addr k"
  let ?s1 = "kmark (TsObj ?p) (k\<lparr>next_addr := ?p + 1\<rparr>)"
  obtain good m ls s2 where il: "init_levels e ?p i 0 32 [] (kmark (LevelsObj ?p) ?s1) = (good, m, ls, s2)"
    by (metis prod_cases4)
  have s2: "s2 = (kmark (LevelsObj ?p) ?s1)\<lparr>live := live (kmark (LevelsObj ?p) ?s1) \<union> MessageObj ?p ` {0..<m}\<rparr>"
    using init_levels_effect [OF il] by simp
  show ?thesis
    using assms il
    by (auto simp: tag_get_create_def Let_def mutex_unlock_eq s2 fail_no_mem_effect elim!: and_then_InrE
        split: if_splits dest!: rcu_same_slot) (auto simp: rcu_same_def kmark_def put_ts_def unlocked_def)
qed

lemma tag_get_locked_rcu:
  assumes "tag_get_locked e ky c perm i k = Inr (x, k')" shows "rcu_same k k'"
proof -
  obtain k1 where l: "mutex_lock i k = Inr k1" using assms by (auto simp: tag_get_locked_def elim!: and_then_InrE)
  have "rcu_same k1 k'"
    using assms l
    by (auto simp: tag_get_locked_def mutex_unlock_eq elim!: and_then_InrE split: if_splits
        dest: tag_get_create_rcu tag_get_open_state)
  then show ?thesis using rcu_same_trans rcu_same_lock(1) [OF l] by blast
qed

lemma tag_get_device_rcu: "tag_get_device e i k = Inr (r, k') \<Longrightarrow> rcu_same k k'"
  by (auto simp: tag_get_device_def elim!: and_then_InrE dest!: drv.create_client rcu_same_core)

lemma dec_remaining_rcu [simp]: "rcu_same (dec_remaining k) k' = rcu_same k k'"
  by (simp_all add: rcu_same_def dec_remaining_def)

lemma tag_get_publish_rcu: "tag_get_publish e i k = Inr (r, k') \<Longrightarrow> rcu_same k k'"
  unfolding tag_get_publish_def by (drule tag_get_device_rcu) simp

lemma tag_send_enter_rcu: "tag_send_enter e i lev u sz k = Inr (x, k') \<Longrightarrow> rcu_same k k'"
  by (auto simp: tag_send_enter_def Let_def elim!: and_then_InrE split: if_splits option.splits prod.splits)

lemma tag_receive_check_rcu: "tag_receive_check e i lev u k = Inr (x, k') \<Longrightarrow> rcu_same k k'"
  by (auto simp: tag_receive_check_def Let_def elim!: and_then_InrE split: if_splits option.splits)

lemma tag_ctl_enter_rcu: "tag_ctl_enter i c k = Inr (x, k') \<Longrightarrow> rcu_same k k'"
  by (auto simp: tag_ctl_enter_def Let_def elim!: and_then_InrE split: if_splits option.splits)

lemma tag_receive_total_rcu: "tag_receive_total f p k = Inr k' \<Longrightarrow> rcu_same k k'"
  by (auto simp: tag_receive_total_def elim!: and_then_InrE)

lemma tag_receive_level_rcu: "tag_receive_level f lev p k = Inr k' \<Longrightarrow> rcu_same k k'"
  by (auto simp: tag_receive_level_def elim!: and_then_InrE)

lemma device_piece_rcu:
  "update_free e lev a n k = Inr (x, k') \<Longrightarrow> rcu_same k k'" "update_assign j new k = Inr k' \<Longrightarrow> rcu_same k k'"
  "ts_read_locked killed d u m f b k = Inr (y, k') \<Longrightarrow> rcu_same k k'"
  by (erule update_parts_core [THEN rcu_same_core], erule update_parts_core [THEN rcu_same_core],
      erule ts_read_locked_client [THEN conjunct1, THEN rcu_same_core])

lemma tag_ctl_destroy_rcu: "tag_ctl_destroy p k = Inr k' \<Longrightarrow> rcu_same k k'"
  using tag_ctl_destroy_core rcu_same_core by blast

lemma tag_ctl_unlink_rcu: "tag_ctl_unlink i p k = Inr (r, k') \<Longrightarrow> rcu_same k k'"
  by (auto simp: tag_ctl_unlink_def elim!: and_then_InrE dest!: rcu_same_slot find_first_rcu) (simp add: rcu_same_def)

text \<open>The two pieces that may queue a callback.\<close>

lemma call_rcu_frame: "rcu_same k k1 \<Longrightarrow> rcu_frame k (call_rcu c k1)"
  by (auto simp: rcu_same_def rcu_frame_def call_rcu_def)

lemma unlock_frame:
  "rcu_same k k1 \<Longrightarrow> mutex_unlock j (put_ts p t k1) = Inr k2 \<Longrightarrow> rcu_frame k k2"
  "rcu_same k k1 \<Longrightarrow> mutex_unlock j k1 = Inr k2 \<Longrightarrow> rcu_frame k k2"
  using rcu_same_unlock rcu_same_frame by metis+

lemma tag_send_locked_rcu:
  assumes "tag_send_locked e i lev p page n sz k = Inr (r, k')" shows "rcu_frame k k'"
proof -
  obtain k1 where l: "mutex_lock i k = Inr k1" using assms by (auto simp: tag_send_locked_def elim!: and_then_InrE)
  have s: "rcu_same k k1" "rcu_same k (put_ts p t k1)" for t using rcu_same_lock(1) [OF l] by simp_all
  show ?thesis
    using assms l call_rcu_frame [OF s(2)]
    by (auto simp: tag_send_locked_def elim!: and_then_InrE split: if_splits dest!: unlock_frame [OF s(1)])
qed

lemma tag_ctl_locked_rcu:
  assumes "tag_ctl_locked e c p k = Inr (x, k')" shows "rcu_frame k k'"
proof -
  obtain t k1 where g: "get_ts k p = Inr t" and l: "mutex_lock (tag t) k = Inr k1"
    using assms by (auto simp: tag_ctl_locked_def elim!: and_then_InrE)
  have s: "rcu_same k k1" "rcu_same k (put_ts p t k1)" for t using rcu_same_lock(1) [OF l] by simp_all
  show ?thesis
    using assms l g call_rcu_frame [OF s(2)] rcu_same_frame [OF s(1)]
    by (auto simp: tag_ctl_locked_def tag_ctl_remove_def tag_ctl_awake_def Let_def put_ts_twice
        elim!: and_then_InrE split: if_splits dest!: unlock_frame [OF s(1)])
qed

section \<open>The invariant\<close>

fun in_section :: "pc \<Rightarrow> bool" where
  "in_section (Reading sg i lev p u sz) = True"
| "in_section (Copied i lev p r bs) = True"
| "in_section _ = False"

definition rcu_inv :: "sys \<Rightarrow> bool" where
  "rcu_inv s \<longleftrightarrow> rcu_readers (ks s) = {th. in_section (pcs s th)}
     \<and> (\<forall>(c, rs) \<in> set (rcu_queue (ks s)). \<forall>th \<in> rs. in_section (pcs s th))"

lemma rcu_inv_answer [simp]: "rcu_inv (answer th r bs c k s) = rcu_inv (goto th c k s)"
  by (simp add: rcu_inv_def)

lemma rcu_inv_goto:
  "rcu_inv s \<Longrightarrow> rcu_frame (ks s) k' \<Longrightarrow> in_section c = in_section (pcs s th) \<Longrightarrow> rcu_inv (goto th c k' s)"
  unfolding rcu_inv_def rcu_frame_def by (fastforce split: if_splits)

lemma rcu_frame_refl [simp]: "rcu_frame k k"
  by (simp add: rcu_same_frame)

lemmas piece_rcu = tag_get_select_rcu [THEN rcu_same_frame] tag_get_locked_rcu [THEN rcu_same_frame]
  tag_get_device_rcu [THEN rcu_same_frame] tag_send_enter_rcu [THEN rcu_same_frame] tag_send_locked_rcu
  tag_receive_check_rcu [THEN rcu_same_frame] tag_receive_total_rcu [THEN rcu_same_frame]
  tag_receive_level_rcu [THEN rcu_same_frame] device_piece_rcu [THEN rcu_same_frame] tag_ctl_enter_rcu [THEN rcu_same_frame] tag_ctl_locked_rcu
  tag_ctl_destroy_rcu [THEN rcu_same_frame] tag_ctl_unlink_rcu [THEN rcu_same_frame]

lemma dec_remaining_frame [simp]: "rcu_frame k (dec_remaining k)"
  by (rule rcu_same_frame) simp

lemma resume_outside [simp]: "\<not> in_section (resume i lev c)"
  by (cases c) simp_all

lemma thread_step_rcu:
  assumes s: "rcu_inv s" and step: "thread_step th s s'"
  shows "rcu_inv s'"
  using step
proof cases
  case (receive_section signal i lev p u sz)
  then show ?thesis using s by (fastforce simp: rcu_inv_def rcu_read_lock_def split: if_splits)
next
  case (receive_unlock i lev p r bs)
  then show ?thesis using s by (auto simp: rcu_inv_def rcu_read_unlock_def)
qed ((drule piece_rcu)?, simp add: rcu_inv_goto [OF s])+

definition full_inv :: "sys \<Rightarrow> bool" where
  "full_inv s \<longleftrightarrow> sys_inv s \<and> rcu_inv s"

lemma full_step: "full_inv s \<Longrightarrow> sys_step s s' \<Longrightarrow> full_inv s'"
proof (erule sys_stepE)
  fix q1 c q2 k'
  assume s: "full_inv s" and c: "s' = s\<lparr>ks := k'\<rparr>" "rcu_queue (ks s) = q1 @ (c, {}) # q2"
    "run_callback c ((ks s)\<lparr>rcu_queue := q1 @ q2\<rparr>) = Inr k'"
  have i: "sys_inv s" "rcu_inv s" using s by (simp_all add: full_inv_def)
  have "rcu_queue k' = q1 @ q2" "rcu_readers k' = rcu_readers (ks s)"
    using run_callback_kinv [OF sys_inv_thread(1) [OF i(1)] c(2)] c(3) by auto
  then have "rcu_inv s'" using i(2) c(1,2) by (simp add: rcu_inv_def ball_Un)
  then show "full_inv s'" using callback_inv [OF i(1) c(2,3)] c(1) by (simp add: full_inv_def)
next
  fix th assume "full_inv s" "th < PID_MAX" "thread_step th s s'"
  then show "full_inv s'" by (auto simp: full_inv_def intro: thread_step_inv thread_step_rcu)
qed

lemma full_init: "sys_init s \<Longrightarrow> full_inv s"
  using sys_init_inv by (auto simp: full_inv_def rcu_inv_def sys_init_def booted_def)

interpretation rcu: transition_system sys_init sys_step full_inv
  by unfold_locales (auto intro: full_init full_step)

section \<open>Every delivery ends\<close>

lemma read_returns:
  assumes "ts_wf i t" "lev_ok lev" shows "\<exists>r bs. tag_receive_read sg lev u sz t = Inr (r, bs)"
proof -
  have lev: "0 \<le> lev" "lev < 32" using assms(2) by (simp_all add: lev_ok_def)
  have "level_wf i (level t ! nat lev)" using level_wf_at [OF assms(1) lev] .
  moreover have "get_level t lev = Inr (level t ! nat lev)" using assms(1) lev by (intro get_level_ok) (simp_all add: ts_wf_def)
  ultimately show ?thesis
    by (simp add: tag_receive_read_def copy_to_user_def receive_size_def level_wf_def Let_def)
qed

text \<open>A receiver in its section has a service to read.\<close>

definition readable :: "sys \<Rightarrow> bool" where
  "readable s \<longleftrightarrow> (\<forall>th sg i lev p u sz. pcs s th = Reading sg i lev p u sz \<longrightarrow> heap (ks s) p \<noteq> None)"

lemma reader_leaves:
  assumes s: "full_inv s" "readable s" "in_section (pcs s th)"
  obtains c s' where "sys_step\<^sup>*\<^sup>* s s'" "\<not> in_section c" "pcs s' = (pcs s)(th := c)"
    "ks s' = rcu_read_unlock th (ks s)" "thread_euid s' = thread_euid s"
proof -
  note leave = that
  have i: "sys_inv s" using s(1) by (simp add: full_inv_def)
  have "pcs s th \<noteq> Idle" using s(3) by auto
  then have th: "th < PID_MAX" using i by (simp add: sys_inv_def threads_ok_def)
  have unlock: thesis if c: "sys_step\<^sup>*\<^sup>* s s1" "pcs s1 = (pcs s)(th := Copied i lev p r bs)" "ks s1 = ks s"
    "thread_euid s1 = thread_euid s" for s1 i lev p r bs
  proof -
    have "thread_step th s1 (goto th (Leaving i lev p r bs) (rcu_read_unlock th (ks s1)) s1)"
      using c(2) by (intro thread_step.receive_unlock) simp
    then have "sys_step s1 (goto th (Leaving i lev p r bs) (rcu_read_unlock th (ks s1)) s1)" by (rule sys_step.thread [OF th])
    with c(1) have "sys_step\<^sup>*\<^sup>* s (goto th (Leaving i lev p r bs) (rcu_read_unlock th (ks s1)) s1)"
      by (rule rtranclp.rtrancl_into_rtrancl)
    then show thesis by (rule leave [where c = "Leaving i lev p r bs"]) (use c in simp_all)
  qed
  from s(3) consider sg i lev p u sz where "pcs s th = Reading sg i lev p u sz"
    | i lev p r bs where "pcs s th = Copied i lev p r bs" by (cases "pcs s th") auto
  then show thesis
  proof cases
    case (1 sg i lev p u sz)
    obtain t where t: "heap (ks s) p = Some t" using s(2) 1 unfolding readable_def by blast
    have pc: "lev_ok lev" using sys_inv_thread(2) [OF i, of th] 1 by simp
    obtain r bs where r: "tag_receive_read sg lev u sz t = Inr (r, bs)"
      using read_returns [OF kinv_service(1) [OF sys_inv_thread(1) [OF i] t] pc] by blast
    have "get_ts (ks s) p = Inr t" using t by (simp add: get_ts_def)
    from thread_step.receive_read [OF 1 impI this r]
    have "thread_step th s (goto th (Copied i lev p r bs) (ks s) s)" .
    then have "sys_step\<^sup>*\<^sup>* s (goto th (Copied i lev p r bs) (ks s) s)" using sys_step.thread [OF th] by blast
    then show thesis by (rule unlock) simp_all
  next
    case (2 i lev p r bs)
    then have "(pcs s)(th := Copied i lev p r bs) = pcs s" by auto
    then show thesis by (intro unlock [of s i lev p r bs]) simp_all
  qed
qed

lemma grace_period_ends:
  assumes "finite rs" "full_inv s" "readable s" "rcu_queue (ks s) = q1 @ (c, rs) # q2"
  shows "\<exists>s' q1' q2'. sys_step\<^sup>*\<^sup>* s s' \<and> full_inv s' \<and> heap (ks s') = heap (ks s)
    \<and> rcu_queue (ks s') = q1' @ (c, {}) # q2'"
  using assms
proof (induction "card rs" arbitrary: rs s q1 q2)
  case 0
  then show ?case by auto
next
  case (Suc n)
  then obtain th where th: "th \<in> rs" by (metis card.empty equals0I nat.distinct(1))
  have "rcu_inv s" using Suc.prems(2) by (simp add: full_inv_def)
  then have "in_section (pcs s th)" using Suc.prems(4) th by (simp add: rcu_inv_def)
  from reader_leaves [OF Suc.prems(2,3) this] obtain d s1 where s1: "sys_step\<^sup>*\<^sup>* s s1" "\<not> in_section d"
    "pcs s1 = (pcs s)(th := d)" "ks s1 = rcu_read_unlock th (ks s)" by metis
  have inv: "full_inv s1" using rcu.run_inv [OF s1(1) Suc.prems(2)] .
  have "readable s1" using Suc.prems(3) s1(2-4) unfolding readable_def by (simp add: rcu_read_unlock_def) force
  moreover have "rcu_queue (ks s1) = map (\<lambda>(c, rs). (c, rs - {th})) q1 @ (c, rs - {th}) # map (\<lambda>(c, rs). (c, rs - {th})) q2"
    using Suc.prems(4) s1(4) by (simp add: rcu_read_unlock_def)
  moreover have "n = card (rs - {th})" "finite (rs - {th})" using Suc.hyps(2) Suc.prems(1) th by simp_all
  ultimately obtain s' q1' q2' where "sys_step\<^sup>*\<^sup>* s1 s'" "full_inv s'" "heap (ks s') = heap (ks s1)"
    "rcu_queue (ks s') = q1' @ (c, {}) # q2'" using Suc.hyps(1) inv by blast
  moreover have "heap (ks s1) = heap (ks s)" using s1(4) by (simp add: rcu_read_unlock_def)
  ultimately show ?case using rtranclp_trans [OF s1(1)] by metis
qed

lemma held_lock_released:
  assumes s: "full_inv s" "readable s" and h: "held (ks s) i"
  shows "\<exists>s'. sys_step\<^sup>*\<^sup>* s s' \<and> \<not> held (ks s') i"
proof -
  have inv: "sys_inv s" "kinv (ks s)" using s(1) by (simp_all add: full_inv_def sys_inv_def)
  obtain c t where c: "c \<in> pending (ks s)" "heap (ks s) (cb_ptr c) = Some t" "tag t = i"
    using inv(2) h unfolding kinv_def callbacks_ok_def by blast
  obtain rs where "(c, rs) \<in> set (rcu_queue (ks s))" using c(1) by (auto simp: pending_def)
  then obtain q1 q2 where q: "rcu_queue (ks s) = q1 @ (c, rs) # q2" by (meson split_list)
  have "th < PID_MAX" if "th \<in> rs" for th
  proof -
    have "in_section (pcs s th)" using s(1) q that by (simp add: full_inv_def rcu_inv_def)
    then have "pcs s th \<noteq> Idle" by auto
    then show ?thesis using inv(1) by (simp add: sys_inv_def threads_ok_def)
  qed
  then have "finite rs" by (meson finite_lessThan finite_subset lessThan_iff subsetI)
  from grace_period_ends [OF this s q] obtain s1 q1' q2' where s1: "sys_step\<^sup>*\<^sup>* s s1" "full_inv s1"
    "heap (ks s1) = heap (ks s)" "rcu_queue (ks s1) = q1' @ (c, {}) # q2'" by blast
  have k1: "kinv (ks s1)" using s1(2) by (simp add: full_inv_def sys_inv_def)
  obtain k' t' where r: "run_callback c ((ks s1)\<lparr>rcu_queue := q1' @ q2'\<rparr>) = Inr k'"
    "heap (ks s1) (cb_ptr c) = Some t'" "\<not> held k' (tag t')"
    using run_callback_kinv [OF k1 s1(4)] by blast
  have "sys_step\<^sup>*\<^sup>* s (s1\<lparr>ks := k'\<rparr>)" using s1(1) sys_step.callback [OF s1(4) r(1)] by (rule rtranclp.rtrancl_into_rtrancl)
  moreover have "tag t' = i" using r(2) s1(3) c(2,3) by simp
  ultimately show ?thesis using r(3) by (intro exI [of _ "s1\<lparr>ks := k'\<rparr>"]) simp
qed

end
