(* ===== verification/Conc_Rest.thy ===== *)
theory Conc_Rest
  imports Conc_Rcu
begin

text \<open>
  What the invariant of \<open>Conc_System\<close> does not mention: the table's bookkeeping, the driver, the ledger of
  allocations, the marks and the stored messages, and what each piece of a call does to them.
\<close>

section \<open>The rest of the state\<close>

definition clean_service :: "tag_service \<Rightarrow> bool" where
  "clean_service t \<longleftrightarrow> (\<forall>n<32. message_ready (level t ! n) \<noteq> READY \<longrightarrow> message (level t ! n) = replicate 4096 NUL)
     \<and> (awake_request t = YES \<or> awake_request t = NO) \<and> (lazy_deleted t = YES \<or> lazy_deleted t = NO)"

definition rest_ok :: "kstate \<Rightarrow> bool" where
  "rest_ok k \<longleftrightarrow> 0 \<le> first_free_entry (tsm k) \<and> first_free_entry (tsm k) < 512 \<and> driver_wf k
     \<and> ledger_ok k \<and> (\<forall>p t. heap k p = Some t \<longrightarrow> clean_service t)"

lemma dev_held_steps [simp]:
  "dev_held (locked i k) = dev_held k" "dev_held (dec_remaining k) = dev_held k" "dev_held (inc_remaining k) = dev_held k"
  "dev_held (rcu_read_lock th k) = dev_held k" "dev_held (rcu_read_unlock th k) = dev_held k" "dev_held (call_rcu c k) = dev_held k"
  "dev_held (k\<lparr>rcu_queue := q\<rparr>) = dev_held k" "dev_held (set_first_free j k) = dev_held k" "dev_held (free_ts p k) = dev_held k"
  "dev_held (put_ts p t k) = dev_held k" "dev_held (k\<lparr>next_addr := n\<rparr>) = dev_held k"
  "dev_held (k\<lparr>module_refs := r\<rparr>) = dev_held k" "dev_held (k\<lparr>rcu_readers := rs\<rparr>) = dev_held k"
  by (simp_all add: fun_eq_iff dev_held_def locked_def dec_remaining_def inc_remaining_def rcu_read_lock_def
      rcu_read_unlock_def call_rcu_def set_first_free_def free_ts_def put_ts_def)

text \<open>
  A piece that keeps all this, does not touch the entries and the counter, and marks no service as
  deleted that is not in \<open>M\<close>; most pieces also leave the device locks as they were.
\<close>

definition keeps :: "nat set \<Rightarrow> kstate \<Rightarrow> kstate \<Rightarrow> bool" where
  "keeps M k k' \<longleftrightarrow> rest_ok k' \<and> all_tag_services (tsm k') = all_tag_services (tsm k)
     \<and> remaining_entries (tsm k') = remaining_entries (tsm k)
     \<and> (\<forall>q u. q \<notin> M \<longrightarrow> heap k' q = Some u \<longrightarrow> lazy_deleted u = YES \<longrightarrow> (\<exists>t. heap k q = Some t \<and> lazy_deleted t = YES))"

definition rests :: "nat set \<Rightarrow> kstate \<Rightarrow> kstate \<Rightarrow> bool" where
  "rests M k k' \<longleftrightarrow> keeps M k k' \<and> dev_held k' = dev_held k"

lemma rests_refl: "rest_ok k \<Longrightarrow> rests M k k"
  by (simp add: rests_def keeps_def)

lemma rests_table: "kinv k \<Longrightarrow> rest_ok k \<Longrightarrow> table_wf k"
  by (simp add: kinv_def table_shape_def rest_ok_def table_wf_def)

lemma rest_ok_core: "core k' = core k \<Longrightarrow> driver_wf k' = driver_wf k \<Longrightarrow> rest_ok k' = rest_ok k"
  using core_eqD [of k' k] by (simp add: rest_ok_def ledger_ok_def)

lemma rests_core:
  "rests M k k1 \<Longrightarrow> core k' = core k1 \<Longrightarrow> driver_wf k' = driver_wf k1 \<Longrightarrow> dev_held k' = dev_held k1 \<Longrightarrow> rests M k k'"
  using core_eqD [of k' k1] rest_ok_core [of k' k1] by (simp add: rests_def keeps_def)

lemma rest_ok_frame [simp]:
  "rest_ok (module_get k) = rest_ok k" "rest_ok (module_put k) = rest_ok k" "rest_ok (locked i k) = rest_ok k"
  "rest_ok (unlocked i k) = rest_ok k" "rest_ok (dec_remaining k) = rest_ok k" "rest_ok (inc_remaining k) = rest_ok k"
  "rest_ok (rcu_read_lock th k) = rest_ok k" "rest_ok (rcu_read_unlock th k) = rest_ok k" "rest_ok (call_rcu c k) = rest_ok k"
  "rest_ok (k\<lparr>rcu_queue := q\<rparr>) = rest_ok k"
  by (simp_all add: rest_ok_def ledger_ok_def driver_wf_def module_get_def module_put_def locked_def
      unlocked_def dec_remaining_def inc_remaining_def rcu_read_lock_def rcu_read_unlock_def call_rcu_def)

lemma rests_frame [simp]:
  "rests M k (module_get k') = rests M k k'" "rests M k (module_put k') = rests M k k'"
  "rests M (module_get k) k' = rests M k k'" "rests M k (locked i k') = rests M k k'"
  "rests M k (unlocked i k') = rests M k k'" "rests M k (rcu_read_lock th k') = rests M k k'"
  "rests M k (rcu_read_unlock th k') = rests M k k'" "rests M k (call_rcu c k') = rests M k k'"
  "rests M (k\<lparr>rcu_queue := q\<rparr>) k' = rests M k k'"
  unfolding rests_def keeps_def rest_ok_frame by (simp_all add: module_get_def module_put_def locked_def unlocked_def rcu_read_lock_def
      rcu_read_unlock_def call_rcu_def)

lemma driver_wf_steps [simp]:
  "driver_wf (set_first_free j k) = driver_wf k" "driver_wf (put_ts p t k) = driver_wf k"
  "driver_wf (k\<lparr>next_addr := n\<rparr>) = driver_wf k"
  by (simp_all add: driver_wf_def set_first_free_def put_ts_def)

lemma rests_first_free:
  assumes "rests M k k'" "j < 512" shows "rests M k (set_first_free (int j) k')"
proof -
  have "heap (set_first_free (int j) k') = heap k'" "ledger_ok (set_first_free (int j) k') = ledger_ok k'"
    "first_free_entry (tsm (set_first_free (int j) k')) = int j"
    "all_tag_services (tsm (set_first_free (int j) k')) = all_tag_services (tsm k')"
    "remaining_entries (tsm (set_first_free (int j) k')) = remaining_entries (tsm k')"
    by (simp_all add: set_first_free_def ledger_ok_def)
  then show ?thesis using assms by (simp add: rests_def keeps_def rest_ok_def)
qed

text \<open>A service is replaced by a clean one.\<close>

lemma rests_put:
  assumes "rest_ok k" "rests M k k1" "heap k1 = heap k" "clean_service t'"
    "lazy_deleted t' = YES \<Longrightarrow> p \<in> M \<or> (\<exists>t. heap k p = Some t \<and> lazy_deleted t = YES)"
  shows "rests M k (put_ts p t' k1)"
proof -
  have "heap (put_ts p t' k1) = (heap k1)(p \<mapsto> t')" "ledger_ok (put_ts p t' k1) = ledger_ok k1" "tsm (put_ts p t' k1) = tsm k1"
    by (simp_all add: put_ts_def ledger_ok_def)
  then show ?thesis using assms by (auto simp: rests_def keeps_def rest_ok_def)
qed

section \<open>The pieces\<close>

lemma find_first_rests:
  assumes "table_wf k1" "rests M k k1" "find_first_entry_available k1 = Inr (i, k')"
  shows "rests M k k'"
proof -
  obtain r s where "find_first_entry_available k1 = Inr (r, s)" "s = k1 \<or> (\<exists>j<512. s = set_first_free (int j) k1)"
    using find_first_frame [OF assms(1)] .
  then show ?thesis using assms(2,3) rests_first_free by auto
qed

lemma select_rests:
  assumes k: "kinv k" "rest_ok k" and c: "tag_get_select ky c perm k = Inr (x, k')" shows "rests M k k'"
proof -
  have "table_wf (module_get k)" using rests_table [OF k] by simp
  from find_first_rests [OF this, of M k] rests_refl [OF k(2)] show ?thesis
    using c by (auto simp: tag_get_select_def Let_def elim!: and_then_InrE split: if_splits)
qed

lemma rests_addr: "rest_ok k \<Longrightarrow> next_addr k \<le> n \<Longrightarrow> rests M k (k\<lparr>next_addr := n\<rparr>)"
  by (force simp: rests_def keeps_def rest_ok_def ledger_ok_def)

lemma get_locked_rests:
  assumes k: "rest_ok k" and c: "tag_get_locked e ky c perm i k = Inr (Some r, k')" shows "rests M k k'"
proof -
  obtain k1 where l: "mutex_lock i k = Inr k1" using c by (auto simp: tag_get_locked_def elim!: and_then_InrE)
  have L: "k1 = locked i k" using mutex_lock_state [OF l] by simp
  consider "tag_get_create e ky perm i k1 = Inr (Some r, k')" | "k' = module_put (unlocked i k1)"
    using c l by (fastforce simp: tag_get_locked_def mutex_unlock_eq elim!: and_then_InrE dest: tag_get_open_state split: if_splits)
  then show ?thesis
  proof cases
    case 1
    have "ledger_ok k1" using k by (simp add: L rest_ok_def ledger_ok_def)
    then obtain n where n: "next_addr k1 \<le> n" "k' = module_put (unlocked i (k1\<lparr>next_addr := n\<rparr>))"
      using tag_get_create_fails [OF 1] by blast
    have "(locked i k)\<lparr>next_addr := n\<rparr> = locked i (k\<lparr>next_addr := n\<rparr>)" by (simp add: locked_def)
    then show ?thesis using n k rests_addr [of k n] by (simp add: L)
  next
    case 2
    then show ?thesis using k by (simp add: L rests_refl)
  qed
qed

lemma enter_pieces_rests:
  assumes "rest_ok k"
  shows "tag_send_enter e i lev u sz k = Inr (x, k') \<Longrightarrow> rests M k k'"
    "tag_receive_check e i lev u k = Inr (y, k') \<Longrightarrow> rests M k k'"
    "tag_ctl_enter i c k = Inr (y, k') \<Longrightarrow> rests M k k'"
  using rests_refl [OF assms]
  by (auto simp: tag_send_enter_def tag_receive_check_def tag_ctl_enter_def Let_def
      elim!: and_then_InrE split: if_splits option.splits prod.splits)

text \<open>Receivers change counts only.\<close>

lemma clean_counted:
  assumes "clean_service t" shows "clean_service (count_total f t)" "length (level t) = 32 \<Longrightarrow> clean_service (recounted lev f t)"
proof -
  show "clean_service (count_total f t)" using assms by (simp add: clean_service_def)
  assume len: "length (level t) = 32"
  have "message (level (recounted lev f t) ! n) = replicate 4096 NUL"
    if "n < 32" "message_ready (level (recounted lev f t) ! n) \<noteq> READY" for n
    using that assms len by (cases "n = nat lev") (simp_all add: recounted_def put_level_def clean_service_def)
  then show "clean_service (recounted lev f t)" using assms by (simp add: clean_service_def)
qed

lemma rest_ok_clean: "rest_ok k \<Longrightarrow> heap k p = Some t \<Longrightarrow> clean_service t"
  by (simp add: rest_ok_def)

lemma becomes_rests:
  assumes "rest_ok k" "service_becomes p t t' k k'" "clean_service t'" "lazy_deleted t' = lazy_deleted t"
  shows "rests M k k'"
  using assms rests_put [OF assms(1) rests_refl [OF assms(1), of M] refl assms(3), of p]
  by (simp add: service_becomes_def)

lemma receive_rests:
  assumes k: "kinv k" "rest_ok k"
  shows "tag_receive_total f p k = Inr k' \<Longrightarrow> rests M k k'"
    "tag_receive_level f lev p k = Inr k' \<Longrightarrow> lev_ok lev \<Longrightarrow> rests M k k'"
    "ts_read_locked killed d u m f' b k = Inr (x, k') \<Longrightarrow> rests M k k'"
proof -
  show "rests M k k'" if r: "tag_receive_total f p k = Inr k'"
  proof -
    obtain t where b: "service_becomes p t (count_total f t) k k'" using receive_total_state [OF r] .
    then have t: "heap k p = Some t" by (simp add: service_becomes_def)
    show ?thesis using becomes_rests [OF k(2) b clean_counted(1) [OF rest_ok_clean [OF k(2) t]]] by simp
  qed
  show "rests M k k'" if r: "tag_receive_level f lev p k = Inr k'" "lev_ok lev"
  proof -
    obtain t where b: "service_becomes p t (recounted lev f t) k k'"
      using receive_level_state [OF k(1) r(1)] r(2) by (auto simp: lev_ok_def)
    then have t: "heap k p = Some t" by (simp add: service_becomes_def)
    show ?thesis
      using becomes_rests [OF k(2) b clean_counted(2) [OF rest_ok_clean [OF k(2) t] kinv_service(6) [OF k(1) t]]] by simp
  qed
  show "rests M k k'" if "ts_read_locked killed d u m f' b k = Inr (x, k')"
    using rests_core [OF rests_refl [OF k(2)]] ts_read_locked_client [OF that] by blast
qed

text \<open>Sections that replace a service, under its lock or with a callback left behind.\<close>

lemma locked_put_rests:
  assumes k: "rest_ok k" and t: "heap k p = Some t" "clean_service t'"
    "lazy_deleted t' = YES \<Longrightarrow> p \<in> M \<or> lazy_deleted t = YES"
  shows "rests M k (put_ts p t' (locked i k))"
  using rests_put [of k M "locked i k" t' p] rests_refl [OF k, of M] assms by simp

lemma clean_put_level:
  assumes "clean_service t" "length (level t) = 32" "message_ready l = READY \<or> message l = replicate 4096 NUL"
  shows "clean_service (put_level lev l t)"
  unfolding clean_service_def
proof (intro conjI allI impI)
  show "message (level (put_level lev l t) ! n) = replicate 4096 NUL"
    if "n < 32" "message_ready (level (put_level lev l t) ! n) \<noteq> READY" for n
    using that assms by (cases "n = nat lev") (simp_all add: clean_service_def put_level_def)
qed (use assms(1) in \<open>simp_all add: clean_service_def put_level_def\<close>)

lemma clean_marks:
  "clean_service t \<Longrightarrow> clean_service (t\<lparr>awake_request := YES\<rparr>)"
  "clean_service t \<Longrightarrow> clean_service (t\<lparr>awake_request := NO\<rparr>)"
  "clean_service t \<Longrightarrow> clean_service (t\<lparr>lazy_deleted := YES\<rparr>)"
  by (simp_all add: clean_service_def)

lemma put_level_rests:
  assumes "rest_ok k" "heap k p = Some t" "clean_service (put_level lev l t)"
  shows "rests M k (put_ts p (put_level lev l t) (locked i k))"
  using locked_put_rests [OF assms(1,2,3), of M i] by (simp add: put_level_def)

lemma send_locked_rests:
  assumes k: "kinv k" "rest_ok k" and c: "tag_send_locked e i lev p page n sz k = Inr (r, k')"
    and lev: "0 \<le> lev" "lev < 32" and tg: "\<forall>t. heap k p = Some t \<longrightarrow> tag t = i"
  shows "rests M k k'"
  using send_locked_cases [OF k(1) c lev tg]
proof cases
  case 1
  then show ?thesis using rests_refl [OF k(2), of M] by simp
next
  case (2 t l)
  have "clean_service (put_level lev l t)"
    using clean_put_level [OF rest_ok_clean [OF k(2) 2(1)] kinv_service(6) [OF k(1) 2(1)]] 2(8) by simp
  then show ?thesis using put_level_rests [OF k(2) 2(1)] 2(11) by simp
next
  case (3 t l)
  have "clean_service (put_level lev l t)"
    using clean_put_level [OF rest_ok_clean [OF k(2) 3(1)] kinv_service(6) [OF k(1) 3(1)]] 3(9) by simp
  then show ?thesis using put_level_rests [OF k(2) 3(1)] 3(10) by simp
qed

lemma ctl_locked_rests:
  assumes k: "kinv k" "rest_ok k" and c: "tag_ctl_locked e cmd p k = Inr (x, k')"
    and cmd: "cmd = REMOVE_TAG \<or> cmd = AWAKE_ALL"
  shows "rests (if x = None then {p} else {}) k k'"
  using ctl_locked_cases [OF k(1) c cmd]
proof cases
  case (1 r i)
  then show ?thesis using rests_refl [OF k(2)] by simp
next
  case (2 r t)
  then show ?thesis using locked_put_rests [OF k(2) 2(2) clean_marks(1)] rest_ok_clean [OF k(2) 2(2)] by simp
next
  case (3 r t)
  then show ?thesis using locked_put_rests [OF k(2) 3(2) clean_marks(2)] rest_ok_clean [OF k(2) 3(2)] by simp
next
  case (4 t)
  then show ?thesis using locked_put_rests [OF k(2) 4(2) clean_marks(3)] rest_ok_clean [OF k(2) 4(2)] by simp
qed

text \<open>A callback empties the level that was delivered, or takes the wake-up back.\<close>

lemma callback_rests:
  assumes k: "kinv k" "rest_ok k" and q: "rcu_queue k = q1 @ (c, rs) # q2"
    and r: "run_callback c (k\<lparr>rcu_queue := q1 @ q2\<rparr>) = Inr k'"
  shows "rests {} k k'"
proof -
  let ?k = "k\<lparr>rcu_queue := q1 @ q2\<rparr>" and ?p = "cb_ptr c"
  have c: "c \<in> pending k" by (simp add: pending_def q)
  then obtain t where t: "heap k ?p = Some t" using k(1) unfolding kinv_def callbacks_ok_def by blast
  note s = kinv_service [OF k(1) t]
  have "\<exists>t'. k' = unlocked (tag t) (put_ts ?p t' ?k) \<and> clean_service t' \<and> lazy_deleted t' = lazy_deleted t"
  proof (cases c)
    case (FreeAfterSend q lev)
    then have lev: "0 \<le> lev" "lev < 32" using k(1) c unfolding kinv_def callbacks_ok_def by blast+
    let ?l' = "(level t ! nat lev)\<lparr>message_ready := NOT_READY, message := replicate 4096 NUL\<rparr>"
    have "level_wf (tag t) (level t ! nat lev)" using level_wf_at [OF s(1) lev] .
    then have "k' = unlocked (tag t) (put_ts ?p (put_level lev ?l' t) ?k)"
      using r t get_level_ok [OF s(6) lev] FreeAfterSend
      by (auto simp: run_callback_def free_after_send_def get_ts_def memset0_def level_wf_def mutex_unlock_eq
          elim!: and_then_InrE split: if_splits)
    moreover have "clean_service (put_level lev ?l' t)"
      using clean_put_level [OF rest_ok_clean [OF k(2) t] s(6)] by simp
    ultimately show ?thesis by (intro exI [of _ "put_level lev ?l' t"]) (simp add: put_level_def)
  next
    case (ResetAwake q)
    then have "k' = unlocked (tag t) (put_ts ?p (t\<lparr>awake_request := NO\<rparr>) ?k)"
      using r t by (auto simp: run_callback_def reset_awake_condition_def get_ts_def mutex_unlock_eq
          elim!: and_then_InrE split: if_splits)
    then show ?thesis using clean_marks(2) [OF rest_ok_clean [OF k(2) t]]
      by (intro exI [of _ "t\<lparr>awake_request := NO\<rparr>"]) simp
  qed
  then obtain t' where t': "k' = unlocked (tag t) (put_ts ?p t' ?k)" "clean_service t'" "lazy_deleted t' = lazy_deleted t"
    by blast
  have "rests {} ?k (put_ts ?p t' ?k)" using rests_put [of ?k "{}" ?k t' ?p] t t' k(2) rests_refl [of ?k] by simp
  then show ?thesis using t'(1) by simp
qed

text \<open>A creation: a clean service in a free entry, in front of the counter that follows later.\<close>

lemma created_clean: "clean_service (new_service e ky i perm (replicate 32 (new_level i)))"
  by (simp add: clean_service_def new_service_def new_level_def)

lemma get_created_rest:
  assumes k: "rest_ok k" and c: "tag_get_locked e ky CREATE_TAG perm i k = Inr (None, k')"
  shows "rest_ok k'" "all_tag_services (tsm k') = (all_tag_services (tsm k))[nat i := Some (next_addr k)]"
    "remaining_entries (tsm k') = remaining_entries (tsm k)"
    "heap k' = (heap k)(next_addr k \<mapsto> new_service e ky i perm (replicate 32 (new_level i)))" "dev_held k' = dev_held k"
proof -
  obtain k1 where l: "mutex_lock i k = Inr k1" and c1: "tag_get_create e ky perm i k1 = Inr (None, k')"
    using c by (auto simp: tag_get_locked_def elim!: and_then_InrE)
  have L: "k1 = locked i k" using mutex_lock_state [OF l] by simp
  note S = tag_get_create_succeeds [OF c1]
  show "all_tag_services (tsm k') = (all_tag_services (tsm k))[nat i := Some (next_addr k)]"
    "remaining_entries (tsm k') = remaining_entries (tsm k)"
    and h: "heap k' = (heap k)(next_addr k \<mapsto> new_service e ky i perm (replicate 32 (new_level i)))"
    using S by (simp_all add: L unlocked_def)
  have v: "first_free_entry (tsm k') = first_free_entry (tsm k)" "dm k' = dm k" "next_addr k' = next_addr k + 1"
    "live k' = live k \<union> {TsObj (next_addr k), LevelsObj (next_addr k)} \<union> MessageObj (next_addr k) ` {0..<32}"
    using S by (simp_all add: L unlocked_def locked_def)
  show "dev_held k' = dev_held k" by (simp add: dev_held_def v(2) fun_eq_iff)
  have "ledger_ok k'" using k unfolding rest_ok_def ledger_ok_def v(3,4) by force
  then show "rest_ok k'"
    using k created_clean unfolding rest_ok_def h driver_wf_def dev_held_def v(1,2) by simp
qed

lemma get_device_rests:
  assumes k: "rest_ok k" and c: "tag_get_device e i k = Inr (r, k')"
  shows "rests M k k'"
proof -
  obtain r' k1 where d: "ts_create_char_device_file e i k = Inr (r', k1)" "k' = module_put k1"
    using c by (auto simp: tag_get_device_def elim!: and_then_InrE)
  then show ?thesis using rests_core [OF rests_refl [OF k]] drv.create_client create_driver_wf by simp
qed

lemma ctl_destroy_rests: "rest_ok k \<Longrightarrow> tag_ctl_destroy p k = Inr k' \<Longrightarrow> rests M k k'"
  using rests_core [OF rests_refl [of k]] tag_ctl_destroy_core [of p k k'] by simp

text \<open>The end of a removal gives the entry back, and the counter with it.\<close>

lemma ctl_unlink_rest:
  assumes k: "kinv k" "rest_ok k" and c: "tag_ctl_unlink i p k = Inr (r, k')"
  shows "rest_ok k'" "all_tag_services (tsm k') = (all_tag_services (tsm k))[nat i := None]"
    "remaining_entries (tsm k') = atomic_inc (remaining_entries (tsm k))" "heap k' = (heap k)(p := None)"
    "dev_held k' = dev_held k"
proof -
  obtain k2 f k3 where s: "set_slot i None k = Inr k2"
    and ff: "find_first_entry_available k2 = Inr (f, k3)" and k': "k' = module_put (free_ts p (inc_remaining k3))"
    using c by (auto simp: tag_ctl_unlink_def elim!: and_then_InrE)
  have k2: "k2 = k\<lparr>tsm := (tsm k)\<lparr>all_tag_services := (all_tag_services (tsm k))[nat i := None]\<rparr>\<rparr>"
    using s by (auto simp: set_slot_def elim!: and_then_InrE dest: arr_set_InrD)
  have r2: "rest_ok k2" using k(2) by (simp add: k2 rest_ok_def ledger_ok_def driver_wf_def dev_held_def)
  have "((all_tag_services (tsm k))[nat i := None]) ! j = None" if "512 \<le> j" "j < 4096" for j
    using rests_table [OF k] that by (cases "j = nat i") (simp_all add: table_wf_def entry_def)
  then have "table_wf k2"
    using rests_table [OF k] r2 by (simp add: table_wf_def k2 entry_def rest_ok_def)
  from find_first_rests [OF this, of "{}" k2] rests_refl [OF r2] ff have r3: "rests {} k2 k3" by simp
  have "heap k3 = heap k2" using find_first_neutral [OF ff] by (simp add: neutral_def)
  then show "heap k' = (heap k)(p := None)" by (simp add: k' k2 free_ts_def inc_remaining_def)
  show "all_tag_services (tsm k') = (all_tag_services (tsm k))[nat i := None]"
    "remaining_entries (tsm k') = atomic_inc (remaining_entries (tsm k))"
    using r3 by (simp_all add: k' rests_def keeps_def k2 free_ts_def inc_remaining_def)
  show "dev_held k' = dev_held k" using r3 unfolding rests_def by (simp add: k' k2)
  show "rest_ok k'" using r3
    by (auto simp: k' rests_def keeps_def rest_ok_def free_ts_def inc_remaining_def ledger_ok_def driver_wf_def dev_held_def)
qed

end
