(* ===== verification/Conc_Quiescent.thy ===== *)
theory Conc_Quiescent
  imports Conc_Rest
begin

text \<open>
  The free entries that are counted, the services that are marked, and the device locks, in every reachable
  state; and that between calls the module is in the state from which the theories of the single system
  calls start.
\<close>

section \<open>The invariant\<close>

fun publishing :: "pc \<Rightarrow> bool" where
  "publishing (Publishing i) = True"
| "publishing _ = False"

lemma publishing_iff: "publishing c \<longleftrightarrow> (\<exists>i. c = Publishing i)"
  by (cases c) simp_all

definition publishers :: "sys \<Rightarrow> nat set" where
  "publishers s = {th. publishing (pcs s th)}"

fun assigning :: "pc \<Rightarrow> int option" where
  "assigning (Assigning i lev j new c) = Some j"
| "assigning _ = None"

lemma assigning_iff: "assigning c = Some j \<longleftrightarrow> (\<exists>i lev new c'. c = Assigning i lev j new c')"
  by (cases c) auto

text \<open>
  The counter runs ahead of the table by the threads that have entered a service and not yet counted
  it, and a service is marked as deleted only while a thread is removing it. A device lock is held
  exactly while one thread exchanges the text.
\<close>

definition book_core :: "sys \<Rightarrow> bool" where
  "book_core s \<longleftrightarrow> rest_ok (ks s)
     \<and> unat (remaining_entries (tsm (ks s))) = card (free_entries (ks s)) + card (publishers s)
     \<and> (\<forall>p t. heap (ks s) p = Some t \<longrightarrow> lazy_deleted t = YES \<longrightarrow> (\<exists>th. removing (pcs s th) = Some p))"

definition lockers :: "sys \<Rightarrow> int \<Rightarrow> nat set" where
  "lockers s j = {th. assigning (pcs s th) = Some j}"

definition device_locks :: "sys \<Rightarrow> bool" where
  "device_locks s \<longleftrightarrow> (\<forall>j. if dev_held (ks s) j then \<exists>th. lockers s j = {th} else lockers s j = {})"

lemma device_locks_card: "device_locks s \<Longrightarrow> card (lockers s j) = (if dev_held (ks s) j then 1 else 0)"
  unfolding device_locks_def by (metis card_1_singleton_iff card.empty One_nat_def)

definition book_inv :: "sys \<Rightarrow> bool" where
  "book_inv s \<longleftrightarrow> book_core s \<and> device_locks s"

lemma book_inv_answer [simp]: "book_inv (answer th r bs c k s) = book_inv (goto th c k s)"
  by (simp add: book_inv_def book_core_def device_locks_def publishers_def lockers_def)

text \<open>Who has which device lock, when a thread moves.\<close>

lemma lockers_goto:
  "lockers (goto th c k s) j = (if assigning c = Some j then insert th (lockers s j) else lockers s j - {th})"
  by (auto simp: lockers_def split: if_splits)

lemma device_locks_goto:
  assumes "device_locks s" "dev_held k' = dev_held (ks s)" "assigning c = assigning (pcs s th)"
  shows "device_locks (goto th c k' s)"
proof -
  have "lockers (goto th c k' s) j = lockers s j" for j using assms(3) by (auto simp: lockers_def split: if_splits)
  then show ?thesis using assms(1,2) by (simp add: device_locks_def)
qed

lemma device_lock_taken:
  assumes s: "device_locks s" "assigning (pcs s th) = None" "\<not> dev_held (ks s) j"
    and k': "\<And>i. dev_held k' i \<longleftrightarrow> i = j \<or> dev_held (ks s) i" "assigning c = Some j"
  shows "device_locks (goto th c k' s)"
proof -
  have "lockers s j = {}" using s(1,3) by (metis device_locks_def)
  moreover have "lockers s i - {th} = lockers s i" for i using s(2) by (auto simp: lockers_def)
  ultimately show ?thesis using s(1) unfolding device_locks_def lockers_goto goto_simps k' by auto
qed

lemma device_lock_given:
  assumes s: "device_locks s" "assigning (pcs s th) = Some j"
    and k': "\<And>i. dev_held k' i \<longleftrightarrow> i \<noteq> j \<and> dev_held (ks s) i" "assigning c = None"
  shows "device_locks (goto th c k' s)"
proof -
  have th: "th \<in> lockers s i \<longleftrightarrow> i = j" for i using s(2) by (auto simp: lockers_def)
  have "\<exists>th. lockers s j = {th}" using s(1) th [of j] unfolding device_locks_def by (metis (no_types, lifting) empty_iff)
  then have "lockers s j - {th} = {}" using th [of j] by auto
  then show ?thesis using s(1) th unfolding device_locks_def lockers_goto goto_simps k' by auto
qed

text \<open>The two parts of \<open>update_chrdev\<close> that exchange the text.\<close>

lemma update_freed_locks:
  assumes "update_free e lev a n k = Inr ((j, new), k')"
  shows "\<not> dev_held k j" "dev_held k' i \<longleftrightarrow> i = j \<or> dev_held k i"
proof -
  obtain k1 where l: "dev_lock j k = Inr k1" "k' = set_content j Dangling k1"
    using assms by (auto simp: update_free_def elim!: and_then_InrE)
  show "\<not> dev_held k j" "dev_held k' i \<longleftrightarrow> i = j \<or> dev_held k i" using device.lock_effect [OF l(1)] l(2) by simp_all
qed

lemma update_assigned_locks:
  assumes "update_assign j new k = Inr k'" "dev_held k j"
  shows "dev_held k' i \<longleftrightarrow> i \<noteq> j \<and> dev_held k i"
proof -
  have "dev_unlock j (set_content j (Content new) k) = Inr k'" using assms(1) by (simp add: update_assign_def)
  moreover have "in_range (device_lock (dm (set_content j (Content new) k))) j"
    using assms(2) held_at_in_range by (simp add: dev_held_def in_range_def)
  ultimately show ?thesis using device.unlock_effect [of "set_content j (Content new) k" j] by auto
qed

lemma core_keeps: "rest_ok k \<Longrightarrow> core k' = core k \<Longrightarrow> driver_wf k' = driver_wf k \<Longrightarrow> keeps M k k'"
  using core_eqD [of k' k] rest_ok_core [of k' k] by (simp add: keeps_def)

lemma update_parts_keeps:
  assumes "rest_ok k"
  shows "update_free e lev a n k = Inr (x, k') \<Longrightarrow> keeps M k k'" "update_assign j new k = Inr k' \<Longrightarrow> keeps M k k'"
proof -
  show "keeps M k k'" if "update_free e lev a n k = Inr (x, k')"
    using core_keeps [OF assms update_parts_core(1) [OF that] update_parts_driver_wf(1) [OF that]] .
  show "keeps M k k'" if "update_assign j new k = Inr k'"
    using core_keeps [OF assms update_parts_core(2) [OF that] update_parts_driver_wf(2) [OF that]] .
qed

lemma publishers_goto:
  "publishers (goto th c k s) = (if publishing c then insert th (publishers s) else publishers s - {th})"
  by (auto simp: publishers_def split: if_splits)

lemma publishers_finite: "threads_ok s \<Longrightarrow> finite (publishers s) \<and> card (publishers s) \<le> PID_MAX"
proof -
  assume s: "threads_ok s"
  have "pcs s th \<noteq> Idle \<Longrightarrow> th < PID_MAX" for th using s by (simp add: threads_ok_def)
  then have "publishing (pcs s th) \<Longrightarrow> th < PID_MAX" for th by (cases "pcs s th = Idle") auto
  then have "publishers s \<subseteq> {..<PID_MAX}" by (auto simp: publishers_def)
  then show ?thesis using finite_subset card_mono [of "{..<PID_MAX}"] by fastforce
qed

lemma free_entries_same: "all_tag_services (tsm k') = all_tag_services (tsm k) \<Longrightarrow> free_entries k' = free_entries k"
  by (simp add: free_entries_def entry_def)

text \<open>A thread moves through a piece that keeps the table.\<close>

lemma book_core_goto:
  assumes s: "book_core s" and k': "keeps M (ks s) k'"
    and c: "publishing c = publishing (pcs s th)" "removing (pcs s th) = None \<or> removing c = removing (pcs s th)"
      "\<And>p. p \<in> M \<Longrightarrow> removing c = Some p"
  shows "book_core (goto th c k' s)"
proof -
  have pb: "publishers (goto th c k' s) = publishers s"
    using c(1) by (auto simp: publishers_goto publishers_def)
  have "\<exists>th'. removing (((pcs s)(th := c)) th') = Some p"
    if u: "heap k' p = Some u" "lazy_deleted u = YES" for p u
  proof (cases "p \<in> M")
    case True
    then show ?thesis using c(3) by (intro exI [of _ th]) simp
  next
    case False
    then obtain t where "heap (ks s) p = Some t" "lazy_deleted t = YES" using k' u unfolding keeps_def by blast
    then obtain th' where "removing (pcs s th') = Some p" using s unfolding book_core_def by blast
    then show ?thesis using c(2) by (intro exI [of _ th']) auto
  qed
  moreover have "free_entries k' = free_entries (ks s)" using k' by (intro free_entries_same) (simp add: keeps_def)
  ultimately show ?thesis using s k' unfolding book_core_def pb goto_simps by (simp add: keeps_def)
qed

lemma book_inv_goto:
  assumes "book_inv s" "rests M (ks s) k'" "publishing c = publishing (pcs s th)"
    "removing (pcs s th) = None \<or> removing c = removing (pcs s th)" "\<And>p. p \<in> M \<Longrightarrow> removing c = Some p"
    "assigning c = assigning (pcs s th)"
  shows "book_inv (goto th c k' s)"
  using assms book_core_goto [of s M k' c th] device_locks_goto [of s k' c th] by (simp add: book_inv_def rests_def)

lemma threads_counted: "sys_inv s \<Longrightarrow> finite (publishers s) \<and> card (publishers s) \<le> 4194304"
  using publishers_finite [of s] by (simp add: sys_inv_def PID_MAX_def)

text \<open>The three pieces that change the table or the counter.\<close>

lemma book_created:
  assumes s: "sys_inv s" "book_core s" and pc: "pcs s th = Getting ky CREATE_TAG perm i"
    and c: "tag_get_locked e ky CREATE_TAG perm i (ks s) = Inr (None, k')"
  shows "book_core (goto th (Publishing i) k' s)"
proof -
  note k = sys_inv_thread(1) [OF s(1)]
  have r: "rest_ok (ks s)" using s(2) by (simp add: book_core_def)
  note R = get_created_rest [OF r c]
  have i: "0 \<le> i" "i < 512" "entry (ks s) (nat i) = None" using tag_get_create_kinv [OF k c] by simp_all
  have len: "length (all_tag_services (tsm (ks s))) = 4096" using k by (simp add: kinv_def table_shape_def)
  have f: "free_entries k' = free_entries (ks s) - {nat i}" "nat i \<in> free_entries (ks s)"
    using i len R(2) by (auto simp: free_entries_def entry_def nth_list_update split: if_splits)
  have "0 < card (free_entries (ks s))" using f(2) by (auto simp: card_gt_0_iff)
  then have cf: "card (free_entries (ks s)) = card (free_entries k') + 1" using f by simp
  have "th \<notin> publishers s" using pc by (simp add: publishers_def)
  then have cp: "card (publishers (goto th (Publishing i) k' s)) = card (publishers s) + 1"
    using threads_counted [OF s(1)] by (simp add: publishers_goto)
  have "\<exists>th'. removing (((pcs s)(th := Publishing i)) th') = Some p"
    if u: "heap k' p = Some u" "lazy_deleted u = YES" for p u
  proof -
    have "heap (ks s) p = Some u" using u R(4) by (auto simp: new_service_def split: if_splits)
    then obtain th' where "removing (pcs s th') = Some p" using s(2) u(2) unfolding book_core_def by blast
    then show ?thesis using pc by (intro exI [of _ th']) auto
  qed
  then show ?thesis using s(2) R(1,3) cf cp unfolding book_core_def goto_simps by simp
qed

lemma book_counted:
  assumes s: "sys_inv s" "book_core s" and pc: "pcs s th = Publishing i"
  shows "book_core (goto th (Creating i) (dec_remaining (ks s)) s)"
proof -
  let ?k = "dec_remaining (ks s)"
  have heap: "heap ?k = heap (ks s)" "all_tag_services (tsm ?k) = all_tag_services (tsm (ks s))"
    "remaining_entries (tsm ?k) = atomic_dec (remaining_entries (tsm (ks s)))"
    by (simp_all add: dec_remaining_def)
  have th: "th \<in> publishers s" using pc by (simp add: publishers_def)
  have cp: "card (publishers (goto th (Creating i) ?k s)) = card (publishers s) - 1" "0 < card (publishers s)"
    using threads_counted [OF s(1)] th by (auto simp: publishers_goto card_gt_0_iff)
  have f: "free_entries ?k = free_entries (ks s)" by (intro free_entries_same) (simp add: heap)
  have n: "unat (remaining_entries (tsm (ks s))) = card (free_entries (ks s)) + card (publishers s)"
    using s(2) by (simp add: book_core_def)
  have "unat (atomic_dec (remaining_entries (tsm (ks s)))) = unat (remaining_entries (tsm (ks s))) - 1"
    using n cp(2) threads_counted [OF s(1)] card_free_le [of "ks s"] by (intro unat_atomic_dec) simp_all
  then have "unat (remaining_entries (tsm ?k)) = card (free_entries ?k) + card (publishers (goto th (Creating i) ?k s))"
    using heap(3) n cp f by simp
  moreover have "\<exists>th'. removing (((pcs s)(th := Creating i)) th') = Some p"
    if u: "heap ?k p = Some u" "lazy_deleted u = YES" for p u
  proof -
    obtain th' where "removing (pcs s th') = Some p" using s(2) u heap(1) unfolding book_core_def by auto
    then show ?thesis using pc by (intro exI [of _ th']) auto
  qed
  moreover have "rest_ok ?k" using s(2) by (simp add: book_core_def)
  ultimately show ?thesis unfolding book_core_def goto_simps by simp
qed

lemma book_removed:
  assumes s: "sys_inv s" "book_core s" and pc: "pcs s th = Unlinking i p"
    and c: "tag_ctl_unlink i p (ks s) = Inr (r, k')"
  shows "book_core (goto th Idle k' s)"
proof -
  note k = sys_inv_thread(1) [OF s(1)]
  obtain t where t: "heap (ks s) p = Some t" "tag t = i" using sys_inv_thread(2) [OF s(1), of th] pc by auto
  have r: "rest_ok (ks s)" using s(2) by (simp add: book_core_def)
  note R = ctl_unlink_rest [OF k r c]
  have i: "0 \<le> i" "i < 512" "entry (ks s) (nat i) = Some p" using kinv_service [OF k t(1)] t(2) by simp_all
  have len: "length (all_tag_services (tsm (ks s))) = 4096" using k by (simp add: kinv_def table_shape_def)
  have f: "free_entries k' = insert (nat i) (free_entries (ks s))" "nat i \<notin> free_entries (ks s)"
    using i len R(2) by (auto simp: free_entries_def entry_def nth_list_update split: if_splits)
  have cp: "publishers (goto th Idle k' s) = publishers s" using pc by (auto simp: publishers_goto publishers_def)
  have n: "unat (remaining_entries (tsm (ks s))) = card (free_entries (ks s)) + card (publishers s)"
    using s(2) by (simp add: book_core_def)
  then have "unat (atomic_inc (remaining_entries (tsm (ks s)))) = unat (remaining_entries (tsm (ks s))) + 1"
    using threads_counted [OF s(1)] card_free_le [of "ks s"] by (intro unat_atomic_inc) simp
  then have "unat (remaining_entries (tsm k')) = card (free_entries k') + card (publishers (goto th Idle k' s))"
    using R(3) n f unfolding cp by simp
  moreover have "\<exists>th'. removing (((pcs s)(th := Idle)) th') = Some q"
    if u: "heap k' q = Some u" "lazy_deleted u = YES" for q u
  proof -
    have u': "heap (ks s) q = Some u" "q \<noteq> p" using u R(4) by (auto split: if_splits)
    then obtain th' where "removing (pcs s th') = Some q" using s(2) u(2) unfolding book_core_def by blast
    then show ?thesis using pc u'(2) by (intro exI [of _ th']) auto
  qed
  ultimately show ?thesis using R(1) unfolding book_core_def goto_simps by simp
qed

lemma resume_books [simp]: "\<not> publishing (resume i lev c)" "removing (resume i lev c) = None" "assigning (resume i lev c) = None"
  by (cases c; simp)+

lemma book_parts: "book_inv s \<Longrightarrow> book_core s" "book_inv s \<Longrightarrow> device_locks s"
  by (simp_all add: book_inv_def)

lemma book_rest: "book_inv s \<Longrightarrow> rest_ok (ks s)"
  by (simp add: book_inv_def book_core_def)

lemma book_inv_parts:
  assumes "book_core (goto th c k' s)" "book_inv s" "dev_held k' = dev_held (ks s)" "assigning c = assigning (pcs s th)"
  shows "book_inv (goto th c k' s)"
  using assms device_locks_goto [of s k' c th] by (simp add: book_inv_def)

lemma thread_step_book:
  assumes s: "sys_inv s" "book_inv s" and step: "thread_step th s s'"
  shows "book_inv s'"
proof -
  note k = sys_inv_thread(1) [OF s(1)] book_rest [OF s(2)] and pc = sys_inv_thread(2) [OF s(1), of th]
  note move = book_inv_goto [OF s(2), where M = "{}"]
  from step show ?thesis
  proof cases
    case (get_call ky c perm i k')
    then show ?thesis using move [OF select_rests [OF k get_call(3)]] by simp
  next
    case (get_refused ky c perm r k')
    then show ?thesis using move [OF select_rests [OF k get_refused(3)]] by simp
  next
    case (get_locked ky c perm i e r k')
    then show ?thesis using move [OF get_locked_rests [OF k(2) get_locked(4)]] by simp
  next
    case (get_created ky c perm i e k')
    have "c = CREATE_TAG" using tag_get_none_creates [OF get_created(4)] .
    then show ?thesis
      using get_created book_inv_parts [OF book_created [OF s(1) book_parts(1) [OF s(2)]] s(2)] get_created_rest(5) [OF k(2)] by simp
  next
    case (get_counted i)
    then show ?thesis
      using book_inv_parts [OF book_counted [OF s(1) book_parts(1) [OF s(2)]] s(2)] by simp
  next
    case (get_published i e r k')
    then show ?thesis using move [OF get_device_rests [OF k(2) get_published(4)]] by simp
  next
    case (send_call e i lev u sz p page n k')
    then show ?thesis using move [OF enter_pieces_rests(1) [OF k(2) send_call(4)]] by simp
  next
    case (send_refused e i lev u sz r k')
    then show ?thesis using move [OF enter_pieces_rests(1) [OF k(2) send_refused(4)]] by simp
  next
    case (send_locked i lev p page n sz e r k')
    have "0 \<le> lev" "lev < 32" "\<forall>t. heap (ks s) p = Some t \<longrightarrow> tag t = i"
      using pc send_locked(2) by (simp_all add: ptr_ok_def lev_ok_def)
    then show ?thesis using move [OF send_locked_rests [OF k send_locked(4)]] send_locked(1,2) by simp
  next
    case (receive_call e i lev u p k' sz)
    then show ?thesis using move [OF enter_pieces_rests(2) [OF k(2) receive_call(4)]] by simp
  next
    case (receive_refused e i lev u r k')
    then show ?thesis using move [OF enter_pieces_rests(2) [OF k(2) receive_refused(4)]] by simp
  next
    case (receive_count i lev p u sz k')
    then show ?thesis using move [OF receive_rests(1) [OF k receive_count(3)]] by simp
  next
    case (receive_enter i lev p u sz k')
    then show ?thesis using move [OF receive_rests(2) [OF k receive_enter(3)]] pc by simp
  next
    case (update_skipped i lev c)
    then show ?thesis using move [OF rests_refl [OF k(2)]] by simp
  next
    case (update_read i lev c a n)
    then show ?thesis using move [OF rests_refl [OF k(2)]] by simp
  next
    case (update_freed i lev a n c e j new k')
    have "book_core (goto th (Assigning i lev j new c) k' s)"
      using book_core_goto [OF book_parts(1) [OF s(2)] update_parts_keeps(1) [OF k(2) update_freed(3)], of _ th "{}"] update_freed(2)
      by simp
    moreover have "device_locks (goto th (Assigning i lev j new c) k' s)"
      using update_freed_locks [OF update_freed(3)] update_freed(2)
      by (intro device_lock_taken [OF book_parts(2) [OF s(2)]]) simp_all
    ultimately show ?thesis using update_freed(1) by (simp add: book_inv_def)
  next
    case (update_written i lev j new c k')
    have "book_core (goto th (resume i lev c) k' s)"
      using book_core_goto [OF book_parts(1) [OF s(2)] update_parts_keeps(2) [OF k(2) update_written(3)], of _ th "{}"] update_written(2)
      by simp
    moreover have "th \<in> lockers s j" using update_written(2) by (simp add: lockers_def)
    then have "dev_held (ks s) j" using book_parts(2) [OF s(2)] unfolding device_locks_def by (metis empty_iff)
    then have "device_locks (goto th (resume i lev c) k' s)"
      using update_assigned_locks [OF update_written(3)] update_written(2)
      by (intro device_lock_given [OF book_parts(2) [OF s(2)]]) simp_all
    ultimately show ?thesis using update_written(1) by (simp add: book_inv_def)
  next
    case (receive_wake i lev p u sz t c signal)
    then show ?thesis using move [OF rests_refl [OF k(2)]] by simp
  next
    case (receive_section signal i lev p u sz)
    then show ?thesis using move [of "rcu_read_lock th (ks s)" _ th] rests_refl [OF k(2)] by simp
  next
    case (receive_read signal i lev p u sz signal' t r bs)
    then show ?thesis using move [OF rests_refl [OF k(2)]] by simp
  next
    case (receive_unlock i lev p r bs)
    then show ?thesis using move [of "rcu_read_unlock th (ks s)" _ th] rests_refl [OF k(2)] by simp
  next
    case (receive_uncount i lev p r bs k')
    then show ?thesis using move [OF receive_rests(1) [OF k receive_uncount(3)]] by simp
  next
    case (receive_leave i lev p r bs k')
    then show ?thesis using move [OF receive_rests(2) [OF k receive_leave(3)]] pc by simp
  next
    case (receive_return r bs)
    then show ?thesis using move [of "module_put (ks s)" _ th] rests_refl [OF k(2)] by simp
  next
    case (ctl_call i c p k')
    then show ?thesis using move [OF enter_pieces_rests(3) [OF k(2) ctl_call(3)]] by simp
  next
    case (ctl_refused i c r k')
    then show ?thesis using move [OF enter_pieces_rests(3) [OF k(2) ctl_refused(3)]] by simp
  next
    case (ctl_locked c i p e r k')
    then show ?thesis using move ctl_locked_rests [OF k ctl_locked(4)] pc by simp
  next
    case (ctl_marked c i p e k')
    have "rests {p} (ks s) k'" using ctl_locked_rests [OF k ctl_marked(4)] pc ctl_marked(2) by simp
    then show ?thesis using book_inv_goto [OF s(2), of "{p}" k' "Removing i p" th] ctl_marked(1,2) by simp
  next
    case (ctl_destroyed i p k')
    then show ?thesis using move [OF ctl_destroy_rests [OF k(2) ctl_destroyed(3)]] by simp
  next
    case (ctl_removed i p r k')
    from ctl_unlink_rest(5) [OF k ctl_removed(3)] show ?thesis
      using ctl_removed book_inv_parts [OF book_removed [OF s(1) book_parts(1) [OF s(2)]] s(2)] by simp
  next
    case (open_call imajor iminor i_cdev d)
    then show ?thesis using move [OF rests_refl [OF k(2)]] by simp
  next
    case (open_refused imajor iminor i_cdev r d)
    then show ?thesis using move [OF rests_refl [OF k(2)]] by simp
  next
    case (read_copied d f e b u n)
    then show ?thesis using move [OF rests_refl [OF k(2)]] by simp
  next
    case (read_returned d f u n b killed r bs f' k')
    then show ?thesis using move [OF receive_rests(3) [OF k read_returned(3)]] by simp
  next
    case (close_call d f)
    then show ?thesis using move [OF rests_refl [OF k(2)]] by simp
  qed
qed

lemma callback_book:
  assumes s: "sys_inv s" "book_inv s" and q: "rcu_queue (ks s) = q1 @ (c, rs) # q2"
    and r: "run_callback c ((ks s)\<lparr>rcu_queue := q1 @ q2\<rparr>) = Inr k'"
  shows "book_inv (s\<lparr>ks := k'\<rparr>)"
proof -
  have "rests {} (ks s) k'" using callback_rests [OF sys_inv_thread(1) [OF s(1)] book_rest [OF s(2)] q r] .
  then have "book_inv (goto th (pcs s th) k' s)" for th by (rule book_inv_goto [OF s(2)]) simp_all
  from this [of 0] show ?thesis by (simp add: goto_def)
qed

lemma book_init: "sys_init s \<Longrightarrow> book_inv s"
proof -
  assume s: "sys_init s"
  then obtain w where w: "ks s = booted w" "publishers s = {}" "lockers s j = {}" for j
    by (auto simp: sys_init_def publishers_def lockers_def)
  have "book_core s"
    using booted_ok [of w] booted_driver(1) [of w] booted_ledger [of w]
    unfolding book_core_def rest_ok_def w by (auto simp: module_ok_def counter_ok_def table_wf_def booted_def)
  moreover have "device_locks s" using booted_driver(2) [of w] by (simp add: device_locks_def w)
  ultimately show ?thesis by (simp add: book_inv_def)
qed

lemma book_step: "sys_inv s \<Longrightarrow> book_inv s \<Longrightarrow> sys_step s s' \<Longrightarrow> book_inv s'"
  by (erule sys_stepE) (auto intro: thread_step_book callback_book)

text \<open>A second invariant, proved with the help of the first.\<close>

locale strengthened_system = transition_system init step inv
  for init :: "'s \<Rightarrow> bool" and step :: "'s \<Rightarrow> 's \<Rightarrow> bool" and inv :: "'s \<Rightarrow> bool" +
  fixes more :: "'s \<Rightarrow> bool"
  assumes init_more: "init s \<Longrightarrow> more s"
    and step_more: "inv s \<Longrightarrow> more s \<Longrightarrow> step s s' \<Longrightarrow> more s'"
begin

lemma reachable_more: "init s \<Longrightarrow> step\<^sup>*\<^sup>* s s' \<Longrightarrow> inv s' \<and> more s'"
  by (rotate_tac, induction rule: rtranclp_induct) (auto intro: init_inv init_more step_inv step_more)

end

interpretation book: strengthened_system sys_init sys_step sys_inv book_inv
  by unfold_locales (auto intro: book_init book_step)

section \<open>Between calls\<close>

text \<open>With no thread in a call and no callback pending the state is that of the theories of the single calls.\<close>

lemma quiescent_settled:
  assumes s: "sys_inv s" "book_inv s" and q: "\<And>th. pcs s th = Idle" "rcu_queue (ks s) = []"
  shows "settled (ks s)"
proof -
  note k = sys_inv_thread(1) [OF s(1)] book_rest [OF s(2)]
  have e: "publishers s = {}" "pending (ks s) = {}" using q by (simp_all add: publishers_def pending_def)
  have nh: "\<not> held (ks s) i" for i using k(1) e(2) unfolding kinv_def callbacks_ok_def by blast
  have "lockers s i = {}" for i using q(1) by (simp add: lockers_def)
  then have nd: "\<not> dev_held (ks s) i" for i using book_parts(2) [OF s(2)] unfolding device_locks_def by (metis insert_not_empty)
  note bc = book_parts(1) [OF s(2)]
  have "entries_ok (ks s)"
    using kinv_entry [OF k(1)] kinv_service(1,2) [OF k(1)] unfolding entries_ok_def by fastforce
  then have m: "module_ok (ks s)"
    using rests_table [OF k] bc e(1) by (simp add: module_ok_def counter_ok_def book_core_def)
  have "(\<forall>l \<in> set (level t). idle_level l) \<and> awake_request t = NO \<and> lazy_deleted t = NO"
    if at: "service_at (ks s) i = Some t" for i t
  proof -
    obtain p where t: "heap (ks s) p = Some t" using at by (auto simp: service_at_def split: if_splits option.splits)
    note v = kinv_service [OF k(1) t] and c = rest_ok_clean [OF k(2) t]
    have f: "message_ready (level t ! n) \<noteq> READY" if "n < 32" for n using v(7) e(2) that by (simp add: flags_match_def)
    have "awake_request t = NO" using v(7) e(2) c unfolding flags_match_def clean_service_def by auto
    moreover have "removing (pcs s th) \<noteq> Some p" for th using q(1) by simp
    then have "lazy_deleted t = NO" using bc t c unfolding book_core_def clean_service_def by blast
    moreover have "idle_level (level t ! n)" if "n < 32" for n
      using level_wf_at [OF v(1), of "int n"] f [OF that] c that
      unfolding idle_level_def level_wf_def clean_service_def by auto
    ultimately show ?thesis using v(6) by (auto simp: in_set_conv_nth)
  qed
  then show ?thesis using m k(2) nh nd q(2) by (simp add: settled_def quiet_def rest_ok_def)
qed

end
