(* ===== verification/Conc_Registry.thy ===== *)
theory Conc_Registry
  imports Conc_System
begin

text \<open>
  The contract of \<open>tag_get\<close> and \<open>tag_ctl\<close> as an abstract machine: a registry that maps a tag to a key,
  a permission and an owner, in which a service appears and disappears in one step each. The concurrent
  module refines it: whatever the interleaving, a step leaves the registry alone or does one step of the
  abstract machine, for the user who is running.
\<close>

section \<open>Simulations\<close>

locale simulation = transition_system init step inv
  for init :: "'s \<Rightarrow> bool" and step :: "'s \<Rightarrow> 's \<Rightarrow> bool" and inv :: "'s \<Rightarrow> bool" +
  fixes view :: "'s \<Rightarrow> 'a" and abs_step :: "'a \<Rightarrow> 'a \<Rightarrow> bool"
  assumes simulates: "inv s \<Longrightarrow> step s s' \<Longrightarrow> view s' = view s \<or> abs_step (view s) (view s')"
begin

lemma run_simulates: "step\<^sup>*\<^sup>* s s' \<Longrightarrow> inv s \<Longrightarrow> abs_step\<^sup>*\<^sup>* (view s) (view s')"
proof (induction rule: rtranclp_induct)
  case base
  then show ?case by simp
next
  case (step s1 s2)
  have "inv s1" using run_inv [OF step.hyps(1) step.prems] .
  then show ?case
    using simulates [OF _ step.hyps(2)] step.IH [OF step.prems] by (auto intro: rtranclp.rtrancl_into_rtrancl)
qed

lemma reachable_simulates: "init s \<Longrightarrow> step\<^sup>*\<^sup>* s s' \<Longrightarrow> abs_step\<^sup>*\<^sup>* (view s) (view s')"
  using run_simulates init_inv by blast

end

section \<open>The registry\<close>

type_synonym registry = "nat \<Rightarrow> (int \<times> int \<times> 32 word) option"

inductive registry_step :: "32 word \<Rightarrow> registry \<Rightarrow> registry \<Rightarrow> bool" where
  create: "i < 512 \<Longrightarrow> A i = None \<Longrightarrow> perm = EVERYONE \<or> perm = ONLY_OWNER \<Longrightarrow>
    ky = - 1 \<or> int i = hash_function ky \<Longrightarrow> registry_step u A (A(i \<mapsto> (ky, perm, u)))"
| remove: "A i = Some (ky, perm, owner) \<Longrightarrow> perm = ONLY_OWNER \<longrightarrow> owner = u \<Longrightarrow>
    registry_step u A (A(i := None))"

inductive_simps registry_step_iff: "registry_step u A A'"

text \<open>What the kernel state holds of it.\<close>

definition service_view :: "tag_service \<Rightarrow> int \<times> int \<times> 32 word" where
  "service_view t = (key t, permission t, owner_euid t)"

definition registry_of :: "kstate \<Rightarrow> registry" where
  "registry_of k = (\<lambda>i. map_option service_view (service_at k i))"

lemma registry_of_iff:
  assumes "kinv k"
  shows "registry_of k i = Some v \<longleftrightarrow> (\<exists>p t. heap k p = Some t \<and> tag t = int i \<and> service_view t = v)"
proof
  assume "registry_of k i = Some v"
  then obtain p t where "i < 512" "entry k i = Some p" "heap k p = Some t" "service_view t = v"
    by (auto simp: registry_of_def service_at_def split: if_splits option.splits)
  then show "\<exists>p t. heap k p = Some t \<and> tag t = int i \<and> service_view t = v"
    using kinv_entry [OF assms] by fastforce
next
  assume "\<exists>p t. heap k p = Some t \<and> tag t = int i \<and> service_view t = v"
  then obtain p t where t: "heap k p = Some t" "tag t = int i" "service_view t = v" by blast
  then show "registry_of k i = Some v"
    using kinv_service(4,5) [OF assms t(1)] by (simp add: registry_of_def service_at_def)
qed

lemma registry_ext: "(\<And>i v. A i = Some v \<longleftrightarrow> B i = Some v) \<Longrightarrow> A = (B :: registry)"
proof (rule ext)
  fix i assume "\<And>i v. A i = Some v \<longleftrightarrow> B i = Some v"
  then show "A i = B i" by (cases "A i"; cases "B i") (auto, metis option.distinct(1))
qed

text \<open>Steps that the registry does not see.\<close>

lemma registry_same:
  assumes k: "kinv k" "kinv k'" and m: "moves {} k k'" and d: "dom (heap k') = dom (heap k)"
  shows "registry_of k' = registry_of k"
proof (rule registry_ext)
  have same: "\<exists>t. heap k p = Some t \<and> same_owner t u" if u: "heap k' p = Some u" for p u
  proof -
    obtain t where t: "heap k p = Some t" using d u by blast
    then have "\<not> next_addr k \<le> p" using kinv_service(2) [OF k(1)] by (simp add: not_le)
    then show ?thesis using m u unfolding moves_def by blast
  qed
  have v: "same_owner t u \<Longrightarrow> service_view u = service_view t \<and> tag u = tag t" for t u
    by (simp add: same_owner_def service_view_def)
  fix i w
  show "registry_of k' i = Some w \<longleftrightarrow> registry_of k i = Some w"
    unfolding registry_of_iff [OF k(1)] registry_of_iff [OF k(2)]
  proof
    assume "\<exists>p t. heap k' p = Some t \<and> tag t = int i \<and> service_view t = w"
    then show "\<exists>p t. heap k p = Some t \<and> tag t = int i \<and> service_view t = w" using same v by metis
  next
    assume "\<exists>p t. heap k p = Some t \<and> tag t = int i \<and> service_view t = w"
    then obtain p t where t: "heap k p = Some t" "tag t = int i" "service_view t = w" by blast
    then obtain u where u: "heap k' p = Some u" using d by blast
    then show "\<exists>p t. heap k' p = Some t \<and> tag t = int i \<and> service_view t = w" using same [OF u] v t by (metis option.inject)
  qed
qed

lemma registry_neutral: "kinv k \<Longrightarrow> neutral k k' \<Longrightarrow> registry_of k' = registry_of k"
  using registry_same [of k k'] kinv_neutral evolves_moves [OF evolves_neutral] neutral_views(4) by metis

lemma registry_becomes:
  assumes "kinv k" "kinv k'" "service_becomes p t t' k k'" "same_owner t t'"
  shows "registry_of k' = registry_of k"
  by (rule registry_same [OF assms(1,2)]) (use assms(3,4) in \<open>auto simp: moves_def same_owner_def service_becomes_def put_ts_def\<close>)

text \<open>The two steps that it does see.\<close>

lemma update_ex:
  assumes "h p = None"
  shows "(\<exists>q u. (h(p \<mapsto> t)) q = Some u \<and> P u) \<longleftrightarrow> P t \<or> (\<exists>q u. h q = Some u \<and> P u)"
  using assms by (auto split: if_splits) (metis option.distinct(1))

lemma registry_create:
  assumes k: "kinv k" "kinv k'" and i: "0 \<le> i" "i < 512" "entry k (nat i) = None" "heap k p = None"
    and h: "heap k' = (heap k)(p \<mapsto> t)" "tag t = i"
  shows "registry_of k' = (registry_of k)(nat i \<mapsto> service_view t)" "registry_of k (nat i) = None"
proof -
  show n: "registry_of k (nat i) = None" using i by (simp add: registry_of_def service_at_def)
  show "registry_of k' = (registry_of k)(nat i \<mapsto> service_view t)"
  proof (rule registry_ext)
    fix j v
    have "registry_of k' j = Some v \<longleftrightarrow> (\<exists>q u. ((heap k)(p \<mapsto> t)) q = Some u \<and> tag u = int j \<and> service_view u = v)"
      unfolding registry_of_iff [OF k(2)] h(1) ..
    also have "\<dots> \<longleftrightarrow> (tag t = int j \<and> service_view t = v) \<or> registry_of k j = Some v"
      unfolding registry_of_iff [OF k(1)] by (rule update_ex [where h = "heap k" and p = p and P = "\<lambda>u. tag u = int j \<and> service_view u = v"]) (rule i(4))
    also have "\<dots> \<longleftrightarrow> ((registry_of k)(nat i \<mapsto> service_view t)) j = Some v"
      using h(2) i(1) n by (cases "j = nat i") auto
    finally show "registry_of k' j = Some v \<longleftrightarrow> ((registry_of k)(nat i \<mapsto> service_view t)) j = Some v" .
  qed
qed

lemma registry_remove:
  assumes k: "kinv k" "kinv k'" and t: "heap k p = Some t" and h: "heap k' = (heap k)(p := None)"
  shows "registry_of k' = (registry_of k)(nat (tag t) := None)" "registry_of k (nat (tag t)) = Some (service_view t)"
proof -
  note s = kinv_service [OF k(1) t]
  show e: "registry_of k (nat (tag t)) = Some (service_view t)"
    unfolding registry_of_iff [OF k(1)] using t s(3) by auto
  show "registry_of k' = (registry_of k)(nat (tag t) := None)"
  proof (rule registry_ext)
    fix j v
    have "registry_of k' j = Some v \<longleftrightarrow> (\<exists>q u. q \<noteq> p \<and> heap k q = Some u \<and> tag u = int j \<and> service_view u = v)"
      unfolding registry_of_iff [OF k(2)] h by (auto split: if_splits)
    also have "\<dots> \<longleftrightarrow> j \<noteq> nat (tag t) \<and> registry_of k j = Some v"
      unfolding registry_of_iff [OF k(1)]
    proof (intro iffI conjI)
      assume "\<exists>q u. q \<noteq> p \<and> heap k q = Some u \<and> tag u = int j \<and> service_view u = v"
      then obtain q u where q: "q \<noteq> p" "heap k q = Some u" "tag u = int j" "service_view u = v" by blast
      then have "tag u \<noteq> tag t" using kinv_tag_unique [OF k(1) q(2) t] by blast
      then show "j \<noteq> nat (tag t)" "\<exists>q u. heap k q = Some u \<and> tag u = int j \<and> service_view u = v" using q s(3) by auto
    next
      assume a: "j \<noteq> nat (tag t) \<and> (\<exists>q u. heap k q = Some u \<and> tag u = int j \<and> service_view u = v)"
      then obtain q u where q: "heap k q = Some u" "tag u = int j" "service_view u = v" by blast
      have "tag u \<noteq> tag t" using a q(2) by auto
      then have "q \<noteq> p" using q(1) t by auto
      then show "\<exists>q u. q \<noteq> p \<and> heap k q = Some u \<and> tag u = int j \<and> service_view u = v" using q by blast
    qed
    finally show "registry_of k' j = Some v \<longleftrightarrow> ((registry_of k)(nat (tag t) := None)) j = Some v" by auto
  qed
qed

section \<open>Every step of the module\<close>

definition registry_moves :: "sys \<Rightarrow> sys \<Rightarrow> bool" where
  "registry_moves s s' \<longleftrightarrow> registry_of (ks s') = registry_of (ks s)
     \<or> (\<exists>th < PID_MAX. registry_step (thread_euid s th) (registry_of (ks s)) (registry_of (ks s')))"

lemma registry_moves_answer [simp]: "registry_moves s (answer th r bs c k s) = registry_moves s (goto th c k s)"
  by (simp add: registry_moves_def)

lemma moves_neutral: "sys_inv s \<Longrightarrow> neutral (ks s) k' \<Longrightarrow> registry_moves s (goto th c k' s)"
  unfolding registry_moves_def goto_simps by (rule disjI1, rule registry_neutral [OF sys_inv_thread(1)])

lemma moves_kept:
  "sys_inv s \<Longrightarrow> kinv k' \<and> evolves {} (ks s) k' \<and> dom (heap k') = dom (heap (ks s)) \<Longrightarrow> registry_moves s (goto th c k' s)"
  unfolding registry_moves_def goto_simps
  by (elim conjE) (rule disjI1, rule registry_same [OF sys_inv_thread(1) _ evolves_moves])

lemma moves_becomes:
  "sys_inv s \<Longrightarrow> service_becomes p t t' (ks s) k' \<Longrightarrow> kinv k' \<Longrightarrow> same_owner t t' \<Longrightarrow> registry_moves s (goto th c k' s)"
  unfolding registry_moves_def goto_simps by (rule disjI1, rule registry_becomes [OF sys_inv_thread(1)])

lemma thread_step_registry:
  assumes s: "sys_inv s" and th: "th < PID_MAX" and step: "thread_step th s s'"
  shows "registry_moves s s'"
  using step
proof cases
  case (get_created ky c perm i e k')
  let ?t = "new_service e ky i perm (replicate 32 (new_level i))"
  have "c = CREATE_TAG" using tag_get_none_creates [OF get_created(4)] .
  then have C: "kinv k'" "0 \<le> i" "i < 512" "entry (ks s) (nat i) = None" "heap (ks s) (next_addr (ks s)) = None"
    "heap k' = (heap (ks s))(next_addr (ks s) \<mapsto> ?t)"
    using tag_get_create_kinv [OF sys_inv_thread(1) [OF s], of e ky perm i k'] get_created(4) by auto
  have pc: "perm = EVERYONE \<or> perm = ONLY_OWNER" "ky \<noteq> IPC_PRIVATE \<longrightarrow> i = hash_function ky"
    using sys_inv_thread(2) [OF s, of th] get_created(2) by simp_all
  note R = registry_create [OF sys_inv_thread(1) [OF s] C(1-6) created_service(4)]
  have "registry_step (thread_euid s th) (registry_of (ks s)) (registry_of k')"
    using registry_step.create [where i = "nat i" and A = "registry_of (ks s)" and perm = perm
        and ky = "if ky = IPC_PRIVATE then -1 else ky" and u = "euid e"] R(2) pc C(2,3) get_created(3)
    unfolding R(1) by (auto simp: service_view_def new_service_def)
  then show ?thesis using get_created(1) th by (auto simp: registry_moves_def)
next
  case (ctl_removed i p r k')
  obtain t where t: "heap (ks s) p = Some t" "lazy_deleted t = YES" "tag t = i"
    using sys_inv_thread(2) [OF s, of th] ctl_removed(2) by auto
  have F: "kinv k'" "heap k' = (heap (ks s))(p := None)"
    using ctl_unlink_kinv [OF sys_inv_thread(1) [OF s] ctl_removed(3) t] by simp_all
  have a: "allowed (thread_euid s th) t" using s t(1) ctl_removed(2) unfolding sys_inv_def threads_ok_def by auto
  note R = registry_remove [OF sys_inv_thread(1) [OF s] F(1) t(1) F(2)]
  have "registry_step (thread_euid s th) (registry_of (ks s)) (registry_of k')"
    unfolding R(1) using R(2) a by (intro registry_step.remove) (simp_all add: service_view_def allowed_def)
  then show ?thesis using ctl_removed(1) th by (auto simp: registry_moves_def)
next
  case (send_locked i lev p page n sz e r k')
  have "ptr_ok (ks s) i p" "lev_ok lev" using sys_inv_thread(2) [OF s, of th] send_locked(2) by simp_all
  then have "kinv k' \<and> evolves {} (ks s) k' \<and> dom (heap k') = dom (heap (ks s))"
    using send_locked_kinv [OF sys_inv_thread(1) [OF s] send_locked(4)] by (simp add: ptr_ok_def lev_ok_def)
  then show ?thesis using send_locked(1) moves_kept [OF s] by simp
next
  case (receive_count i lev p u sz k')
  obtain t where b: "service_becomes p t (count_total atomic_inc t) (ks s) k'"
    using receive_total_state [OF receive_count(3)] .
  show ?thesis using receive_count(1) moves_becomes [OF s b receive_total_kinv(1) [OF sys_inv_thread(1) [OF s] b]] by simp
next
  case (receive_uncount i lev p r bs k')
  obtain t where b: "service_becomes p t (count_total atomic_dec t) (ks s) k'"
    using receive_total_state [OF receive_uncount(3)] .
  show ?thesis using receive_uncount(1) moves_becomes [OF s b receive_total_kinv(1) [OF sys_inv_thread(1) [OF s] b]] by simp
next
  case (receive_enter i lev p u sz k')
  have l: "0 \<le> lev" "lev < 32" using sys_inv_thread(2) [OF s, of th] receive_enter(2) by (simp_all add: lev_ok_def)
  obtain t where b: "service_becomes p t (recounted lev atomic_inc t) (ks s) k'"
    using receive_level_state [OF sys_inv_thread(1) [OF s] receive_enter(3) l] .
  show ?thesis
    using receive_enter(1) moves_becomes [OF s b receive_level_kinv(1) [OF sys_inv_thread(1) [OF s] b l]] by simp
next
  case (receive_leave i lev p r bs k')
  have l: "0 \<le> lev" "lev < 32" using sys_inv_thread(2) [OF s, of th] receive_leave(2) by (simp_all add: lev_ok_def)
  obtain t where b: "service_becomes p t (recounted lev atomic_dec t) (ks s) k'"
    using receive_level_state [OF sys_inv_thread(1) [OF s] receive_leave(3) l] .
  show ?thesis
    using receive_leave(1) moves_becomes [OF s b receive_level_kinv(1) [OF sys_inv_thread(1) [OF s] b l]] by simp
next
  case (ctl_locked c i p e r k')
  have "c = REMOVE_TAG \<or> c = AWAKE_ALL" using sys_inv_thread(2) [OF s, of th] ctl_locked(2) by simp
  then show ?thesis
    using ctl_locked moves_kept [OF s] ctl_locked_kinv [OF sys_inv_thread(1) [OF s] ctl_locked(4)] by simp
next
  case (ctl_marked c i p e k')
  have "c = REMOVE_TAG \<or> c = AWAKE_ALL" using sys_inv_thread(2) [OF s, of th] ctl_marked(2) by simp
  then show ?thesis
    using ctl_marked moves_kept [OF s] ctl_locked_kinv [OF sys_inv_thread(1) [OF s] ctl_marked(4)] by simp
qed (use moves_neutral [OF s] neutral_unlock tag_get_select_neutral tag_get_locked_neutral tag_get_device_neutral tag_ctl_destroy_neutral
    tag_send_enter_neutral tag_receive_check_neutral tag_ctl_enter_neutral update_parts_neutral ts_read_locked_neutral
    in simp_all)

lemma sys_step_registry: "sys_inv s \<Longrightarrow> sys_step s s' \<Longrightarrow> registry_moves s s'"
proof (erule sys_stepE)
  fix q1 c q2 k'
  assume s: "sys_inv s" and c: "s' = s\<lparr>ks := k'\<rparr>" "rcu_queue (ks s) = q1 @ (c, {}) # q2"
    "run_callback c ((ks s)\<lparr>rcu_queue := q1 @ q2\<rparr>) = Inr k'"
  have "kinv k' \<and> evolves {} (ks s) k' \<and> dom (heap k') = dom (heap (ks s))"
    using run_callback_kinv [OF sys_inv_thread(1) [OF s] c(2)] c(3) by auto
  then show "registry_moves s s'" using moves_kept [OF s] c(1) by (simp add: registry_moves_def)
qed (auto intro: thread_step_registry)

text \<open>Who runs is part of what the abstract machine sees: each thread keeps its user.\<close>

lemma sys_step_euid: "sys_step s s' \<Longrightarrow> thread_euid s' = thread_euid s"
  by (erule sys_stepE) (auto elim!: thread_step.cases)

definition some_user_step :: "(nat \<Rightarrow> 32 word) \<times> registry \<Rightarrow> (nat \<Rightarrow> 32 word) \<times> registry \<Rightarrow> bool" where
  "some_user_step a b \<longleftrightarrow> fst b = fst a \<and> (\<exists>th < PID_MAX. registry_step (fst a th) (snd a) (snd b))"

interpretation registry: simulation sys_init sys_step sys_inv
    "\<lambda>s. (thread_euid s, registry_of (ks s))" some_user_step
  using sys_step_registry sys_step_euid by unfold_locales (auto simp: some_user_step_def registry_moves_def)

lemma registry_booted: "sys_init s \<Longrightarrow> registry_of (ks s) = Map.empty"
  using booted_service by (auto simp: sys_init_def registry_of_def)

end
