(* ===== verification/Conc_Runs.thy ===== *)
theory Conc_Runs
  imports Conc_Rcu
begin

text \<open>
  Runs of the concurrent system: a system call that no other thread comes between is a run with the
  result that the function of the whole call gives, and from these the two races of the module.
\<close>

section \<open>A call without interleaving\<close>

lemma goto_goto [simp]:
  "goto th c k (goto th c' k' s) = goto th c k s" "finish th r bs k (goto th c' k' s) = finish th r bs k s"
  by (simp_all add: goto_def answer_def)

lemma step_run: "sys_step\<^sup>*\<^sup>* s s1 \<Longrightarrow> th < PID_MAX \<Longrightarrow> thread_step th s1 s2 \<Longrightarrow> sys_step\<^sup>*\<^sup>* s s2"
  using sys_step.thread by (blast intro: rtranclp.rtrancl_into_rtrancl)

lemma step_one: "th < PID_MAX \<Longrightarrow> thread_step th s s' \<Longrightarrow> sys_step\<^sup>*\<^sup>* s s'"
  using step_run by blast

lemma get_runs:
  assumes s: "pcs s th = Idle" "th < PID_MAX" "euid e = thread_euid s th"
    and c: "tag_get e ky c perm (ks s) = Inr (r, k')"
  shows "sys_step\<^sup>*\<^sup>* s (finish th r [] k' s)"
proof -
  obtain x k1 where sel: "tag_get_select ky c perm (ks s) = Inr (x, k1)" using c
    by (auto simp: tag_get_def elim!: and_then_InrE)
  show ?thesis
  proof (cases x)
    case (Inl code)
    then show ?thesis using c sel step_one [OF s(2) thread_step.get_refused [OF s(1)]] by (simp add: tag_get_def)
  next
    case (Inr i)
    let ?s1 = "goto th (Getting ky c perm i) k1 s"
    have r1: "sys_step\<^sup>*\<^sup>* s ?s1" using sel Inr by (intro step_one [OF s(2)] thread_step.get_call [OF s(1)]) simp
    obtain y k2 where l: "tag_get_locked e ky c perm i k1 = Inr (y, k2)" using c sel Inr
      by (auto simp: tag_get_def elim!: and_then_InrE)
    show ?thesis
    proof (cases y)
      case (Some code)
      have "thread_step th ?s1 (finish th code [] k2 ?s1)"
        using l Some s(3) by (intro thread_step.get_locked) simp_all
      then show ?thesis using step_run [OF r1 s(2)] c sel Inr l Some by (simp add: tag_get_def)
    next
      case None
      let ?s2 = "goto th (Publishing i) k2 ?s1"
      have "thread_step th ?s1 ?s2" using thread_step.get_created [of ?s1 th ky c perm i e k2] l None s(3) by simp
      then have r2: "sys_step\<^sup>*\<^sup>* s ?s2" using step_run [OF r1 s(2)] by blast
      have "tag_get_publish e i k2 = Inr (r, k')" using c sel Inr l None by (simp add: tag_get_def)
      then have p: "tag_get_device e i (dec_remaining k2) = Inr (r, k')" by (simp add: tag_get_publish_def)
      let ?s3 = "goto th (Creating i) (dec_remaining k2) ?s2"
      have "thread_step th ?s2 ?s3" using thread_step.get_counted [of ?s2 th i] by simp
      then have r3: "sys_step\<^sup>*\<^sup>* s ?s3" by (rule step_run [OF r2 s(2)])
      have "thread_step th ?s3 (finish th r [] k' ?s3)" using p s(3) by (intro thread_step.get_published) simp_all
      then show ?thesis using step_run [OF r3 s(2)] by simp
    qed
  qed
qed

lemma send_runs:
  assumes s: "pcs s th = Idle" "th < PID_MAX" "euid e = thread_euid s th"
    and c: "tag_send e i lev u sz (ks s) = Inr (r, k')"
  shows "sys_step\<^sup>*\<^sup>* s (finish th r [] k' s)"
proof -
  obtain x k1 where en: "tag_send_enter e i lev u sz (ks s) = Inr (x, k1)" using c
    by (auto simp: tag_send_def elim!: and_then_InrE)
  show ?thesis
  proof (cases x)
    case (Inl code)
    then show ?thesis using c en step_one [OF s(2) thread_step.send_refused [OF s(1,3)]] by (simp add: tag_send_def)
  next
    case (Inr y)
    obtain p page n where y: "y = (p, page, n)" by (cases y)
    let ?s1 = "goto th (Sending i lev p page n sz) k1 s"
    have r1: "sys_step\<^sup>*\<^sup>* s ?s1" using en Inr y by (intro step_one [OF s(2)] thread_step.send_call [OF s(1,3)]) simp
    have "tag_send_locked e i lev p page n sz k1 = Inr (r, k')" using c en Inr y by (simp add: tag_send_def)
    then have "thread_step th ?s1 (finish th r [] k' ?s1)" using s(3) by (intro thread_step.send_locked) simp_all
    then show ?thesis using step_run [OF r1 s(2)] by simp
  qed
qed

lemma ctl_runs:
  assumes s: "pcs s th = Idle" "th < PID_MAX" "euid e = thread_euid s th"
    and c: "tag_ctl e i cmd (ks s) = Inr (r, k')"
  shows "sys_step\<^sup>*\<^sup>* s (finish th r [] k' s)"
proof -
  obtain x k1 where en: "tag_ctl_enter i cmd (ks s) = Inr (x, k1)" using c
    by (auto simp: tag_ctl_def elim!: and_then_InrE)
  show ?thesis
  proof (cases x)
    case (Inl code)
    then show ?thesis using c en step_one [OF s(2) thread_step.ctl_refused [OF s(1)]] by (simp add: tag_ctl_def)
  next
    case (Inr p)
    let ?s1 = "goto th (Controlling cmd i p) k1 s"
    have r1: "sys_step\<^sup>*\<^sup>* s ?s1" using en Inr by (intro step_one [OF s(2)] thread_step.ctl_call [OF s(1)]) simp
    obtain y k2 where l: "tag_ctl_locked e cmd p k1 = Inr (y, k2)" using c en Inr
      by (auto simp: tag_ctl_def elim!: and_then_InrE)
    show ?thesis
    proof (cases y)
      case (Some code)
      have "thread_step th ?s1 (finish th code [] k2 ?s1)" using l Some s(3) by (intro thread_step.ctl_locked) simp_all
      then show ?thesis using step_run [OF r1 s(2)] c en Inr l Some by (simp add: tag_ctl_def)
    next
      case None
      let ?s2 = "goto th (Removing i p) k2 ?s1"
      have "thread_step th ?s1 ?s2" using l None s(3) by (intro thread_step.ctl_marked) simp_all
      then have r2: "sys_step\<^sup>*\<^sup>* s ?s2" using step_run [OF r1 s(2)] by blast
      have "tag_ctl_finish i p k2 = Inr (r, k')" using c en Inr l None by (simp add: tag_ctl_def)
      then obtain k3 where k3: "tag_ctl_destroy p k2 = Inr k3" "tag_ctl_unlink i p k3 = Inr (r, k')"
        by (auto simp: tag_ctl_finish_def elim!: and_then_InrE)
      let ?s3 = "goto th (Unlinking i p) k3 ?s2"
      have "thread_step th ?s2 ?s3" using k3(1) by (intro thread_step.ctl_destroyed) simp_all
      then have r3: "sys_step\<^sup>*\<^sup>* s ?s3" by (rule step_run [OF r2 s(2)])
      have "thread_step th ?s3 (finish th r [] k' ?s3)" using k3(2) by (intro thread_step.ctl_removed) simp_all
      then show ?thesis using step_run [OF r3 s(2)] by simp
    qed
  qed
qed

text \<open>The way into a level and the way out, whole.\<close>

lemma finish_runs:
  assumes s: "pcs s th = Rewriting i lev a n c" "th < PID_MAX" and u: "update_finish e lev a n (ks s) = Inr k'"
  shows "sys_step\<^sup>*\<^sup>* s (goto th (resume i lev c) k' s)"
proof -
  obtain j new k1 where k1: "update_free e lev a n (ks s) = Inr ((j, new), k1)" "update_assign j new k1 = Inr k'"
    using u by (auto simp: update_finish_def elim!: and_then_InrE)
  let ?s1 = "goto th (Assigning i lev j new c) k1 s"
  have r1: "sys_step\<^sup>*\<^sup>* s ?s1" by (rule step_one [OF s(2) thread_step.update_freed [OF s(1) k1(1)]])
  have "thread_step th ?s1 (goto th (resume i lev c) k' ?s1)" using k1(2) by (intro thread_step.update_written) simp_all
  then show ?thesis using step_run [OF r1 s(2)] by simp
qed

lemma update_runs:
  assumes s: "pcs s th = Updating i lev c" "th < PID_MAX" and u: "update_chrdev e i lev (ks s) = Inr (r, k')"
  shows "sys_step\<^sup>*\<^sup>* s (goto th (resume i lev c) k' s)"
proof -
  obtain x where x: "update_begin i lev (ks s) = Inr x" using u by (auto simp: update_chrdev_def elim!: and_then_InrE)
  show ?thesis
  proof (cases x)
    case None
    then have "k' = ks s" using u x by (simp add: update_chrdev_def)
    then show ?thesis using thread_step.update_skipped [OF s(1)] x None by (intro step_one [OF s(2)]) simp
  next
    case (Some y)
    obtain a n where y: "y = (a, n)" by (cases y)
    let ?s1 = "goto th (Rewriting i lev a n c) (ks s) s"
    have r1: "sys_step\<^sup>*\<^sup>* s ?s1" using thread_step.update_read [OF s(1)] x Some y by (intro step_one [OF s(2)]) simp
    have "update_finish e lev a n (ks s) = Inr k'" using u x Some y
      by (auto simp: update_chrdev_def elim!: and_then_InrE)
    then have "sys_step\<^sup>*\<^sup>* ?s1 (goto th (resume i lev c) k' ?s1)" by (intro finish_runs [OF _ s(2)]) simp_all
    then show ?thesis using r1 by simp
  qed
qed

lemma enter_runs:
  assumes s: "pcs s th = Checked i lev p u sz" "th < PID_MAX" and c: "tag_receive_enter e i lev p (ks s) = Inr k'"
  shows "sys_step\<^sup>*\<^sup>* s (goto th (Waiting i lev p u sz) k' s)"
proof -
  obtain k1 k2 r where k: "tag_receive_total atomic_inc p (ks s) = Inr k1" "tag_receive_level atomic_inc lev p k1 = Inr k2"
    "update_chrdev e i lev k2 = Inr (r, k')"
    using c by (auto simp: tag_receive_enter_def elim!: and_then_InrE)
  let ?s1 = "goto th (Counted i lev p u sz) k1 s" and ?s2 = "goto th (Updating i lev (Entering p u sz)) k2 s"
  have r1: "sys_step\<^sup>*\<^sup>* s ?s1" by (rule step_one [OF s(2) thread_step.receive_count [OF s(1) k(1)]])
  have "thread_step th ?s1 ?s2" using thread_step.receive_enter [of ?s1 th i lev p u sz k2] k(2) by simp
  then have r2: "sys_step\<^sup>*\<^sup>* s ?s2" by (rule step_run [OF r1 s(2)])
  have "sys_step\<^sup>*\<^sup>* ?s2 (goto th (resume i lev (Entering p u sz)) k' ?s2)"
    using k(3) by (intro update_runs [OF _ s(2), where e = e and r = r]) simp_all
  then show ?thesis using r2 by simp
qed

lemma leave_runs:
  assumes s: "pcs s th = Leaving i lev p r bs" "th < PID_MAX" and c: "tag_receive_leave e i lev p (ks s) = Inr k'"
  shows "sys_step\<^sup>*\<^sup>* s (finish th r bs k' s)"
proof -
  obtain k1 k2 x k3 where k: "tag_receive_total atomic_dec p (ks s) = Inr k1" "tag_receive_level atomic_dec lev p k1 = Inr k2"
    "update_chrdev e i lev k2 = Inr (x, k3)" "k' = module_put k3"
    using c by (auto simp: tag_receive_leave_def elim!: and_then_InrE)
  let ?s1 = "goto th (Uncounted i lev p r bs) k1 s" and ?s2 = "goto th (Updating i lev (Exiting r bs)) k2 s"
  let ?s3 = "goto th (Returning r bs) k3 s"
  have r1: "sys_step\<^sup>*\<^sup>* s ?s1" by (rule step_one [OF s(2) thread_step.receive_uncount [OF s(1) k(1)]])
  have "thread_step th ?s1 ?s2" using thread_step.receive_leave [of ?s1 th i lev p r bs k2] k(2) by simp
  then have r2: "sys_step\<^sup>*\<^sup>* s ?s2" by (rule step_run [OF r1 s(2)])
  have "sys_step\<^sup>*\<^sup>* ?s2 (goto th (resume i lev (Exiting r bs)) k3 ?s2)"
    using k(3) by (intro update_runs [OF _ s(2), where e = e and r = x]) simp_all
  then have r3: "sys_step\<^sup>*\<^sup>* s ?s3" using r2 by simp
  have "thread_step th ?s3 (finish th r bs k' ?s3)" using thread_step.receive_return [of ?s3 th r bs] k(4) by simp
  then show ?thesis using step_run [OF r3 s(2)] by simp
qed

lemma receive_runs:
  assumes s: "pcs s th = Idle" "th < PID_MAX" "euid e = thread_euid s th"
    and c: "tag_receive e th sg i lev u sz (ks s) = Inr ((r, bs), k')"
  shows "sys_step\<^sup>*\<^sup>* s (finish th r bs k' s)"
proof -
  obtain x k1 where en: "tag_receive_check e i lev u (ks s) = Inr (x, k1)" using c
    by (auto simp: tag_receive_def elim!: and_then_InrE)
  show ?thesis
  proof (cases x)
    case (Inl code)
    then show ?thesis using c en step_one [OF s(2) thread_step.receive_refused [OF s(1,3)]] by (simp add: tag_receive_def)
  next
    case (Inr p)
    obtain k2 t w where k2: "tag_receive_enter e i lev p k1 = Inr k2" and t: "get_ts k2 p = Inr t"
      and w: "wait_condition lev t = Inr w" "w \<or> sg" and rd: "tag_receive_read sg lev u sz t = Inr (r, bs)"
      and lv: "tag_receive_leave e i lev p (rcu_read_unlock th (rcu_read_lock th k2)) = Inr k'"
      using c en Inr by (auto simp: tag_receive_def elim!: and_then_InrE split: if_splits)
    have t3: "get_ts (rcu_read_lock th k2) p = Inr t" using t by (simp add: get_ts_def rcu_read_lock_def)
    let ?s1 = "goto th (Checked i lev p u sz) k1 s" and ?s2 = "goto th (Waiting i lev p u sz) k2 s"
    let ?s3 = "goto th (Woken sg i lev p u sz) k2 s" and ?s4 = "goto th (Reading sg i lev p u sz) (rcu_read_lock th k2) s"
    let ?s5 = "goto th (Copied i lev p r bs) (rcu_read_lock th k2) s"
    let ?s6 = "goto th (Leaving i lev p r bs) (rcu_read_unlock th (rcu_read_lock th k2)) s"
    have r1: "sys_step\<^sup>*\<^sup>* s ?s1" using en Inr by (intro step_one [OF s(2)] thread_step.receive_call [OF s(1,3)]) simp
    have "sys_step\<^sup>*\<^sup>* ?s1 (goto th (Waiting i lev p u sz) k2 ?s1)"
      using k2 by (intro enter_runs [OF _ s(2), where e = e]) simp_all
    then have r2: "sys_step\<^sup>*\<^sup>* s ?s2" using r1 by simp
    have "thread_step th ?s2 ?s3" using thread_step.receive_wake [of ?s2 th i lev p u sz t w sg] t w by simp
    then have r3: "sys_step\<^sup>*\<^sup>* s ?s3" by (rule step_run [OF r2 s(2)])
    have "thread_step th ?s3 ?s4" using thread_step.receive_section [of ?s3 th sg i lev p u sz] by simp
    then have r4: "sys_step\<^sup>*\<^sup>* s ?s4" by (rule step_run [OF r3 s(2)])
    have "thread_step th ?s4 ?s5" using thread_step.receive_read [of ?s4 th sg i lev p u sz sg t r bs] t3 rd by simp
    then have r5: "sys_step\<^sup>*\<^sup>* s ?s5" by (rule step_run [OF r4 s(2)])
    have "thread_step th ?s5 ?s6" using thread_step.receive_unlock [of ?s5 th i lev p r bs] by simp
    then have r6: "sys_step\<^sup>*\<^sup>* s ?s6" by (rule step_run [OF r5 s(2)])
    have "sys_step\<^sup>*\<^sup>* ?s6 (finish th r bs k' ?s6)" using lv by (intro leave_runs [OF _ s(2), where e = e]) simp_all
    then show ?thesis using r6 by simp
  qed
qed

section \<open>A module with one service\<close>

lemma tag_get_rcu: "tag_get e ky c perm k = Inr (r, k') \<Longrightarrow> rcu_same k k'"
  by (auto simp: tag_get_def elim!: and_then_InrE split: sum.splits option.splits
      dest!: tag_get_select_rcu tag_get_locked_rcu tag_get_publish_rcu) (auto simp: rcu_same_def)

definition start_sys :: sys where
  "start_sys = \<lparr>ks = booted 240, pcs = \<lambda>_. Idle, thread_euid = \<lambda>_. 1000, results = []\<rparr>"

definition first_service :: tag_service where
  "first_service = new_service (plain_env 1000) 5 5 EVERYONE (replicate 32 (new_level 5))"

lemma start_sys_init: "sys_init start_sys"
  by (auto simp: sys_init_def start_sys_def)

lemma start_sys_fields [simp]:
  "pcs start_sys th = Idle" "thread_euid start_sys th = 1000" "results start_sys = []" "ks start_sys = booted 240"
  by (simp_all add: start_sys_def)

lemma first_service_facts:
  "lazy_deleted first_service = NO" "may_use e first_service" "counts first_service = replicate 32 0"
  "thread_waiting_message_count first_service = 0" "totals_ok first_service" "key first_service = 5"
  "owner_euid first_service = 1000" "length (level first_service) = 32" "ts_wf 5 first_service"
proof -
  show c: "counts first_service = replicate 32 0" "ts_wf 5 first_service" "length (level first_service) = 32"
    unfolding first_service_def by (rule created_service, rule created_service, simp add: new_service_def)
  show "lazy_deleted first_service = NO" "may_use e first_service"
    "thread_waiting_message_count first_service = 0" "key first_service = 5" "owner_euid first_service = 1000"
    by (simp_all add: first_service_def new_service_def may_use_def plain_env_def)
  then show "totals_ok first_service" by (simp add: totals_ok_def c demo_counts0)
qed

text \<open>After \<open>tag_get(5, CREATE_TAG, EVERYONE)\<close> in thread 0.\<close>

lemma demo_created:
  obtains k s where "sys_step\<^sup>*\<^sup>* start_sys s" "s = finish 0 5 [] k start_sys" "quiet k" "entry k 5 = Some 0"
    "service_at k 5 = Some first_service" "device_shows k 5 first_service" "rcu_queue k = []" "rcu_readers k = {}"
    "cdev_added (dm k) ! 5"
proof -
  have n: "nat (5 mod MAX_TAG_SERVICES) = 5" "(5::int) mod MAX_TAG_SERVICES = 5" by simp_all
  from tag_get_create_key [OF booted_quiet plain_env_usable plain_env_gap(2), of EVERYONE 5 240 1000] booted_service
  obtain k where k: "tag_get (plain_env 1000) 5 CREATE_TAG EVERYONE (booted 240) = Inr (5, k)"
    "created (plain_env 1000) 5 EVERYONE 5 (booted 240) k" unfolding n by auto
  have "sys_step\<^sup>*\<^sup>* start_sys (finish 0 5 [] k start_sys)"
    by (rule get_runs [where e = "plain_env 1000" and ky = 5 and c = CREATE_TAG and perm = EVERYONE])
      (use k(1) in \<open>simp_all add: PID_MAX_def\<close>, simp_all add: plain_env_def)
  moreover have "rcu_queue k = []" "rcu_readers k = {}"
    using tag_get_rcu [OF k(1)] by (simp_all add: rcu_same_def) (simp_all add: booted_def)
  moreover have c: "quiet k" "entry k 5 = Some 0" "service_at k 5 = Some first_service"
    "shows_status k 5 5 1000 (replicate 32 0)" "cdev_added (dm k) ! 5"
    using k(2) created_shows [OF k(2) _ _ plain_env_gap(1)]
    by (simp_all add: created_def first_service_def) (simp_all add: booted_def plain_env_def)
  moreover have "device_shows k 5 first_service"
    using c(4) by (simp add: device_shows_def first_service_facts is_int_def)
  ultimately show thesis using that by blast
qed

text \<open>A receiver, thread 1, has passed its checks.\<close>

definition demo_buf :: user_ptr where "demo_buf = Some (replicate 64 NUL)"

lemma demo_checked:
  assumes k: "quiet k" "entry k 5 = Some 0" "service_at k 5 = Some first_service" and s: "s = finish 0 5 [] k start_sys"
  shows "thread_step 1 s (goto 1 (Checked 5 3 0 demo_buf 64) (module_get k) s)"
proof -
  have "calm k" using k(1) by (simp add: quiet_calm)
  from tag_receive_check_ok [OF this k(3,2), of 3 "plain_env 1000"] first_service_facts(1,2)
  have "tag_receive_check (plain_env 1000) 5 3 demo_buf k = Inr (Inr 0, module_get k)" by (simp add: demo_buf_def)
  moreover have "euid (plain_env 1000) = 1000" by (simp add: plain_env_def)
  ultimately show ?thesis using s by (intro thread_step.receive_call) simp_all
qed

section \<open>A service freed under a receiver\<close>

lemma use_after_free_run:
  "\<exists>s. sys_step\<^sup>*\<^sup>* start_sys s \<and> results s = [(0, 5, []), (0, SUCCESS, [])]
    \<and> pcs s 1 = Checked 5 3 0 demo_buf 64 \<and> heap (ks s) 0 = None"
proof -
  obtain k s where c: "sys_step\<^sup>*\<^sup>* start_sys s" "s = finish 0 5 [] k start_sys" "quiet k" "entry k 5 = Some 0"
    "service_at k 5 = Some first_service" "device_shows k 5 first_service" "rcu_queue k = []" "rcu_readers k = {}"
    "cdev_added (dm k) ! 5" by (rule demo_created)
  let ?s1 = "goto 1 (Checked 5 3 0 demo_buf 64) (module_get k) s"
  have r1: "sys_step\<^sup>*\<^sup>* start_sys ?s1"
    using step_run [OF c(1) _ demo_checked [OF c(3-5,2)]] by (simp add: PID_MAX_def)
  obtain b where "get_content (module_get k) 5 = Inr b" using c(6)
    by (auto simp: device_shows_def shows_status_def get_content_def)
  moreover have "service_at (module_get k) 5 = Some first_service" "quiet (module_get k)" "entry (module_get k) 5 = Some 0"
    using c(3-5) by simp_all
  ultimately obtain p k' where k': "entry (module_get k) 5 = Some p" "heap k' p = None"
    "tag_ctl (plain_env 1000) 5 REMOVE_TAG (module_get k) = Inr (SUCCESS, k')"
    using tag_ctl_removes [of "module_get k" 5 first_service "plain_env 1000"] first_service_facts by (metis of_nat_numeral)
  have "sys_step\<^sup>*\<^sup>* ?s1 (finish 0 SUCCESS [] k' ?s1)"
    by (rule ctl_runs [where e = "plain_env 1000" and i = 5 and cmd = REMOVE_TAG])
      (use k'(3) c(2) in \<open>simp_all add: PID_MAX_def plain_env_def\<close>)
  then have "sys_step\<^sup>*\<^sup>* start_sys (finish 0 SUCCESS [] k' ?s1)" using r1 by simp
  moreover have "heap k' 0 = None" using k' c(4) by simp
  ultimately show ?thesis using c(2) by (intro exI [of _ "finish 0 SUCCESS [] k' ?s1"]) simp
qed

section \<open>A message that its receiver misses\<close>

text \<open>The receiver is counted in its level and sleeps.\<close>

lemma demo_waiting:
  obtains k s t where "sys_step\<^sup>*\<^sup>* start_sys s" "s = goto 1 (Waiting 5 3 0 demo_buf 64) k (finish 0 5 [] k start_sys)"
    "quiet k" "entry k 5 = Some 0" "service_at k 5 = Some t" "device_shows k 5 t" "totals_ok t" "counts t ! 3 = 1"
    "0 < thread_waiting_message_count t" "lazy_deleted t = NO" "awake_request t = NO" "\<forall>e. may_use e t" "rcu_queue k = []" "rcu_readers k = {}"
proof -
  obtain k s where c: "sys_step\<^sup>*\<^sup>* start_sys s" "s = finish 0 5 [] k start_sys" "quiet k" "entry k 5 = Some 0"
    "service_at k 5 = Some first_service" "device_shows k 5 first_service" "rcu_queue k = []" "rcu_readers k = {}"
    "cdev_added (dm k) ! 5" by (rule demo_created)
  let ?k = "module_get k" and ?t = first_service
  let ?s1 = "goto 1 (Checked 5 3 0 demo_buf 64) ?k s"
  have th: "1 < PID_MAX" by (simp add: PID_MAX_def)
  have r1: "sys_step\<^sup>*\<^sup>* start_sys ?s1" by (rule step_run [OF c(1) th demo_checked [OF c(3-5,2)]])
  have q: "calm ?k" "service_at ?k 5 = Some ?t" "entry ?k 5 = Some 0" "device_shows ?k 5 ?t"
    using c(3-6) quiet_calm [of ?k] by (simp_all add: device_shows_def shows_status_def get_content_def)
  have lev: "0 \<le> (3::int)" "(3::int) < 32" "sum_list (counts ?t) + 1 < 10 ^ 9"
    by (simp_all add: first_service_facts demo_counts0)
  obtain k3 t3 where e: "tag_receive_enter (plain_env 1000) (int 5) 3 0 ?k = Inr k3" "count_in 3 ?t = Inr t3" "calm k3"
    "service_at k3 = (service_at ?k)(5 \<mapsto> t3)" "device_shows k3 5 t3" "totals_ok t3"
    "counts t3 = (counts ?t)[nat 3 := counts ?t ! nat 3 + 1]" "core k3 = core (put_ts 0 t3 ?k)"
    "0 < thread_waiting_message_count t3"
    by (rule enter_counts [OF q(1-3) plain_env_zeroed lev(1,2) q(4) first_service_facts(5) lev(3)])
  have t3: "t3 = put_level 3 ((level ?t ! nat 3)\<lparr>thread_waiting := atomic_inc (thread_waiting (level ?t ! nat 3))\<rparr>)
      (?t\<lparr>thread_waiting_message_count := atomic_inc (thread_waiting_message_count ?t)\<rparr>)"
    using count_in_ok [OF first_service_facts(8) lev(1,2)] e(2) by simp
  let ?s2 = "goto 1 (Waiting 5 3 0 demo_buf 64) k3 (finish 0 5 [] k3 start_sys)"
  have s2: "?s2 = goto 1 (Waiting 5 3 0 demo_buf 64) k3 ?s1" using c(2) by (simp add: goto_def answer_def)
  have "sys_step\<^sup>*\<^sup>* ?s1 ?s2" unfolding s2 using e(1) by (intro enter_runs [OF _ th, where e = "plain_env 1000"]) simp_all
  then have "sys_step\<^sup>*\<^sup>* start_sys ?s2" using r1 by simp
  moreover have "held k3 = held ?k" "entry k3 = entry ?k"
    using held_core [OF e(8)] entry_core [OF e(8)] by (simp_all add: put_ts_def held_def entry_def fun_eq_iff)
  then have "quiet k3" "entry k3 5 = Some 0" using e(3) c(3) q(3) quiet_calm [of k3] quiet_calm [of ?k] by simp_all
  moreover have "counts t3 ! 3 = 1" by (simp add: e(7) first_service_facts)
  moreover have "lazy_deleted t3 = NO" "awake_request t3 = NO" "may_use f t3" for f
    using first_service_facts(1) first_service_facts(2) [of f]
    by (simp_all add: t3 put_level_def may_use_def) (simp add: first_service_def new_service_def)
  moreover have "rcu_queue k3 = []" "rcu_readers k3 = {}"
    using core_eqD(5,6) [OF e(8)] c(7,8) by (simp_all add: put_ts_def)
  ultimately show thesis using that [of ?s2 k3 t3] e(4-6,9) by simp
qed

text \<open>A sender delivers while the receiver sleeps, and the lock of the tag stays locked.\<close>

lemma demo_delivery:
  obtains k0 k s t l where
    "sys_step\<^sup>*\<^sup>* start_sys (goto 1 (Waiting 5 3 0 demo_buf 64) k0 (finish 0 5 [] k0 start_sys))"
    "sys_step\<^sup>*\<^sup>* (goto 1 (Waiting 5 3 0 demo_buf 64) k0 (finish 0 5 [] k0 start_sys)) s"
    "s = finish 2 0 [] k (goto 1 (Waiting 5 3 0 demo_buf 64) k0 (finish 0 5 [] k0 start_sys))"
    "quiet k0" "entry k0 5 = Some 0" "service_at k0 5 = Some t" "device_shows k0 5 t" "totals_ok t" "counts t ! 3 = 1"
    "rcu_queue k0 = []" "rcu_readers k0 = {}" "heap k0 0 = Some t" "ts_wf 5 t" "awake_request t = NO"
    "k = call_rcu (FreeAfterSend 0 3) (put_ts 0 (put_level 3 l t) (locked 5 k0))"
    "lev_tag l = 5" "length (message l) = 4096" "message_ready l = READY"
    "thread_waiting l = thread_waiting (level t ! 3)"
proof -
  obtain k0 s0 t where w: "sys_step\<^sup>*\<^sup>* start_sys s0" "s0 = goto 1 (Waiting 5 3 0 demo_buf 64) k0 (finish 0 5 [] k0 start_sys)"
    "quiet k0" "entry k0 5 = Some 0" "service_at k0 5 = Some t" "device_shows k0 5 t" "totals_ok t" "counts t ! 3 = 1"
    "0 < thread_waiting_message_count t" "lazy_deleted t = NO" "awake_request t = NO" "\<forall>e. may_use e t" "rcu_queue k0 = []" "rcu_readers k0 = {}"
    by (rule demo_waiting) blast
  have a: "lazy_deleted t \<noteq> YES" "0 \<le> (3::int)" "(3::int) < MAX_LEVELS" using w(10) by simp_all
  obtain p m l where p: "entry k0 5 = Some p" "heap k0 p = Some t" "length m = 4096"
    "l = (level t ! nat 3)\<lparr>message := m, lev_size := of_nat (length (sent_bytes (Some (''ciao'' @ [NUL])) 5)), message_ready := READY\<rparr>"
    "tag_send (plain_env 1000) (int 5) 3 (Some (''ciao'' @ [NUL])) 5 k0 = and_then
        (if thread_waiting_message_count t > 0 then
            Inr (call_rcu (FreeAfterSend p 3) (put_ts p (put_level 3 l t) (locked (int 5) (module_get k0))))
          else Inr (put_ts p (put_level 3 (l\<lparr>message_ready := NOT_READY, message := replicate 4096 NUL\<rparr>) t) (module_get k0)))
        (\<lambda>s. Inr (send_code 5, module_put s))"
    by (rule send_reaches_level [OF w(3,5) a(1) w(12) [rule_format] a(2,3) sendable_ciao]) blast
  let ?k = "call_rcu (FreeAfterSend 0 3) (put_ts 0 (put_level 3 l t) (locked 5 k0))"
  have "module_put (call_rcu (FreeAfterSend 0 3) (put_ts 0 (put_level 3 l t) (locked 5 (module_get k0)))) = ?k"
    by (simp add: put_ts_def module_put_def module_get_def locked_def call_rcu_def)
  then have "tag_send (plain_env 1000) 5 3 (Some (''ciao'' @ [NUL])) 5 k0 = Inr (0, ?k)"
    using p(1,5) w(4,9) by (simp add: send_code_def)
  then have "sys_step\<^sup>*\<^sup>* s0 (finish 2 0 [] ?k s0)"
    by (intro send_runs [where e = "plain_env 1000"]) (simp_all add: w(2) PID_MAX_def, simp add: plain_env_def)
  moreover have t: "ts_wf 5 t" "heap k0 0 = Some t" using service_at_SomeE [OF w(3,5)] p(1,2) w(4) by simp_all
  moreover have "level_wf 5 (level t ! nat 3)" using level_wf_at [OF t(1), of 3] by simp
  ultimately show thesis
    using that [of k0 "finish 2 0 [] ?k s0" ?k t l] w p(3,4) by (simp add: level_wf_def)
qed

text \<open>What the callback of that delivery leaves, and that the receiver can still get out of the call.\<close>

definition emptied :: "tag_level \<Rightarrow> tag_level" where
  "emptied l = l\<lparr>message_ready := NOT_READY, message := replicate 4096 NUL\<rparr>"

lemma demo_callback:
  assumes q: "quiet k0" "rcu_queue k0 = []" and t: "heap k0 0 = Some t" "ts_wf 5 t"
    and l: "lev_tag l = 5" "length (message l) = 4096"
  shows "run_callback (FreeAfterSend 0 3)
      ((call_rcu (FreeAfterSend 0 3) (put_ts 0 (put_level 3 l t) (locked 5 k0)))\<lparr>rcu_queue := []\<rparr>)
    = Inr (put_ts 0 (put_level 3 (emptied l) t) k0)"
proof -
  have lev: "0 \<le> (3::int)" "(3::int) < 32" "(5::nat) < 512" by simp_all
  have "(call_rcu c (put_ts 0 u (locked 5 k0)))\<lparr>rcu_queue := []\<rparr> = (put_ts 0 u (locked (int 5) k0))\<lparr>rcu_queue := []\<rparr>" for c u
    by (simp add: call_rcu_def)
  moreover have "(put_ts 0 u k0)\<lparr>rcu_queue := []\<rparr> = put_ts 0 u k0" for u using q(2) by (cases k0) (simp add: put_ts_def)
  moreover note free_after_send_ends [OF q(1) lev(3) t(1) _ lev(1,2), of l "[]"]
  ultimately show ?thesis using t(2) l by (simp add: run_callback_def emptied_def)
qed

lemma demo_leave:
  assumes q: "quiet k0" "entry k0 5 = Some 0" "service_at k0 5 = Some t" "ts_wf 5 t"
    and d: "device_shows k0 5 t" "totals_ok t" "counts t ! 3 = 1"
    and l: "lev_tag l = 5" "thread_waiting l = thread_waiting (level t ! 3)"
  obtains k where "tag_receive_leave (plain_env 1000) 5 3 0 (put_ts 0 (put_level 3 (emptied l) t) k0) = Inr k"
proof -
  let ?t = "put_level 3 (emptied l) t"
  have lev: "0 \<le> (3::int)" "(3::int) < 32" by simp_all
  have len: "length (level t) = 32" using q(4) by (simp add: ts_wf_def)
  have wf: "ts_wf 5 ?t" using ts_wf_level [OF q(4) lev] l(1) by (simp add: level_wf_def emptied_def)
  have cs: "counts ?t = counts t"
    using same_service_level [OF len lev, of "emptied l"] l(2) by (simp add: same_service_def emptied_def)
  have "calm k0" using q(1) by (simp add: quiet_calm)
  then have C: "calm (put_ts 0 ?t k0)" "service_at (put_ts 0 ?t k0) 5 = Some ?t" "entry (put_ts 0 ?t k0) 5 = Some 0"
    using calm_put_ts [OF _ q(3,2), of ?t] wf q(2) by (simp_all add: put_ts_def entry_def)
  have sh: "device_shows (put_ts 0 ?t k0) 5 ?t" "totals_ok ?t" "0 < counts ?t ! nat 3"
    using d unfolding device_shows_def totals_ok_def cs
    by (simp_all add: shows_status_def get_content_def put_ts_def put_level_def)
  obtain k where "tag_receive_leave (plain_env 1000) (int 5) 3 0 (put_ts 0 ?t k0) = Inr k"
    using leave_counts [OF C plain_env_zeroed lev sh] by blast
  then show thesis using that by simp
qed

text \<open>A receiver in its RCU section that gives up.\<close>

lemma missed_run:
  assumes r: "sys_step\<^sup>*\<^sup>* s0 s" "pcs s th = Reading sg i lev p u sz" "th < PID_MAX"
    and k: "ks s = rcu_read_lock th k1" "outside_rcu th k1"
    and t: "get_ts (ks s) p = Inr t" "tag_receive_read sg lev u sz t = Inr (r, bs)"
    and lv: "tag_receive_leave e i lev p k1 = Inr k"
  shows "sys_step\<^sup>*\<^sup>* s0 (finish th r bs k s)"
proof -
  let ?s4 = "goto th (Copied i lev p r bs) (ks s) s"
  let ?s5 = "goto th (Leaving i lev p r bs) k1 s"
  have "thread_step th s ?s4" using thread_step.receive_read [OF r(2) _ t] by simp
  then have r4: "sys_step\<^sup>*\<^sup>* s0 ?s4" by (rule step_run [OF r(1,3)])
  have "thread_step th ?s4 ?s5"
    using thread_step.receive_unlock [of ?s4 th i lev p r bs] rcu_section_id [OF k(2)] k(1) by simp
  then have r5: "sys_step\<^sup>*\<^sup>* s0 ?s5" by (rule step_run [OF r4 r(3)])
  have "sys_step\<^sup>*\<^sup>* ?s5 (finish th r bs k ?s5)" using lv by (intro leave_runs [OF _ r(3), where e = e]) simp_all
  then show ?thesis using r5 by simp
qed

text \<open>
  The receiver wakes up for the message, but the grace period does not wait for it: it is in no RCU
  section yet. The callback withdraws the message, and the receiver gives up without any signal.
\<close>

lemma lost_message_run:
  obtains s1 s2 s3 s4 t t' where "sys_step\<^sup>*\<^sup>* start_sys s1" "pcs s1 1 = Waiting 5 3 0 demo_buf 64"
    "\<And>th. th \<noteq> 1 \<Longrightarrow> pcs s1 th = Idle" "results s1 = [(0, 5, []), (2, 0, [])]"
    "heap (ks s1) 0 = Some t" "message_ready (level t ! 3) = READY" "awake_request t = NO"
    "thread_step 1 s1 s2" "pcs s2 1 = Woken False 5 3 0 demo_buf 64"
    "sys_step\<^sup>*\<^sup>* s2 s3" "results s3 = results s1" "pcs s3 1 = Reading False 5 3 0 demo_buf 64"
    "heap (ks s3) 0 = Some t'" "tag_receive_read False 3 demo_buf 64 t' = Inr (- EINTR, [])"
    "sys_step\<^sup>*\<^sup>* s3 s4" "results s4 = [(0, 5, []), (2, 0, []), (1, - EINTR, [])]"
proof -
  obtain k0 k s t l where d: "sys_step\<^sup>*\<^sup>* start_sys (goto 1 (Waiting 5 3 0 demo_buf 64) k0 (finish 0 5 [] k0 start_sys))"
    "sys_step\<^sup>*\<^sup>* (goto 1 (Waiting 5 3 0 demo_buf 64) k0 (finish 0 5 [] k0 start_sys)) s"
    "s = finish 2 0 [] k (goto 1 (Waiting 5 3 0 demo_buf 64) k0 (finish 0 5 [] k0 start_sys))"
    "quiet k0" "entry k0 5 = Some 0" "service_at k0 5 = Some t" "device_shows k0 5 t" "totals_ok t" "counts t ! 3 = 1"
    "rcu_queue k0 = []" "rcu_readers k0 = {}" "heap k0 0 = Some t" "ts_wf 5 t" "awake_request t = NO"
    "k = call_rcu (FreeAfterSend 0 3) (put_ts 0 (put_level 3 l t) (locked 5 k0))"
    "lev_tag l = 5" "length (message l) = 4096" "message_ready l = READY"
    "thread_waiting l = thread_waiting (level t ! 3)" by (rule demo_delivery) blast
  have th: "1 < PID_MAX" by (simp add: PID_MAX_def)
  have len: "length (level t) = 32" using d(13) by (simp add: ts_wf_def)
  have gl: "get_level (put_level 3 u t) 3 = Inr u" for u using len by (simp add: get_level_def put_level_def in_range_def)
  let ?s2 = "goto 1 (Woken False 5 3 0 demo_buf 64) k s"
  let ?t = "put_level 3 (emptied l) t"
  let ?k = "put_ts 0 ?t k0"
  let ?s3 = "goto 1 (Reading False 5 3 0 demo_buf 64) (rcu_read_lock 1 ?k) ?s2"
  have heap: "heap k 0 = Some (put_level 3 l t)" by (simp add: d(15) call_rcu_def put_ts_def)
  then have "get_ts k 0 = Inr (put_level 3 l t)" by (simp add: get_ts_def)
  moreover have "wait_condition 3 (put_level 3 l t) = Inr True" using d(18) gl by (simp add: wait_condition_def)
  ultimately have w: "thread_step 1 s ?s2"
    using thread_step.receive_wake [of s 1 5 3 0 demo_buf 64 "put_level 3 l t" True False] by (simp add: d(3))
  have q: "rcu_queue (ks ?s2) = [] @ (FreeAfterSend 0 3, {}) # []" using d(10,11) by (simp add: d(15) call_rcu_def put_ts_def)
  have "run_callback (FreeAfterSend 0 3) ((ks ?s2)\<lparr>rcu_queue := [] @ []\<rparr>) = Inr ?k"
    using demo_callback [OF d(4,10,12,13,16,17)] by (simp add: d(15))
  then have c: "sys_step\<^sup>*\<^sup>* ?s2 (?s2\<lparr>ks := ?k\<rparr>)" using sys_step.callback [OF q] by blast
  have "thread_step 1 (?s2\<lparr>ks := ?k\<rparr>) ?s3"
    using thread_step.receive_section [of "?s2\<lparr>ks := ?k\<rparr>" 1 False 5 3 0 demo_buf 64] by (simp add: goto_def)
  then have r3: "sys_step\<^sup>*\<^sup>* ?s2 ?s3" by (rule step_run [OF c th])
  obtain k4 where lv: "tag_receive_leave (plain_env 1000) 5 3 0 ?k = Inr k4"
    by (rule demo_leave [OF d(4-6,13,7-9,16,19)])
  have t: "get_ts (ks ?s3) 0 = Inr ?t" "heap (ks ?s3) 0 = Some ?t" "tag_receive_read False 3 demo_buf 64 ?t = Inr (- EINTR, [])"
    using gl by (simp_all add: put_ts_def get_ts_def rcu_read_lock_def tag_receive_read_def emptied_def)
  have "outside_rcu 1 ?k" using d(10,11) by (simp add: outside_rcu_def put_ts_def)
  then have r4: "sys_step\<^sup>*\<^sup>* ?s3 (finish 1 (- EINTR) [] k4 ?s3)"
    by (intro missed_run [OF rtranclp.rtrancl_refl _ th _ _ t(1,3) lv]) simp_all
  show thesis
  proof (rule that [OF _ _ _ _ _ _ _ w _ r3 _ _ t(2,3) r4])
    show "sys_step\<^sup>*\<^sup>* start_sys s" using d(1,2) by simp
    show "heap (ks s) 0 = Some (put_level 3 l t)" using heap d(3) by simp
    show "message_ready (level (put_level 3 l t) ! 3) = READY" using d(18) len by (simp add: put_level_def)
    show "awake_request (put_level 3 l t) = NO" using d(14) by (simp add: put_level_def)
  qed (simp_all add: d(3))
qed

section \<open>The way into a removal\<close>

lemma removing_steps:
  fixes th s defines "s1 \<equiv> goto th (Controlling REMOVE_TAG 5 0) (module_get (ks s)) s"
    and "s2 \<equiv> goto th (Removing 5 0) (put_ts 0 (first_service\<lparr>lazy_deleted := YES\<rparr>) (module_get (ks s))) s"
  assumes s: "pcs s th = Idle" "thread_euid s th = 1000"
    and k: "quiet (ks s)" "entry (ks s) 5 = Some 0" "service_at (ks s) 5 = Some first_service"
  shows "thread_step th s s1" "thread_step th s1 s2"
proof -
  let ?k = "module_get (ks s)"
  have h: "heap (ks s) 0 = Some first_service" using service_at_SomeE [OF k(1,3)] k(2) by simp
  have "tag_ctl_enter 5 REMOVE_TAG (ks s) = Inr (Inr 0, ?k)" using tag_ctl_enter_ok [OF k(1,3), of REMOVE_TAG] k(2) by auto
  then show "thread_step th s s1" using s(1) unfolding s1_def by (intro thread_step.ctl_call)
  have q: "quiet ?k" "heap ?k 0 = Some first_service" "(5::nat) < 512" "tag first_service = int 5"
    using k(1) h first_service_facts(9) by (simp_all add: ts_wf_def)
  have "tag_ctl_locked (plain_env 1000) REMOVE_TAG 0 ?k = Inr (None, put_ts 0 (first_service\<lparr>lazy_deleted := YES\<rparr>) ?k)"
    using tag_ctl_locked_runs [OF q, of "plain_env 1000" REMOVE_TAG] first_service_facts(1,2,4) q(4)
      quiet_lock(3) [OF q(1,3), of 0 "first_service\<lparr>lazy_deleted := YES\<rparr>"]
    by (simp add: tag_ctl_remove_def)
  then show "thread_step th s1 s2"
    using thread_step.ctl_marked [of s1 th REMOVE_TAG 5 0 "plain_env 1000"] s(2)
    unfolding s1_def s2_def by (simp add: plain_env_def)
qed

end
