(* ===== verification/Conc_Races.thy ===== *)
theory Conc_Races
  imports Conc_Runs
begin

text \<open>
  Runs in which threads come between the two counters of a service, the count that \<open>update_chrdev\<close>
  reads and the text it writes: a device that stays wrong, a device that is read before it is there, and
  a service that is freed between the two decrements of a leaving receiver.
\<close>

section \<open>A receiver up to the device lock\<close>

lemma recounted_at:
  "length (level t) = 32 \<Longrightarrow> 0 \<le> lev \<Longrightarrow> lev < 32 \<Longrightarrow>
   thread_waiting (level (recounted lev f t) ! nat lev) = f (thread_waiting (level t ! nat lev))"
  by (simp add: recounted_def put_level_def nat_less_iff)

lemma recounted_id:
  "key (recounted lev f t) = key t" "owner_euid (recounted lev f t) = owner_euid t"
  "permission (recounted lev f t) = permission t"
  "key (count_total f t) = key t" "owner_euid (count_total f t) = owner_euid t"
  "permission (count_total f t) = permission t"
  by (simp_all add: recounted_def put_level_def count_total_def)

definition entered :: "int \<Rightarrow> tag_service \<Rightarrow> tag_service" where
  "entered lev t = recounted lev atomic_inc (count_total atomic_inc t)"

lemma entered_fields:
  "tag (entered lev t) = tag t" "key (entered lev t) = key t" "owner_euid (entered lev t) = owner_euid t"
  "lazy_deleted (entered lev t) = lazy_deleted t" "length (level (entered lev t)) = length (level t)"
  "may_use e (entered lev t) = may_use e t"
  by (simp_all add: entered_def recounted_id may_use_def)

lemma entered_count:
  "length (level t) = 32 \<Longrightarrow> l < 32 \<Longrightarrow> unat (atomic_inc (thread_waiting (level t ! l))) = counts (entered (int l) t) ! l"
  using recounted_at [of "count_total atomic_inc t" "int l" atomic_inc]
  by (simp add: counts_nth entered_fields) (simp add: entered_def)

lemma rewriting_runs:
  assumes s: "pcs s th = Checked i lev p u sz" "th < PID_MAX"
    and t: "heap (ks s) p = Some t" "slot (ks s) i = Inr (Some p)" "length (level t) = 32"
    and i: "0 \<le> i" "i < 512" "lev = int l" "l < 32"
    and w: "unat (atomic_inc (thread_waiting (level t ! l))) = w" "w < 10 ^ 9"
  shows "sys_step\<^sup>*\<^sup>* s (goto th (Rewriting i lev p (int w) (Entering p u sz)) (put_ts p (entered lev t) (ks s)) s)"
proof -
  let ?k1 = "put_ts p (count_total atomic_inc t) (ks s)" and ?k2 = "put_ts p (entered lev t) (ks s)"
  let ?s1 = "goto th (Counted i lev p u sz) ?k1 s" and ?s2 = "goto th (Updating i lev (Entering p u sz)) ?k2 s"
  have lev: "0 \<le> lev" "lev < 32" "nat lev = l" using i by simp_all
  have "tag_receive_total atomic_inc p (ks s) = Inr ?k1" using t(1) by (simp add: tag_receive_total_def get_ts_def)
  from step_one [OF s(2) thread_step.receive_count [OF s(1) this]] have r1: "sys_step\<^sup>*\<^sup>* s ?s1" .
  have "tag_receive_level atomic_inc lev p ?k1 = Inr ?k2"
    using count_recounted [of "count_total atomic_inc t" lev atomic_inc] t(3) lev
    by (simp add: tag_receive_level_def get_ts_put put_ts_twice entered_def)
  then have "thread_step th ?s1 ?s2" using thread_step.receive_enter [of ?s1 th i lev p u sz ?k2] by simp
  then have r2: "sys_step\<^sup>*\<^sup>* s ?s2" by (rule step_run [OF r1 s(2)])
  have "thread_waiting (level (entered lev t) ! l) = atomic_inc (thread_waiting (level t ! l))"
    using recounted_at [of "count_total atomic_inc t" lev atomic_inc] t(3) lev by (simp add: entered_def)
  then have "update_begin i (int l) ?k2 = Inr (Some (p, int w))"
    using update_begin_reads [OF i(1,2), of ?k2 p "entered lev t" l] t i(4) w
    by (simp add: put_ts_def slot_def entered_fields)
  then have "thread_step th ?s2 (goto th (Rewriting i lev p (int w) (Entering p u sz)) ?k2 ?s2)"
    using thread_step.update_read [of ?s2 th i lev "Entering p u sz" p "int w"] i(3) by simp
  then show ?thesis using step_run [OF r2 s(2)] by simp
qed

text \<open>A receiver of the demo service passes its checks.\<close>

lemma checked_runs:
  assumes s: "pcs s th = Idle" "th < PID_MAX" "thread_euid s th = 1000"
    and k: "slot (ks s) 5 = Inr (Some 0)" "heap (ks s) 0 = Some t" "lazy_deleted t \<noteq> YES" "may_use (plain_env 1000) t"
  shows "sys_step\<^sup>*\<^sup>* s (goto th (Checked 5 3 0 demo_buf 64) (module_get (ks s)) s)"
proof -
  have "slot (module_get (ks s)) 5 = Inr (Some 0)" using k(1) by (simp add: slot_def)
  then have "tag_receive_check (plain_env 1000) 5 3 demo_buf (ks s) = Inr (Inr 0, module_get (ks s))"
    using k by (auto simp: tag_receive_check_def may_use_def Let_def get_ts_def demo_buf_def)
  then show ?thesis
    using s(3) by (intro step_one [OF s(2)] thread_step.receive_call [OF s(1)]) (simp_all add: plain_env_def)
qed

section \<open>A device that stays wrong\<close>

text \<open>A thread in \<open>update_chrdev\<close> writes the count that it read before.\<close>

lemma written_runs:
  assumes s: "pcs s th = Rewriting 5 3 0 (int w) c" "th < PID_MAX"
    and k: "driver_wf (ks s)" "\<not> dev_held (ks s) 5" "heap (ks s) 0 = Some t" "tag t = 5"
    and ws: "shows_status (ks s) 5 5 1000 ws" "length ws = 32" "\<forall>w \<in> set ws. w < 10" "w < 10"
  obtains k' where "sys_step\<^sup>*\<^sup>* s (goto th (resume 5 3 c) k' s)" "core k' = core (ks s)" "driver_wf k'"
    "\<not> dev_held k' 5" "shows_status k' 5 5 1000 (ws[3 := w])"
proof -
  have b: "w < 10 ^ 9" "\<forall>w \<in> set ws. w < 10 ^ 10" "is_int 5" using ws(3,4) by (auto simp: is_int_def)
  have j: "junk (plain_env 1000) m n = NUL" for m n by (simp add: plain_env_def)
  obtain k' where k': "update_finish (plain_env 1000) (int 3) 0 (int w) (ks s) = Inr k'" "driver_wf k'"
    "shows_status k' 5 5 1000 (ws[3 := w])"
    using update_finish_shows [OF k(1) _ _ k(2-4) _ b(1) ws(1,2) b(2,3) j j, of 3] by auto
  have "sys_step\<^sup>*\<^sup>* s (goto th (resume 5 3 c) k' s)" using finish_runs [OF s, of "plain_env 1000" k'] k'(1) by simp
  then show thesis using that update_finish_client [OF k'(1)] k'(2,3) k(2) by metis
qed

lemma first_entered:
  "counts (entered 3 first_service) = (replicate 32 0)[3 := 1]"
  "counts (entered 3 (entered 3 first_service)) = (replicate 32 0)[3 := 2]"
proof -
  have inc: "unat (atomic_inc w) = Suc (unat w)" if "unat w < 9" for w using unat_atomic_inc [of w] that by simp
  have c: "counts (entered 3 t) = (counts t)[3 := Suc (counts t ! 3)]" if "length (level t) = 32" "counts t ! 3 < 9" for t
  proof -
    have "unat (thread_waiting (level t ! 3)) < 9" using that by (simp add: counts_nth)
    then show ?thesis
      using that counts_recounted [of "count_total atomic_inc t" 3 atomic_inc] inc
      by (simp add: entered_def counts_nth)
  qed
  show e: "counts (entered 3 first_service) = (replicate 32 0)[3 := 1]"
    using c [of first_service] first_service_facts(3,8) by simp
  show "counts (entered 3 (entered 3 first_service)) = (replicate 32 0)[3 := 2]"
    using c [of "entered 3 first_service"] first_service_facts(8) by (simp add: e entered_fields numeral_2_eq_2)
qed

lemma put_ts_device [simp]:
  "driver_wf (put_ts p t k) = driver_wf k" "dev_held (put_ts p t k) i = dev_held k i"
  "shows_status (put_ts p t k) i ky ow ws = shows_status k i ky ow ws"
  "shows_status (module_get k) i ky ow ws = shows_status k i ky ow ws"
  "slot (put_ts p t k) i = slot k i" "slot (module_get k) i = slot k i"
  by (simp_all add: put_ts_def driver_wf_def dev_held_def shows_status_def get_content_def slot_def module_get_def)

text \<open>Two receivers of the same level: the first to read the count is the last to write the text.\<close>

lemma stale_run:
  obtains s t where "sys_step\<^sup>*\<^sup>* start_sys s" "pcs s 1 = Waiting 5 3 0 demo_buf 64" "pcs s 2 = Waiting 5 3 0 demo_buf 64"
    "\<And>th. th \<noteq> 1 \<Longrightarrow> th \<noteq> 2 \<Longrightarrow> pcs s th = Idle" "heap (ks s) 0 = Some t" "counts t = (replicate 32 0)[3 := 2]"
    "key t = 5" "owner_euid t = 1000" "shows_status (ks s) 5 5 1000 ((replicate 32 0)[3 := 1])"
proof -
  obtain k s where c: "sys_step\<^sup>*\<^sup>* start_sys s" "s = finish 0 5 [] k start_sys" "quiet k" "entry k 5 = Some 0"
    "service_at k 5 = Some first_service" "device_shows k 5 first_service" "rcu_queue k = []" "rcu_readers k = {}"
    "cdev_added (dm k) ! 5" by (rule demo_created)
  let ?t = first_service and ?t1 = "entered 3 first_service" and ?t2 = "entered 3 (entered 3 first_service)"
  let ?k = "module_get (module_get k)" and ?e = "Entering 0 demo_buf 64"
  let ?s1 = "goto 1 (Checked 5 3 0 demo_buf 64) (module_get k) s"
  let ?s2 = "goto 2 (Checked 5 3 0 demo_buf 64) ?k ?s1"
  let ?s3 = "goto 1 (Rewriting 5 3 0 (int 1) ?e) (put_ts 0 ?t1 ?k) ?s2"
  let ?s4 = "goto 2 (Rewriting 5 3 0 (int 2) ?e) (put_ts 0 ?t2 ?k) ?s3"
  have th: "1 < PID_MAX" "2 < PID_MAX" by (simp_all add: PID_MAX_def)
  have h: "heap k 0 = Some ?t" using service_at_SomeE [OF c(3,5)] c(4) by simp
  have sl: "slot k 5 = Inr (Some 0)" using slot_entry [of k 5] c(3,4) by (simp add: quiet_def module_ok_def)
  have dr: "driver_wf k" "\<not> dev_held k 5" using c(3) by (simp_all add: quiet_def)
  have sh: "shows_status k 5 5 1000 (replicate 32 0)"
    using c(6) first_service_facts(3,6,7) by (simp add: device_shows_def)
  have mu: "may_use (plain_env 1000) ?t" "lazy_deleted ?t \<noteq> YES" using first_service_facts(1,2) by simp_all
  have len: "length (level ?t) = 32" "length (level ?t1) = 32" using first_service_facts(8) by (simp_all add: entered_fields)
  have tg: "tag ?t2 = 5" using first_service_facts(9) by (simp add: entered_fields ts_wf_def)
  have r1: "sys_step\<^sup>*\<^sup>* start_sys ?s1"
    using checked_runs [of s 1, OF _ th(1) _ _ _ mu(2,1)] c(1,2) sl h by simp
  have r2: "sys_step\<^sup>*\<^sup>* ?s1 ?s2" using checked_runs [of ?s1 2, OF _ th(2) _ _ _ mu(2,1)] c(2) sl h by simp
  have w: "unat (atomic_inc (thread_waiting (level ?t ! 3))) = 1" "unat (atomic_inc (thread_waiting (level ?t1 ! 3))) = 2"
    using entered_count [OF len(1), of 3] entered_count [OF len(2), of 3] first_entered by simp_all
  have at2: "pcs ?s2 1 = Checked 5 3 0 demo_buf 64" "heap (ks ?s2) 0 = Some ?t" "slot (ks ?s2) 5 = Inr (Some 0)"
    using h sl by simp_all
  have r3: "sys_step\<^sup>*\<^sup>* ?s2 ?s3"
    using rewriting_runs [OF at2(1) th(1) at2(2,3) len(1) _ _ _ _ w(1)] unfolding goto_simps(1) by simp
  have at3: "pcs ?s3 2 = Checked 5 3 0 demo_buf 64" "heap (ks ?s3) 0 = Some ?t1" "slot (ks ?s3) 5 = Inr (Some 0)"
    using sl by simp_all (simp add: put_ts_def)
  have r4: "sys_step\<^sup>*\<^sup>* ?s3 ?s4"
    using rewriting_runs [OF at3(1) th(2) at3(2,3) len(2) _ _ _ _ w(2)] unfolding goto_simps(1) put_ts_twice by simp
  have at4: "pcs ?s4 2 = Rewriting 5 3 0 (int 2) ?e" "driver_wf (ks ?s4)" "\<not> dev_held (ks ?s4) 5"
    "heap (ks ?s4) 0 = Some ?t2" "shows_status (ks ?s4) 5 5 1000 (replicate 32 0)"
    using dr sh by simp_all (simp add: put_ts_def)
  obtain k5 where k5: "sys_step\<^sup>*\<^sup>* ?s4 (goto 2 (resume 5 3 ?e) k5 ?s4)" "core k5 = core (ks ?s4)" "driver_wf k5"
    "\<not> dev_held k5 5" "shows_status k5 5 5 1000 ((replicate 32 0)[3 := 2])"
    by (rule written_runs [OF at4(1) th(2) at4(2-4) tg at4(5)]) simp_all
  let ?s5 = "goto 2 (resume 5 3 ?e) k5 ?s4"
  have at5: "pcs ?s5 1 = Rewriting 5 3 0 (int 1) ?e" "driver_wf (ks ?s5)" "\<not> dev_held (ks ?s5) 5"
    "heap (ks ?s5) 0 = Some ?t2" "shows_status (ks ?s5) 5 5 1000 ((replicate 32 0)[3 := 2])"
    using k5(3-5) core_eqD(2) [OF k5(2)] at4(4) by simp_all
  have ws: "\<forall>w \<in> set ((replicate 32 0)[3 := 2]). w < (10 :: nat)" by (auto dest!: set_update_subset_insert [THEN subsetD])
  obtain k6 where k6: "sys_step\<^sup>*\<^sup>* ?s5 (goto 1 (resume 5 3 ?e) k6 ?s5)" "core k6 = core (ks ?s5)"
    "shows_status k6 5 5 1000 ((replicate 32 0)[3 := 2, 3 := 1])"
    by (rule written_runs [OF at5(1) th(1) at5(2-4) tg at5(5) _ ws]) simp_all
  let ?s6 = "goto 1 (resume 5 3 ?e) k6 ?s5"
  have "sys_step\<^sup>*\<^sup>* start_sys ?s6" using r1 r2 r3 r4 k5(1) k6(1) by (meson rtranclp_trans)
  moreover have "heap k6 0 = Some ?t2" using core_eqD(2) [OF k6(2)] at5(4) by simp
  ultimately show thesis
    using that [of ?s6 ?t2] c(2) k6(3) first_entered(2) first_service_facts(6,7) by (simp add: entered_fields)
qed

section \<open>A device that is read before it is there\<close>

text \<open>Thread 0 has put its service into the table and not yet created the device.\<close>

lemma demo_unpublished:
  obtains k where "sys_step\<^sup>*\<^sup>* start_sys (goto 0 (Publishing 5) k start_sys)" "heap k 0 = Some first_service"
    "slot k 5 = Inr (Some 0)" "dm k = dm (booted 240)" "quiet (dec_remaining k)" "entry (dec_remaining k) 5 = Some 0"
    "service_at (dec_remaining k) 5 = Some first_service"
proof -
  let ?e = "plain_env 1000" and ?k0 = "module_get (booted 240)"
  let ?s1 = "goto 0 (Getting 5 CREATE_TAG EVERYONE 5) ?k0 start_sys"
  have th: "0 < PID_MAX" by (simp add: PID_MAX_def)
  have sel: "tag_get_select 5 CREATE_TAG EVERYONE (booted 240) = Inr (Inr 5, ?k0)"
    by (simp add: tag_get_select_def Let_def hash_function_nonneg)
  then have r1: "sys_step\<^sup>*\<^sup>* start_sys ?s1" by (intro step_one [OF th] thread_step.get_call) simp_all
  have "(5::int) mod MAX_TAG_SERVICES = 5" by simp
  then obtain k' where "tag_get ?e 5 CREATE_TAG EVERYONE (booted 240) = Inr (5, k')"
    using tag_get_create_key [OF booted_quiet plain_env_usable plain_env_gap(2), of EVERYONE 5 240 1000] booted_service by auto
  then obtain y k where l: "tag_get_locked ?e 5 CREATE_TAG EVERYONE 5 ?k0 = Inr (y, k)" and y: "y = None \<or> y = Some 5"
    using sel by (auto simp: tag_get_def elim!: and_then_InrE split: option.splits)
  obtain k1 where k1: "mutex_lock 5 ?k0 = Inr k1" "tag_get_create ?e 5 EVERYONE 5 k1 = Inr (y, k)"
    using l by (auto simp: tag_get_locked_def elim!: and_then_InrE)
  have L: "k1 = locked 5 ?k0" using mutex_lock_state [OF k1(1)] by simp
  have "ledger_ok k1" using booted_ledger [of 240] by (simp add: L ledger_ok_def)
  then have "y = None" using y k1(2) tag_get_create_fails [of ?e 5 EVERYONE 5 k1 5 k] by auto
  note C = tag_get_create_succeeds [OF k1(2) [unfolded this]]
  have na: "next_addr k1 = 0" "length (all_tag_services (tsm k1)) = 4096" by (simp_all add: L) (simp_all add: booted_def)
  have "thread_step 0 ?s1 (goto 0 (Publishing 5) k ?s1)"
    using l \<open>y = None\<close> by (intro thread_step.get_created [where e = ?e]) (simp_all, simp add: plain_env_def)
  then have "sys_step\<^sup>*\<^sup>* start_sys (goto 0 (Publishing 5) k start_sys)" using step_run [OF r1 th] by simp
  moreover have "heap k 0 = Some first_service" "slot k 5 = Inr (Some 0)" "dm k = dm (booted 240)"
    using C na by (simp_all add: L unlocked_def first_service_def slot_def in_range_def)
  moreover have "tag_get_locked ?e 5 CREATE_TAG EVERYONE (int 5) ?k0 = Inr (None, k)" using l \<open>y = None\<close> by simp
  note D = create_locked [OF _ _ this]
  have "quiet (dec_remaining k)" "entry (dec_remaining k) 5 = Some 0" "service_at (dec_remaining k) 5 = Some first_service"
    using D(1,4,9) booted_quiet [of 240] na(1) by (simp_all add: L first_service_def)
  ultimately show thesis by (rule that)
qed

lemma unpublished_run:
  obtains s where "sys_step\<^sup>*\<^sup>* start_sys s" "pcs s 0 = Publishing 5" "results s = []"
    "pcs s 1 = Rewriting 5 3 0 1 (Entering 0 demo_buf 64)" "\<And>e. update_free e 3 0 1 (ks s) = Inl UseAfterFree"
proof -
  obtain k where k: "sys_step\<^sup>*\<^sup>* start_sys (goto 0 (Publishing 5) k start_sys)" "heap k 0 = Some first_service"
    "slot k 5 = Inr (Some 0)" "dm k = dm (booted 240)" by (rule demo_unpublished) blast
  let ?s0 = "goto 0 (Publishing 5) k start_sys" and ?t = first_service
  let ?s1 = "goto 1 (Checked 5 3 0 demo_buf 64) (module_get k) ?s0"
  let ?s2 = "goto 1 (Rewriting 5 3 0 (int 1) (Entering 0 demo_buf 64)) (put_ts 0 (entered 3 ?t) (module_get k)) ?s1"
  have th: "1 < PID_MAX" by (simp add: PID_MAX_def)
  have mu: "may_use (plain_env 1000) ?t" "lazy_deleted ?t \<noteq> YES" using first_service_facts(1,2) by simp_all
  have at0: "pcs ?s0 1 = Idle" "thread_euid ?s0 1 = 1000" "slot (ks ?s0) 5 = Inr (Some 0)" "heap (ks ?s0) 0 = Some ?t"
    using k(2,3) by simp_all
  have r1: "sys_step\<^sup>*\<^sup>* ?s0 ?s1" using checked_runs [OF at0(1) th at0(2-4) mu(2,1)] by simp
  have at1: "pcs ?s1 1 = Checked 5 3 0 demo_buf 64" "heap (ks ?s1) 0 = Some ?t" "slot (ks ?s1) 5 = Inr (Some 0)"
    using k(2,3) by simp_all
  have w: "unat (atomic_inc (thread_waiting (level ?t ! 3))) = 1"
    using entered_count [OF first_service_facts(8), of 3] first_entered(1) by simp
  have r2: "sys_step\<^sup>*\<^sup>* ?s1 ?s2"
    using rewriting_runs [OF at1(1) th at1(2,3) first_service_facts(8) _ _ _ _ w] unfolding goto_simps(1) by simp
  have "sys_step\<^sup>*\<^sup>* start_sys ?s2" using k(1) r1 r2 by (meson rtranclp_trans)
  moreover have "update_free e 3 0 1 (ks ?s2) = Inl UseAfterFree" for e
  proof -
    have t: "get_ts (ks ?s2) 0 = Inr (entered 3 ?t)" "tag (entered 3 ?t) = 5"
      using first_service_facts(9) by (simp_all add: get_ts_put entered_fields ts_wf_def)
    have d: "dm (ks ?s2) = dm (booted 240)" using k(4) by (simp add: put_ts_def)
    have "driver_wf (ks ?s2)" "\<not> dev_held (ks ?s2) 5"
      using booted_driver(1,2) [of 240] d by (simp_all add: driver_wf_def dev_held_def)
    from dev_lock_ok [OF this(1) _ _ this(2)] show ?thesis
      using t d by (simp add: update_free_def get_content_def) (simp add: booted_def in_range_def)
  qed
  ultimately show thesis using that [of ?s2] by simp
qed

text \<open>A removal before the device is there.\<close>

lemma unbuilt_removal_run:
  obtains s where "sys_step\<^sup>*\<^sup>* start_sys s" "pcs s 0 = Creating 5" "pcs s 1 = Removing 5 0"
    "tag_ctl_destroy 0 (ks s) = Inl UseAfterFree"
proof -
  obtain k where k: "sys_step\<^sup>*\<^sup>* start_sys (goto 0 (Publishing 5) k start_sys)" "dm k = dm (booted 240)"
    "quiet (dec_remaining k)" "entry (dec_remaining k) 5 = Some 0" "service_at (dec_remaining k) 5 = Some first_service"
    by (rule demo_unpublished) blast
  let ?s0 = "goto 0 (Publishing 5) k start_sys" and ?t = "first_service\<lparr>lazy_deleted := YES\<rparr>"
  let ?s1 = "goto 0 (Creating 5) (dec_remaining k) ?s0"
  let ?s2 = "goto 1 (Removing 5 0) (put_ts 0 ?t (module_get (dec_remaining k))) ?s1"
  have th: "0 < PID_MAX" "1 < PID_MAX" by (simp_all add: PID_MAX_def)
  have "thread_step 0 ?s0 ?s1" using thread_step.get_counted [of ?s0 0 5] by simp
  then have r1: "sys_step\<^sup>*\<^sup>* start_sys ?s1" by (rule step_run [OF k(1) th(1)])
  have at: "pcs ?s1 1 = Idle" "thread_euid ?s1 1 = 1000" "ks ?s1 = dec_remaining k" by simp_all
  note st = removing_steps [OF at(1,2), unfolded at(3), OF k(3-5)]
  have "sys_step\<^sup>*\<^sup>* start_sys ?s2" using step_run [OF step_run [OF r1 th(2) st(1)] th(2) st(2)] .
  moreover have "tag_ctl_destroy 0 (ks ?s2) = Inl UseAfterFree"
  proof -
    have d: "dm (ks ?s2) = dm (booted 240)" using k(2) by (simp add: put_ts_def dec_remaining_def)
    have "driver_wf (ks ?s2)" "\<not> dev_held (ks ?s2) 5"
      using booted_driver(1,2) [of 240] d by (simp_all add: driver_wf_def dev_held_def)
    note l = dev_lock_ok [OF this(1) _ _ this(2)]
    have "get_ts (ks ?s2) 0 = Inr ?t" "tag ?t = 5" using first_service_facts(9) by (simp_all add: get_ts_put ts_wf_def)
    then show ?thesis
      using l d by (simp add: tag_ctl_destroy_def ts_destroy_char_device_file_def get_content_def Let_def set_cdev_def)
        (simp add: booted_def in_range_def)
  qed
  ultimately show thesis using that [of ?s2] by simp
qed

section \<open>A service freed under a receiver that leaves\<close>

lemma leaving_run:
  assumes r: "sys_step\<^sup>*\<^sup>* s0 s" "pcs s th = Waiting i lev p u sz" "th < PID_MAX" "outside_rcu th (ks s)"
    and t: "get_ts (ks s) p = Inr t" "get_level t lev = Inr l"
  shows "sys_step\<^sup>*\<^sup>* s0 (goto th (Uncounted i lev p (- EINTR) []) (put_ts p (count_total atomic_dec t) (ks s)) s)"
proof -
  let ?k = "ks s" and ?k1 = "rcu_read_lock th (ks s)"
  let ?s1 = "goto th (Woken True i lev p u sz) ?k s" and ?s2 = "goto th (Reading True i lev p u sz) ?k1 s"
  let ?s3 = "goto th (Copied i lev p (- EINTR) []) ?k1 s" and ?s4 = "goto th (Leaving i lev p (- EINTR) []) ?k s"
  obtain c where "wait_condition lev t = Inr c" using t(2) by (simp add: wait_condition_def)
  from thread_step.receive_wake [OF r(2) t(1) this, of True] have "thread_step th s ?s1" by simp
  then have r1: "sys_step\<^sup>*\<^sup>* s0 ?s1" by (rule step_run [OF r(1,3)])
  have "thread_step th ?s1 ?s2" using thread_step.receive_section [of ?s1 th True i lev p u sz] by simp
  then have r2: "sys_step\<^sup>*\<^sup>* s0 ?s2" by (rule step_run [OF r1 r(3)])
  have "get_ts ?k1 p = Inr t" using t(1) by (simp add: get_ts_def rcu_read_lock_def)
  then have "thread_step th ?s2 ?s3"
    using thread_step.receive_read [of ?s2 th True i lev p u sz True t "- EINTR" "[]"] by (simp add: tag_receive_read_def)
  then have r3: "sys_step\<^sup>*\<^sup>* s0 ?s3" by (rule step_run [OF r2 r(3)])
  have "thread_step th ?s3 ?s4"
    using thread_step.receive_unlock [of ?s3 th i lev p "- EINTR" "[]"] rcu_section_id [OF r(4)] by simp
  then have r4: "sys_step\<^sup>*\<^sup>* s0 ?s4" by (rule step_run [OF r3 r(3)])
  have "tag_receive_total atomic_dec p ?k = Inr (put_ts p (count_total atomic_dec t) ?k)"
    using t(1) by (simp add: tag_receive_total_def)
  then have "thread_step th ?s4 (goto th (Uncounted i lev p (- EINTR) []) (put_ts p (count_total atomic_dec t) ?k) ?s4)"
    by (intro thread_step.receive_uncount) simp_all
  then show ?thesis using step_run [OF r4 r(3)] by simp
qed

lemma freed_on_exit_run:
  obtains s where "sys_step\<^sup>*\<^sup>* start_sys s" "results s = [(0, 5, []), (0, SUCCESS, [])]"
    "pcs s 1 = Uncounted 5 3 0 (- EINTR) []" "heap (ks s) 0 = None"
proof -
  obtain k s t where w: "sys_step\<^sup>*\<^sup>* start_sys s" "s = goto 1 (Waiting 5 3 0 demo_buf 64) k (finish 0 5 [] k start_sys)"
    "quiet k" "entry k 5 = Some 0" "service_at k 5 = Some t" "device_shows k 5 t" "totals_ok t" "counts t ! 3 = 1"
    "0 < thread_waiting_message_count t" "lazy_deleted t = NO" "\<forall>e. may_use e t" "rcu_queue k = []" "rcu_readers k = {}"
    by (rule demo_waiting)
  have t: "heap k 0 = Some t" "ts_wf 5 t" using service_at_SomeE [OF w(3,5)] w(4) by simp_all
  have th: "1 < PID_MAX" "0 < PID_MAX" by (simp_all add: PID_MAX_def)
  have pc: "pcs s 1 = Waiting 5 3 0 demo_buf 64" "ks s = k" "outside_rcu 1 (ks s)" using w(2,12,13) by (simp_all add: outside_rcu_def)
  have g: "get_ts (ks s) 0 = Inr t" "get_level t 3 = Inr (level t ! 3)"
    using t pc(2) by (simp_all add: get_ts_def get_level_def in_range_def ts_wf_def)
  let ?t = "count_total atomic_dec t"
  let ?k = "put_ts 0 ?t k" and ?s = "goto 1 (Uncounted 5 3 0 (- EINTR) []) (put_ts 0 (count_total atomic_dec t) k) s"
  have r1: "sys_step\<^sup>*\<^sup>* start_sys ?s" using leaving_run [OF w(1) pc(1) th(1) pc(3) g] unfolding pc(2) .
  have R: "receivers s 0 = {1}" unfolding receivers_def w(2) by (auto split: if_splits)
  have "sys_inv s" using module.reachable_inv [OF start_sys_init w(1)] .
  then have "counters_exact s 0 t" using t(1) pc(2) by (simp add: sys_inv_def)
  then have "unat (thread_waiting_message_count t) = 1" using R by (simp add: counters_exact_def)
  then have z: "thread_waiting_message_count ?t = 0"
    using unat_atomic_dec [of "thread_waiting_message_count t"] by (simp add: unat_eq_zero)
  have "calm k" using w(3) by (simp add: quiet_calm)
  note P = calm_put_ts [OF this w(5,4), of ?t]
  have q: "quiet ?k" "service_at ?k 5 = Some ?t" "entry ?k 5 = Some 0"
    using P t(2) w(3,4) by (simp_all add: quiet_calm put_ts_def held_def entry_def)
  have mu: "may_use (plain_env 1000) ?t" "lazy_deleted ?t = NO" using w(10,11) by (simp_all add: may_use_def recounted_id)
  obtain b where "get_content ?k (int 5) = Inr b" using w(6)
    by (auto simp: device_shows_def shows_status_def get_content_def put_ts_def)
  from tag_ctl_removes [OF q(1,2) mu z this] obtain p k' where k': "entry ?k 5 = Some p"
    "tag_ctl (plain_env 1000) (int 5) REMOVE_TAG ?k = Inr (SUCCESS, k')" "heap k' p = None" by metis
  have "sys_step\<^sup>*\<^sup>* ?s (finish 0 SUCCESS [] k' ?s)"
    by (rule ctl_runs [where e = "plain_env 1000" and i = 5 and cmd = REMOVE_TAG])
      (use k'(2) w(2) in \<open>simp_all add: PID_MAX_def plain_env_def\<close>)
  then have "sys_step\<^sup>*\<^sup>* start_sys (finish 0 SUCCESS [] k' ?s)" using r1 by simp
  then show thesis using that [of "finish 0 SUCCESS [] k' ?s"] w(2) k'(1,3) q(3) by simp
qed

section \<open>A device text that is freed under its reader\<close>

text \<open>Thread 3 has opened the device of the demo service.\<close>

lemma opened_runs:
  assumes "pcs s th = Idle" "th < PID_MAX" "slot (ks s) 5 = Inr (Some 0)"
  shows "sys_step\<^sup>*\<^sup>* s (goto th (Opened (Some 0) 0) (ks s) s)"
proof -
  have "unat (5 :: 32 word) = 5" by simp
  then have "ts_open (ts_major (dm (ks s))) 5 (Some 5) (ks s) = Inr (0, Some 0)" using assms(3) by (simp add: ts_open_def)
  from step_one [OF assms(2) thread_step.open_call [OF assms(1) this]] show ?thesis .
qed

lemma freed_text_run:
  obtains s new where "sys_step\<^sup>*\<^sup>* start_sys s" "pcs s 3 = Opened (Some 0) 0"
    "pcs s 1 = Assigning 5 3 5 new (Entering 0 demo_buf 64)" "results s = [(0, 5, [])]"
    "ts_read_copy (plain_env 1000) (Some 0) (ks s) = Inl UseAfterFree"
proof -
  obtain k s where c: "sys_step\<^sup>*\<^sup>* start_sys s" "s = finish 0 5 [] k start_sys" "quiet k" "entry k 5 = Some 0"
    "service_at k 5 = Some first_service" "device_shows k 5 first_service" "rcu_queue k = []" "rcu_readers k = {}"
    "cdev_added (dm k) ! 5" by (rule demo_created)
  let ?t = first_service and ?e = "Entering 0 demo_buf 64"
  let ?s0 = "goto 3 (Opened (Some 0) 0) k s"
  let ?s1 = "goto 1 (Checked 5 3 0 demo_buf 64) (module_get k) ?s0"
  let ?s2 = "goto 1 (Rewriting 5 3 0 (int 1) ?e) (put_ts 0 (entered 3 ?t) (module_get k)) ?s1"
  have th: "1 < PID_MAX" "3 < PID_MAX" by (simp_all add: PID_MAX_def)
  have h: "heap k 0 = Some ?t" using service_at_SomeE [OF c(3,5)] c(4) by simp
  have sl: "slot k 5 = Inr (Some 0)" using slot_entry [of k 5] c(3,4) by (simp add: quiet_def module_ok_def)
  have dr: "driver_wf k" "\<not> dev_held k 5" using c(3) by (simp_all add: quiet_def)
  have sh: "shows_status k 5 5 1000 (replicate 32 0)"
    using c(6) first_service_facts(3,6,7) by (simp add: device_shows_def)
  have mu: "may_use (plain_env 1000) ?t" "lazy_deleted ?t \<noteq> YES" using first_service_facts(1,2) by simp_all
  have tg: "tag (entered 3 ?t) = 5" using first_service_facts(9) by (simp add: entered_fields ts_wf_def)
  have r0: "sys_step\<^sup>*\<^sup>* s ?s0" using opened_runs [of s 3] th(2) sl c(2) by simp
  have at0: "pcs ?s0 1 = Idle" "thread_euid ?s0 1 = 1000" "slot (ks ?s0) 5 = Inr (Some 0)" "heap (ks ?s0) 0 = Some ?t"
    using c(2) sl h by simp_all
  have r1: "sys_step\<^sup>*\<^sup>* ?s0 ?s1" using checked_runs [OF at0(1) th(1) at0(2-4) mu(2,1)] by simp
  have at1: "pcs ?s1 1 = Checked 5 3 0 demo_buf 64" "heap (ks ?s1) 0 = Some ?t" "slot (ks ?s1) 5 = Inr (Some 0)"
    using h sl by simp_all
  have w: "unat (atomic_inc (thread_waiting (level ?t ! 3))) = 1"
    using entered_count [OF first_service_facts(8), of 3] first_entered(1) by simp
  have r2: "sys_step\<^sup>*\<^sup>* ?s1 ?s2"
    using rewriting_runs [OF at1(1) th(1) at1(2,3) first_service_facts(8) _ _ _ _ w] unfolding goto_simps(1) by simp
  have at2: "driver_wf (ks ?s2)" "\<not> dev_held (ks ?s2) 5" "heap (ks ?s2) 0 = Some (entered 3 ?t)"
    "shows_status (ks ?s2) 5 5 1000 (replicate 32 0)"
    using dr sh by simp_all (simp add: put_ts_def)
  have j: "junk (plain_env 1000) m n = NUL" for m n by (simp add: plain_env_def)
  have b: "is_int 5" "\<forall>w \<in> set (replicate 32 0). w < (10 :: nat) ^ 10" by (simp_all add: is_int_def)
  obtain k' where "update_finish (plain_env 1000) (int 3) 0 (int 1) (ks ?s2) = Inr k'"
    using update_finish_shows [OF at2(1) _ _ at2(2,3) tg _ _ at2(4) _ b(2,1) j j, of 3 1] by auto
  then obtain i new k3 where f: "update_free (plain_env 1000) 3 0 (int 1) (ks ?s2) = Inr ((i, new), k3)"
    by (auto simp: update_finish_def elim!: and_then_InrE)
  then obtain k2 where l: "i = 5" "dev_lock 5 (ks ?s2) = Inr k2" "k3 = set_content 5 Dangling k2"
    using at2(3) tg by (auto simp: update_free_def get_ts_def elim!: and_then_InrE)
  let ?s3 = "goto 1 (Assigning 5 3 5 new ?e) k3 ?s2"
  have "thread_step 1 ?s2 ?s3" using thread_step.update_freed [of ?s2 1 5 3 0 "int 1" ?e "plain_env 1000" 5 new k3] f l(1) by simp
  then have "sys_step\<^sup>*\<^sup>* ?s2 ?s3" by (rule step_one [OF th(1)])
  then have "sys_step\<^sup>*\<^sup>* start_sys ?s3" using c(1) r0 r1 r2 by (meson rtranclp_trans)
  moreover have "ts_read_copy (plain_env 1000) (Some 0) k3 = Inl UseAfterFree"
  proof -
    have wf: "driver_wf k2" using driver_wf_dev_lock [OF l(2)] at2(1) by simp
    have "heap k3 0 = Some (entered 3 ?t)" using core_eqD(2) [OF core_dev_lock [OF l(2)]] at2(3) by (simp add: l(3) set_content_def)
    then have "deref k3 (Some 0) = Inr (entered 3 ?t)" by (simp add: deref_def get_ts_def)
    moreover have "get_content k3 5 = Inl UseAfterFree"
      using wf by (simp add: l(3) get_content_def set_content_def driver_wf_def in_range_def)
    ultimately show ?thesis using tg by (simp add: ts_read_copy_def get_tag_status_def plain_env_def)
  qed
  ultimately show thesis using that [of ?s3 new] c(2) by simp
qed

end
