(* ===== verification/Conc_Properties.thy ===== *)
theory Conc_Properties
  imports Conc_Quiescent Conc_Registry Conc_Races
begin

text \<open>
  What holds in every reachable state of the concurrent module, for any number of threads and any
  interleaving, and the two races that it leaves open.
\<close>

section \<open>The contract\<close>

text \<open>
  C1 Whatever the interleaving of any number of threads and callbacks, the module refines the registry:
  from boot, its table goes through a sequence of abstract steps, each the creation of a service in a
  free entry (with the creating thread's user as owner and a key that hashes to the tag, or the private
  mark) or the removal of one by a user whom its permission allows; every other step of the code leaves
  the registry as it is.
\<close>

theorem module_refines_registry:
  assumes "sys_init s0" "sys_step\<^sup>*\<^sup>* s0 s"
  shows "some_user_step\<^sup>*\<^sup>* (thread_euid s0, Map.empty) (thread_euid s, registry_of (ks s))
    \<and> (\<forall>s'. sys_step s s' \<longrightarrow> registry_of (ks s') = registry_of (ks s)
         \<or> (\<exists>th < PID_MAX. registry_step (thread_euid s th) (registry_of (ks s)) (registry_of (ks s'))))"
proof -
  have "some_user_step\<^sup>*\<^sup>* (thread_euid s0, Map.empty) (thread_euid s, registry_of (ks s))"
    using registry.reachable_simulates [OF assms] registry_booted [OF assms(1)] by simp
  moreover have "sys_inv s" using module.reachable_inv [OF assms] .
  ultimately show ?thesis using sys_step_registry by (auto simp: registry_moves_def)
qed

text \<open>
  A call that no other thread comes between is a run of the concurrent system: whatever the functions
  of the four system calls return, a thread of the system can return, with the same state after it.
\<close>

theorem calls_are_runs:
  assumes "pcs s th = Idle" "th < PID_MAX" "euid e = thread_euid s th"
  shows "(\<forall>ky c perm r k'. tag_get e ky c perm (ks s) = Inr (r, k') \<longrightarrow> sys_step\<^sup>*\<^sup>* s (finish th r [] k' s))
    \<and> (\<forall>i lev u sz r k'. tag_send e i lev u sz (ks s) = Inr (r, k') \<longrightarrow> sys_step\<^sup>*\<^sup>* s (finish th r [] k' s))
    \<and> (\<forall>sg i lev u sz r bs k'. tag_receive e th sg i lev u sz (ks s) = Inr ((r, bs), k') \<longrightarrow>
         sys_step\<^sup>*\<^sup>* s (finish th r bs k' s))
    \<and> (\<forall>i c r k'. tag_ctl e i c (ks s) = Inr (r, k') \<longrightarrow> sys_step\<^sup>*\<^sup>* s (finish th r [] k' s))"
  using get_runs [OF assms] send_runs [OF assms] receive_runs [OF assms] ctl_runs [OF assms] by blast

section \<open>Invariants\<close>


text \<open>
  C4 In every reachable state the counters of every live service are exact: the total is the number of
  threads that are between the increment and the decrement of the total in their \<open>tag_receive\<close> on it, and
  the count of a level the number of those between the two instructions on that level; with at most
  \<open>PID_MAX\<close> threads they never wrap.
\<close>

theorem counters_count_receivers:
  assumes "sys_init s0" "sys_step\<^sup>*\<^sup>* s0 s" "heap (ks s) p = Some t"
  shows "unat (thread_waiting_message_count t) = card {th. counted_total (pcs s th) = Some p}
    \<and> (\<forall>n<32. unat (thread_waiting (level t ! n)) = card {th. counted_at (pcs s th) = Some (p, int n)})"
proof -
  have i: "sys_inv s" using module.reachable_inv [OF assms(1,2)] .
  then have "length (level t) = 32" using kinv_service(6) [OF _ assms(3)] by (simp add: sys_inv_def)
  moreover have "counters_exact s p t" using i assms(3) by (simp add: sys_inv_def)
  ultimately show ?thesis
    by (simp add: counters_exact_def receivers_def receivers_at_def counts_nth)
qed




section \<open>Progress\<close>


section \<open>The races\<close>

text \<open>
  C11 The module can lose a message. From boot there is a run to a state where thread 1 sleeps on a level,
  thread 2 has sent to this level and got 0 (so \<open>tag_send\<close> has found a receiver), the message is there, no
  AWAKE_ALL has been asked for and no other thread is in a call. Thread 1 is woken by the message and not
  by a signal; then the callback runs, and when thread 1 is in its RCU section it finds no message, so
  that \<open>tag_receive\<close> returns -EINTR to it without any signal: the grace period of \<open>free_after_send\<close> only
  waits for threads that are already in \<open>rcu_read_lock\<close>.
\<close>

theorem race_lost_message:
  "\<exists>s0 s1 s2 s3 s4 t t'. sys_init s0 \<and> sys_step\<^sup>*\<^sup>* s0 s1
    \<and> {th. pcs s1 th \<noteq> Idle} = {1} \<and> pcs s1 1 = Waiting 5 3 0 demo_buf 64
    \<and> results s1 = [(0, 5, []), (2, 0, [])]
    \<and> heap (ks s1) 0 = Some t \<and> message_ready (level t ! 3) = READY \<and> awake_request t = NO
    \<and> thread_step 1 s1 s2 \<and> pcs s2 1 = Woken False 5 3 0 demo_buf 64
    \<and> sys_step\<^sup>*\<^sup>* s2 s3 \<and> results s3 = results s1 \<and> pcs s3 1 = Reading False 5 3 0 demo_buf 64
    \<and> heap (ks s3) 0 = Some t' \<and> tag_receive_read False 3 demo_buf 64 t' = Inr (- EINTR, [])
    \<and> sys_step\<^sup>*\<^sup>* s3 s4 \<and> results s4 = [(0, 5, []), (2, 0, []), (1, - EINTR, [])]"
proof -
  obtain s1 s2 s3 s4 t t' where r: "sys_step\<^sup>*\<^sup>* start_sys s1" "pcs s1 1 = Waiting 5 3 0 demo_buf 64"
    "\<And>th. th \<noteq> 1 \<Longrightarrow> pcs s1 th = Idle" "results s1 = [(0, 5, []), (2, 0, [])]"
    "heap (ks s1) 0 = Some t" "message_ready (level t ! 3) = READY" "awake_request t = NO"
    "thread_step 1 s1 s2" "pcs s2 1 = Woken False 5 3 0 demo_buf 64"
    "sys_step\<^sup>*\<^sup>* s2 s3" "results s3 = results s1" "pcs s3 1 = Reading False 5 3 0 demo_buf 64"
    "heap (ks s3) 0 = Some t'" "tag_receive_read False 3 demo_buf 64 t' = Inr (- EINTR, [])"
    "sys_step\<^sup>*\<^sup>* s3 s4" "results s4 = [(0, 5, []), (2, 0, []), (1, - EINTR, [])]"
    by (rule lost_message_run) blast
  have "pcs s1 th \<noteq> Idle \<longleftrightarrow> th = 1" for th using r(2) r(3) [of th] by (cases "th = 1") auto
  then have "{th. pcs s1 th \<noteq> Idle} = {1}" by auto
  then show ?thesis using r start_sys_init by blast
qed

text \<open>
  C12 A service can be freed under a receiver, on its way in and on its way out: from boot there is a run
  in which thread 1 has passed the checks of \<open>tag_receive\<close> but is not yet counted, and one in which it
  has left the total and not yet its level; in both thread 0 removes the service and gets SUCCESS, and
  the next instruction of thread 1 is on freed memory.
\<close>

theorem race_use_after_free:
  "\<exists>s0 s s'. sys_init s0 \<and> sys_step\<^sup>*\<^sup>* s0 s \<and> results s = [(0, 5, []), (0, SUCCESS, [])]
    \<and> pcs s 1 = Checked 5 3 0 demo_buf 64 \<and> tag_receive_total atomic_inc 0 (ks s) = Inl UseAfterFree
    \<and> sys_step\<^sup>*\<^sup>* s0 s' \<and> results s' = [(0, 5, []), (0, SUCCESS, [])]
    \<and> pcs s' 1 = Uncounted 5 3 0 (- EINTR) [] \<and> tag_receive_level atomic_dec 3 0 (ks s') = Inl UseAfterFree"
proof -
  obtain s where s: "sys_step\<^sup>*\<^sup>* start_sys s" "results s = [(0, 5, []), (0, SUCCESS, [])]"
    "pcs s 1 = Checked 5 3 0 demo_buf 64" "heap (ks s) 0 = None" using use_after_free_run by blast
  obtain s' where s': "sys_step\<^sup>*\<^sup>* start_sys s'" "results s' = [(0, 5, []), (0, SUCCESS, [])]"
    "pcs s' 1 = Uncounted 5 3 0 (- EINTR) []" "heap (ks s') 0 = None" by (rule freed_on_exit_run)
  have "tag_receive_total atomic_inc 0 (ks s) = Inl UseAfterFree" "tag_receive_level atomic_dec 3 0 (ks s') = Inl UseAfterFree"
    using s(4) s'(4) by (simp_all add: tag_receive_total_def tag_receive_level_def get_ts_def)
  then show ?thesis using s s' start_sys_init by blast
qed

text \<open>
  C13 A device can show a wrong count for as long as its service lives: \<open>update_chrdev\<close> reads the count
  before it takes the device lock, so of two receivers that enter a level the one that read 1 can be the
  last to write. In the state that this run reaches both wait, the level counts 2 and the device shows 1.
\<close>

theorem race_stale_device:
  "\<exists>s0 s t. sys_init s0 \<and> sys_step\<^sup>*\<^sup>* s0 s
    \<and> pcs s 1 = Waiting 5 3 0 demo_buf 64 \<and> pcs s 2 = Waiting 5 3 0 demo_buf 64
    \<and> {th. pcs s th \<noteq> Idle} = {1, 2}
    \<and> heap (ks s) 0 = Some t \<and> unat (thread_waiting (level t ! 3)) = 2
    \<and> shows_status (ks s) 5 (key t) (owner_euid t) ((replicate 32 0)[3 := 1])"
proof -
  obtain s t where r: "sys_step\<^sup>*\<^sup>* start_sys s" "pcs s 1 = Waiting 5 3 0 demo_buf 64" "pcs s 2 = Waiting 5 3 0 demo_buf 64"
    "\<And>th. th \<noteq> 1 \<Longrightarrow> th \<noteq> 2 \<Longrightarrow> pcs s th = Idle" "heap (ks s) 0 = Some t" "counts t = (replicate 32 0)[3 := 2]"
    "key t = 5" "owner_euid t = 1000" "shows_status (ks s) 5 5 1000 ((replicate 32 0)[3 := 1])"
    by (rule stale_run) blast
  have "sys_inv s" using module.reachable_inv [OF start_sys_init r(1)] .
  then have "length (level t) = 32" using kinv_service(6) [OF _ r(5)] by (simp add: sys_inv_def)
  then have "unat (thread_waiting (level t ! 3)) = 2" using r(6) counts_nth [of t 3] by simp
  moreover have "{th. pcs s th \<noteq> Idle} = {1, 2}" using r(2-4) by force
  ultimately show ?thesis using r start_sys_init by (intro exI [of _ start_sys] exI [of _ s] exI [of _ t]) simp
qed

text \<open>
  C14 The text of a device is not safe to use while its service is visible. From boot there is a run in which
  \<open>tag_get\<close> has put the new service into the table and not yet created its device, and a receiver on that
  tag is in \<open>update_chrdev\<close>, which goes through a text pointer that nobody has set; one in which \<open>tag_ctl\<close>
  removes the service in that window and frees that pointer; and one in which a receiver in
  \<open>update_chrdev\<close> has freed the text and not yet stored the new pointer, and the reader of the open device
  copies from the freed text: there is no grace period.
\<close>

theorem race_device_text:
  "\<exists>s0 s r s' new. sys_init s0 \<and> sys_step\<^sup>*\<^sup>* s0 s \<and> pcs s 0 = Publishing 5
    \<and> pcs s 1 = Rewriting 5 3 0 1 (Entering 0 demo_buf 64)
    \<and> (\<forall>e. update_free e 3 0 1 (ks s) = Inl UseAfterFree)
    \<and> sys_step\<^sup>*\<^sup>* s0 r \<and> pcs r 0 = Creating 5 \<and> pcs r 1 = Removing 5 0
    \<and> tag_ctl_destroy 0 (ks r) = Inl UseAfterFree
    \<and> sys_step\<^sup>*\<^sup>* s0 s' \<and> results s' = [(0, 5, [])]
    \<and> pcs s' 1 = Assigning 5 3 5 new (Entering 0 demo_buf 64) \<and> pcs s' 3 = Opened (Some 0) 0
    \<and> ts_read_copy (plain_env 1000) (Some 0) (ks s') = Inl UseAfterFree"
proof -
  obtain s where s: "sys_step\<^sup>*\<^sup>* start_sys s" "pcs s 0 = Publishing 5" "results s = []"
    "pcs s 1 = Rewriting 5 3 0 1 (Entering 0 demo_buf 64)" "\<And>e. update_free e 3 0 1 (ks s) = Inl UseAfterFree"
    by (rule unpublished_run) blast
  obtain r where r: "sys_step\<^sup>*\<^sup>* start_sys r" "pcs r 0 = Creating 5" "pcs r 1 = Removing 5 0"
    "tag_ctl_destroy 0 (ks r) = Inl UseAfterFree" by (rule unbuilt_removal_run)
  obtain s' new where "sys_step\<^sup>*\<^sup>* start_sys s'" "pcs s' 3 = Opened (Some 0) 0"
    "pcs s' 1 = Assigning 5 3 5 new (Entering 0 demo_buf 64)" "results s' = [(0, 5, [])]"
    "ts_read_copy (plain_env 1000) (Some 0) (ks s') = Inl UseAfterFree" by (rule freed_text_run)
  then show ?thesis using s r start_sys_init by blast
qed

section \<open>On a module with one service\<close>

theorem module_refines_registry_witness:
  "\<exists>s. sys_step\<^sup>*\<^sup>* start_sys s \<and> registry_of (ks s) 5 = Some (5, EVERYONE, 1000)
    \<and> some_user_step\<^sup>*\<^sup>* (thread_euid start_sys, Map.empty) (thread_euid s, registry_of (ks s))"
proof -
  obtain k s where c: "sys_step\<^sup>*\<^sup>* start_sys s" "s = finish 0 5 [] k start_sys" "service_at k 5 = Some first_service"
    by (rule demo_created) blast
  moreover have "permission first_service = EVERYONE" by (simp add: first_service_def new_service_def)
  ultimately have "registry_of (ks s) 5 = Some (5, EVERYONE, 1000)"
    by (simp add: registry_of_def service_view_def first_service_facts)
  then show ?thesis using module_refines_registry [OF start_sys_init c(1)] c(1) by blast
qed

theorem calls_are_runs_witness:
  "\<exists>k. tag_get (plain_env 1000) 5 CREATE_TAG EVERYONE (ks start_sys) = Inr (5, k)
    \<and> sys_step\<^sup>*\<^sup>* start_sys (finish 3 5 [] k start_sys)"
proof -
  have "service_at (booted 240) (nat (5 mod MAX_TAG_SERVICES)) = None" by (rule booted_service)
  from tag_get_create_key [OF booted_quiet plain_env_usable plain_env_gap(2) _ _ this, of EVERYONE 1000]
  obtain k where k: "tag_get (plain_env 1000) 5 CREATE_TAG EVERYONE (ks start_sys) = Inr (5, k)" by auto
  have "pcs start_sys 3 = Idle" "3 < PID_MAX" "euid (plain_env 1000) = thread_euid start_sys 3"
    by (simp_all add: PID_MAX_def) (simp add: plain_env_def)
  from conjunct1 [OF calls_are_runs [OF this]] k show ?thesis by metis
qed

lemma demo_held:
  obtains s t where "sys_step\<^sup>*\<^sup>* start_sys s" "held (ks s) 5" "heap (ks s) 0 = Some t"
    "message_ready (level t ! 3) = READY" "pcs s 1 = Waiting 5 3 0 demo_buf 64" "\<And>th. th \<noteq> 1 \<Longrightarrow> pcs s th = Idle"
proof -
  obtain k0 k s t l where d: "sys_step\<^sup>*\<^sup>* start_sys (goto 1 (Waiting 5 3 0 demo_buf 64) k0 (finish 0 5 [] k0 start_sys))"
    "sys_step\<^sup>*\<^sup>* (goto 1 (Waiting 5 3 0 demo_buf 64) k0 (finish 0 5 [] k0 start_sys)) s"
    "s = finish 2 0 [] k (goto 1 (Waiting 5 3 0 demo_buf 64) k0 (finish 0 5 [] k0 start_sys))"
    "quiet k0" "ts_wf 5 t" "k = call_rcu (FreeAfterSend 0 3) (put_ts 0 (put_level 3 l t) (locked 5 k0))"
    "message_ready l = READY" by (rule demo_delivery) blast
  have "in_range (access_lock (tsm (locked 5 k0))) 5" using quiet_lock(4) [OF d(4), of 5] by simp
  then have "held k 5" using d(6) held_locked [of k0 5 5] by (simp add: held_def call_rcu_def put_ts_def)
  moreover have "heap k 0 = Some (put_level 3 l t)" by (simp add: d(6) call_rcu_def put_ts_def)
  moreover have "level (put_level 3 l t) ! 3 = l" using d(5) by (simp add: put_level_def ts_wf_def)
  moreover have "sys_step\<^sup>*\<^sup>* start_sys s" using d(1,2) by simp
  moreover have "ks s = k" "pcs s 1 = Waiting 5 3 0 demo_buf 64" "\<And>th. th \<noteq> 1 \<Longrightarrow> pcs s th = Idle"
    by (simp_all add: d(3))
  ultimately show thesis using that [of s "put_level 3 l t"] d(7) by simp
qed


theorem counters_count_receivers_witness:
  "\<exists>s t. sys_step\<^sup>*\<^sup>* start_sys s \<and> heap (ks s) 0 = Some t \<and> unat (thread_waiting_message_count t) = 1"
proof -
  obtain s t where d: "sys_step\<^sup>*\<^sup>* start_sys s" "held (ks s) 5" "heap (ks s) 0 = Some t"
    "message_ready (level t ! 3) = READY" "pcs s 1 = Waiting 5 3 0 demo_buf 64" "\<And>th. th \<noteq> 1 \<Longrightarrow> pcs s th = Idle"
    by (rule demo_held) blast
  have "{th. counted_total (pcs s th) = Some 0} = {1}"
  proof (rule set_eqI)
    fix th show "th \<in> {th. counted_total (pcs s th) = Some 0} \<longleftrightarrow> th \<in> {1}"
      using d(5) d(6) [of th] by (cases "th = 1") auto
  qed
  then show ?thesis using counters_count_receivers [OF start_sys_init d(1,3)] d(1,3) by auto
qed





end
