(* ===== verification/Vtpm.thy ===== *)
theory Vtpm
  imports Prelude
begin

text \<open>
  The page-table walk \<open>vtpmo\<close> of \<open>lib/vtpm.c\<close>, on 64-bit words. The page tables are in physical
  memory: \<open>pt base i\<close> is the entry \<open>i\<close> of the table at the physical address \<open>base\<close> (what the code reads
  through \<open>__va\<close>), and \<open>cr3\<close> is the register.
\<close>

section \<open>The macros\<close>

definition ADDRESS_MASK :: "64 word" where "ADDRESS_MASK = 0xfffffffffffff000"
definition PT_ADDRESS_MASK :: "64 word" where "PT_ADDRESS_MASK = 0x7ffffffffffff000"
definition VALID :: "64 word" where "VALID = 1"
definition LH_MAPPING :: "64 word" where "LH_MAPPING = 0x80"
definition NO_MAP :: int where [simp]: "NO_MAP = -1"

text \<open>\<open>((long long) addr >> n) & 0x1ff\<close>: an arithmetic shift and nine bits.\<close>

definition index_of :: "nat \<Rightarrow> 64 word \<Rightarrow> 64 word" where
  "index_of n addr = signed_drop_bit n addr AND 0x1ff"

definition PML4_indexof :: "64 word \<Rightarrow> 64 word" where "PML4_indexof addr = index_of 39 addr"
definition PDP_indexof :: "64 word \<Rightarrow> 64 word" where "PDP_indexof addr = index_of 30 addr"
definition PDE_indexof :: "64 word \<Rightarrow> 64 word" where "PDE_indexof addr = index_of 21 addr"
definition PTE_indexof :: "64 word \<Rightarrow> 64 word" where "PTE_indexof addr = index_of 12 addr"

section \<open>The walk\<close>

type_synonym page_tables = "64 word \<Rightarrow> 64 word \<Rightarrow> 64 word"

definition frame_of :: "64 word \<Rightarrow> int" where
  "frame_of e = uint (drop_bit 12 (e AND PT_ADDRESS_MASK))"

definition vtpmo :: "page_tables \<Rightarrow> 64 word \<Rightarrow> 64 word \<Rightarrow> int" where
  "vtpmo pt cr3 vaddr =
     (let pgd = pt (cr3 AND ADDRESS_MASK) (PML4_indexof vaddr) in
      if pgd AND VALID = 0 then NO_MAP
      else
        let pud = pt (pgd AND PT_ADDRESS_MASK) (PDP_indexof vaddr) in
        if pud AND VALID = 0 then NO_MAP
        else
          let pmd = pt (pud AND PT_ADDRESS_MASK) (PDE_indexof vaddr) in
          if pmd AND VALID = 0 then NO_MAP
          else if pmd AND LH_MAPPING \<noteq> 0 then frame_of pmd
          else
            let pte = pt (pmd AND PT_ADDRESS_MASK) (PTE_indexof vaddr) in
            if pte AND VALID = 0 then NO_MAP
            else frame_of pte)"

section \<open>Its results\<close>

lemma PT_mask: "PT_ADDRESS_MASK = push_bit 12 (mask 51)"
  by (simp add: PT_ADDRESS_MASK_def mask_eq_exp_minus_1)

lemma page_mask: "ADDRESS_MASK = NOT (mask 12)"
  by (simp add: ADDRESS_MASK_def mask_eq_exp_minus_1)

lemma index_mask: "(0x1ff :: 64 word) = mask 9"
  by (simp add: mask_eq_exp_minus_1)

text \<open>A frame number is the bits 12 to 62 of the entry: 51 bits, of which a processor uses at most 40.\<close>

lemma frame_of_eq: "frame_of e = uint (take_bit 51 (drop_bit 12 e))"
proof -
  have "drop_bit 12 (e AND PT_ADDRESS_MASK) = take_bit 51 (drop_bit 12 e)"
    unfolding PT_mask by (rule bit_word_eqI) (auto simp: bit_simps)
  then show ?thesis by (simp add: frame_of_def)
qed

lemma frame_of_bounds: "0 \<le> frame_of e" "frame_of e < 2 ^ 51"
  using take_bit_int_less_exp [of 51 "uint (drop_bit 12 e)"]
  by (simp_all add: frame_of_eq unsigned_take_bit_eq)

lemma vtpmo_bounds: "vtpmo pt cr3 v = NO_MAP \<or> (0 \<le> vtpmo pt cr3 v \<and> vtpmo pt cr3 v < 2 ^ 51)"
  using frame_of_bounds by (simp add: vtpmo_def Let_def)

text \<open>The indices, and so the whole walk, look at nothing below bit 12.\<close>

lemma index_of_page: "12 \<le> n \<Longrightarrow> n < 64 \<Longrightarrow> index_of n (v AND ADDRESS_MASK) = index_of n v"
  unfolding index_of_def page_mask by (rule bit_word_eqI) (auto simp: bit_simps)

lemma indices_page: "PML4_indexof (v AND ADDRESS_MASK) = PML4_indexof v"
  "PDP_indexof (v AND ADDRESS_MASK) = PDP_indexof v" "PDE_indexof (v AND ADDRESS_MASK) = PDE_indexof v"
  "PTE_indexof (v AND ADDRESS_MASK) = PTE_indexof v"
  by (simp_all add: PML4_indexof_def PDP_indexof_def PDE_indexof_def PTE_indexof_def index_of_page)

lemma vtpmo_page: "vtpmo pt cr3 (v AND ADDRESS_MASK) = vtpmo pt cr3 v"
  unfolding vtpmo_def indices_page by (rule refl)

text \<open>
  \<open>vtpmo\<close> answers either NO_MAP or a frame number of 51 bits, never anything that the code that
  compares it with NO_MAP could mistake for it, and the same for all addresses of a page.
\<close>

theorem vtpmo_result:
  "(vtpmo pt cr3 v = NO_MAP \<or> (0 \<le> vtpmo pt cr3 v \<and> vtpmo pt cr3 v < 2 ^ 51))
   \<and> vtpmo pt cr3 (v AND ADDRESS_MASK) = vtpmo pt cr3 v"
  using vtpmo_bounds vtpmo_page by blast

section \<open>The walk of the processor\<close>

lemma valid_bit: "(e AND VALID = 0) = (\<not> bit e 0)"
  by (simp add: VALID_def and_one_eq odd_iff_mod_2_eq_one bit_0) 

lemma large_bit: "(e AND LH_MAPPING = 0) = (\<not> bit e 7)"
proof -
  have "LH_MAPPING = 2 ^ 7" by (simp add: LH_MAPPING_def)
  then show ?thesis using and_exp_eq_0_iff_not_bit [of e 7] by (simp only:)
qed

text \<open>
  The walk as the processor does it, in the arithmetic of addresses: with \<open>n\<close> levels to go from the table
  at the address \<open>a\<close>, nine bits of the virtual address from bit \<open>12 + 9 (n - 1)\<close> on select the entry; an
  entry is present when it is odd; its bits 12 to 62 are the number of the next table's page or of the
  frame; at the last level but one, bit 7 ends the walk with a large page.
\<close>

fun processor_walk :: "page_tables \<Rightarrow> nat \<Rightarrow> nat \<Rightarrow> nat \<Rightarrow> nat option" where
  "processor_walk pt 0 a v = Some (a div 4096)"
| "processor_walk pt (Suc n) a v =
     (let e = unat (pt (word_of_nat a) (word_of_nat (v div 2 ^ (12 + 9 * n) mod 512)));
          page = e div 4096 mod 2 ^ 51
      in if even e then None
         else if n = 1 \<and> odd (e div 128) then Some page
         else processor_walk pt n (4096 * page) v)"

lemma unat_bits:
  fixes w :: "64 word"
  shows "unat (drop_bit n w) = unat w div 2 ^ n" "unat (take_bit m w) = unat w mod 2 ^ m"
  by (rule trans [OF unat_drop_bit_eq drop_bit_eq_div]) (rule trans [OF unsigned_take_bit_eq take_bit_eq_mod])

lemma word_nat_eqI: "unat w = n \<Longrightarrow> word_of_nat n = w"
  by (drule sym) simp

lemma index_arith: "n \<le> 55 \<Longrightarrow> index_of n v = word_of_nat (unat v div 2 ^ n mod 512)"
proof -
  assume n: "n \<le> 55"
  have "index_of n v = take_bit 9 (drop_bit n v)"
    unfolding index_of_def index_mask using n by (intro bit_word_eqI) (auto simp: bit_simps)
  moreover have "unat (take_bit 9 (drop_bit n v)) = unat v div 2 ^ n mod 512" unfolding unat_bits by simp
  ultimately show ?thesis using word_nat_eqI [of "index_of n v"] by simp
qed

lemma page_arith: "unat (e AND PT_ADDRESS_MASK) = 4096 * (unat e div 4096 mod 2 ^ 51)"
proof -
  have "e AND PT_ADDRESS_MASK = push_bit 12 (take_bit 51 (drop_bit 12 e))"
    unfolding PT_mask by (rule bit_word_eqI) (auto simp: bit_simps)
  moreover have "unat (take_bit 51 (drop_bit 12 e)) = unat e div 4096 mod 2 ^ 51" unfolding unat_bits by simp
  ultimately have "unat (e AND PT_ADDRESS_MASK) = take_bit 64 (push_bit 12 (unat e div 4096 mod 2 ^ 51))"
    by (simp only: unsigned_push_bit_eq) simp
  moreover have "4096 * (unat e div 4096 mod 2 ^ 51) < 2 ^ 64" by simp
  ultimately show ?thesis by (simp add: push_bit_eq_mult take_bit_eq_mod)
qed

lemma cr3_arith: "unat (c AND ADDRESS_MASK) = unat c div 4096 * 4096"
proof -
  have "c AND ADDRESS_MASK = push_bit 12 (drop_bit 12 c)"
    unfolding page_mask by (rule bit_word_eqI) (auto simp: bit_simps)
  moreover have "unat (drop_bit 12 c) = unat c div 4096" unfolding unat_bits by simp
  ultimately have "unat (c AND ADDRESS_MASK) = take_bit 64 (push_bit 12 (unat c div 4096))"
    by (simp only: unsigned_push_bit_eq) simp
  moreover have "unat c div 4096 * 4096 < 2 ^ 64"
    using unsigned_less [of c, where 'a=nat] div_times_less_eq_dividend [of "unat c" 4096] by simp
  ultimately show ?thesis by (simp add: push_bit_eq_mult take_bit_eq_mod)
qed

lemma frame_arith: "frame_of e = int (unat e div 4096 mod 2 ^ 51)"
proof -
  have "unat (drop_bit 12 (e AND PT_ADDRESS_MASK)) = unat e div 4096 mod 2 ^ 51"
    unfolding unat_bits page_arith by simp
  then show ?thesis unfolding frame_of_def by (metis uint_nat)
qed

lemma valid_arith: "(e AND VALID = 0) = even (unat e)" "(e AND LH_MAPPING \<noteq> 0) = odd (unat e div 128)"
proof -
  have "bit (unat e) n = bit e n" if "n < 64" for n using that by (simp add: bit_unsigned_iff)
  from this [of 0] this [of 7] show "(e AND VALID = 0) = even (unat e)" "(e AND LH_MAPPING \<noteq> 0) = odd (unat e div 128)"
    unfolding valid_bit large_bit by (simp_all add: bit_iff_odd)
qed

text \<open>
  C30 \<open>vtpmo\<close> does the walk of the processor through the four levels of the page tables: for every content of
  the tables and every address it returns the number of the frame that the processor would use (of a
  2 MB page, the number of its first frame), and NO_MAP when an entry on the way is not present.
\<close>

theorem vtpmo_translates:
  "vtpmo pt cr3 v =
     (case processor_walk pt 4 (unat cr3 div 4096 * 4096) (unat v) of None \<Rightarrow> NO_MAP | Some f \<Rightarrow> int f)"
proof -
  have addr: "word_of_nat (4096 * (unat e div 4096 mod 2 ^ 51)) = e AND PT_ADDRESS_MASK"
    "word_of_nat (unat cr3 div 4096 * 4096) = cr3 AND ADDRESS_MASK" for e :: "64 word"
    by (rule word_nat_eqI [OF page_arith], rule word_nat_eqI [OF cr3_arith])
  have idx: "word_of_nat (unat v div 2 ^ 39 mod 512) = PML4_indexof v" "word_of_nat (unat v div 2 ^ 30 mod 512) = PDP_indexof v"
    "word_of_nat (unat v div 2 ^ 21 mod 512) = PDE_indexof v" "word_of_nat (unat v div 2 ^ 12 mod 512) = PTE_indexof v"
    by (simp_all add: index_arith PML4_indexof_def PDP_indexof_def PDE_indexof_def PTE_indexof_def)
  have lv: "12 + 9 * 3 = (39 :: nat)" "12 + 9 * 2 = (30 :: nat)" "12 + 9 * 1 = (21 :: nat)" "12 + 9 * 0 = (12 :: nat)" by simp_all
  have sc: "Suc 3 = 4" "Suc 2 = 3" "Suc 1 = 2" "Suc 0 = 1" by simp_all
  note walk = processor_walk.simps(2) [of pt _ _ "unat v"]
  have last: "processor_walk pt 0 (4096 * p) w = Some p" for p w by simp
  have w1: "processor_walk pt 1 a (unat v) = (let e = pt (word_of_nat a) (PTE_indexof v) in
      if e AND VALID = 0 then None else Some (unat e div 4096 mod 2 ^ 51))" for a
    using walk [of 0 a] unfolding sc lv idx Let_def last valid_arith by simp
  have w2: "processor_walk pt 2 a (unat v) = (let e = pt (word_of_nat a) (PDE_indexof v) in
      if e AND VALID = 0 then None else if e AND LH_MAPPING \<noteq> 0 then Some (unat e div 4096 mod 2 ^ 51)
      else processor_walk pt 1 (4096 * (unat e div 4096 mod 2 ^ 51)) (unat v))" for a
    using walk [of 1 a] unfolding sc lv idx Let_def valid_arith by simp
  have w3: "processor_walk pt 3 a (unat v) = (let e = pt (word_of_nat a) (PDP_indexof v) in
      if e AND VALID = 0 then None else processor_walk pt 2 (4096 * (unat e div 4096 mod 2 ^ 51)) (unat v))" for a
    using walk [of 2 a] unfolding sc lv idx Let_def valid_arith by simp
  have w4: "processor_walk pt 4 a (unat v) = (let e = pt (word_of_nat a) (PML4_indexof v) in
      if e AND VALID = 0 then None else processor_walk pt 3 (4096 * (unat e div 4096 mod 2 ^ 51)) (unat v))" for a
    using walk [of 3 a] unfolding sc lv idx Let_def valid_arith by simp
  show ?thesis unfolding w4 w3 w2 w1 addr vtpmo_def Let_def frame_arith by simp
qed

end
