(* ===== verification/Usctm.thy ===== *)
theory Usctm
  imports Vtpm Ts_State
begin

text \<open>
  The search for the system call table and the installation of system calls, \<open>lib/usctm.c\<close>. The
  search reads kernel memory through \<open>rd\<close>, which faults on an address without a frame, and asks
  \<open>probe\<close> (the page-table walk of \<open>vtpm.c\<close>) whether a page has one.
\<close>

section \<open>Constants and state\<close>

definition START :: "64 word" where "START = 0xffffffff00000000"
definition FIRST_NI_SYSCALL :: nat where [simp]: "FIRST_NI_SYSCALL = 134"
definition SECOND_NI_SYSCALL :: nat where [simp]: "SECOND_NI_SYSCALL = 174"
definition THIRD_NI_SYSCALL :: nat where [simp]: "THIRD_NI_SYSCALL = 182"
definition FOURTH_NI_SYSCALL :: nat where [simp]: "FOURTH_NI_SYSCALL = 183"
definition FIFTH_NI_SYSCALL :: nat where [simp]: "FIFTH_NI_SYSCALL = 214"
definition SIXTH_NI_SYSCALL :: nat where [simp]: "SIXTH_NI_SYSCALL = 215"
definition SEVENTH_NI_SYSCALL :: nat where [simp]: "SEVENTH_NI_SYSCALL = 236"
definition MAX_FREE :: nat where [simp]: "MAX_FREE = 15"
definition ENTRIES_TO_EXPLORE :: nat where [simp]: "ENTRIES_TO_EXPLORE = 256"

text \<open>The number of pages from \<open>START\<close> to \<open>MAX_ADDR\<close>, and of words in a page.\<close>

definition PAGES :: nat where
  "PAGES = (0xfffffffffff00000 - 0xffffffff00000000) div 4096"

definition PAGE_WORDS :: nat where [simp]: "PAGE_WORDS = 4096 div 8"

lemma PAGES_eq: "PAGES = 1048320"
  by (simp add: PAGES_def)

type_synonym reader = "64 word \<Rightarrow> 64 word outcome"

text \<open>
  The machine the installation runs on: the mapped words of memory, the register \<open>cr0\<close>, the global
  \<open>cr0\<close> of the file, and the table and the address of \<open>sys_ni_syscall\<close> that were found (0 is NULL).
\<close>

record machine =
  mem :: "64 word \<Rightarrow> 64 word option"
  cr0_reg :: "64 word"
  cr0 :: "64 word"
  tbl_found :: "64 word"
  ni_found :: "64 word"

definition read8 :: "machine \<Rightarrow> reader" where
  "read8 s a = (case mem s a of None \<Rightarrow> Inl PageFault | Some v \<Rightarrow> Inr v)"

text \<open>The pages of the table are read-only: a write needs the bit WP of \<open>cr0\<close> cleared.\<close>

definition write8 :: "64 word \<Rightarrow> 64 word \<Rightarrow> machine \<Rightarrow> machine outcome" where
  "write8 a v s =
     (if mem s a = None \<or> bit (cr0_reg s) 16 then Inl PageFault
      else Inr (s\<lparr>mem := (mem s)(a \<mapsto> v)\<rparr>))"

definition elem :: "64 word \<Rightarrow> nat \<Rightarrow> 64 word" where
  "elem addr i = addr + 8 * of_nat i"

section \<open>The search\<close>

fun good_loop :: "reader \<Rightarrow> 64 word \<Rightarrow> nat \<Rightarrow> nat \<Rightarrow> int outcome" where
  "good_loop rd addr i 0 = Inr SUCCESS"
| "good_loop rd addr i (Suc n) =
     and_then (rd (elem addr i)) (\<lambda>x.
     and_then (rd (elem addr FIRST_NI_SYSCALL)) (\<lambda>y.
     if x = y then Inr FAILURE else good_loop rd addr (Suc i) n))"

definition good_area :: "reader \<Rightarrow> 64 word \<Rightarrow> int outcome" where
  "good_area rd addr = good_loop rd addr 1 (FIRST_NI_SYSCALL - 1)"

fun same_entries :: "reader \<Rightarrow> 64 word \<Rightarrow> 64 word \<Rightarrow> nat list \<Rightarrow> bool outcome" where
  "same_entries rd addr x [] = Inr True"
| "same_entries rd addr x (i # js) =
     and_then (rd (elem addr i)) (\<lambda>y. if x = y then same_entries rd addr x js else Inr False)"

definition NI_ENTRIES :: "nat list" where
  "NI_ENTRIES = [SECOND_NI_SYSCALL, THIRD_NI_SYSCALL, FOURTH_NI_SYSCALL, FIFTH_NI_SYSCALL,
     SIXTH_NI_SYSCALL, SEVENTH_NI_SYSCALL]"

text \<open>The condition of the pattern matching at one address, with its short circuits.\<close>

definition pattern_at :: "reader \<Rightarrow> 64 word \<Rightarrow> bool outcome" where
  "pattern_at rd addr =
     and_then (rd (elem addr FIRST_NI_SYSCALL)) (\<lambda>x.
     if x AND 3 = 0 \<and> x \<noteq> 0 \<and> x > START then
       and_then (same_entries rd addr x NI_ENTRIES) (\<lambda>b.
       if b then and_then (good_area rd addr) (\<lambda>g. Inr (g \<noteq> 0)) else Inr False)
     else Inr False)"

text \<open>The loop of \<open>validate_page\<close> over the words of a page: the address where the pattern is found.\<close>

fun validate_loop :: "(64 word \<Rightarrow> int) \<Rightarrow> reader \<Rightarrow> 64 word \<Rightarrow> nat \<Rightarrow> nat \<Rightarrow> 64 word option outcome" where
  "validate_loop probe rd page j 0 = Inr None"
| "validate_loop probe rd page j (Suc n) =
     (let new_page = page + 8 * of_nat j + 8 * of_nat SECOND_NI_SYSCALL in
      if page + 4096 = new_page AND ADDRESS_MASK \<and> probe new_page = NO_MAP then Inr None
      else
        and_then (pattern_at rd (page + 8 * of_nat j)) (\<lambda>b.
        if b then Inr (Some (page + 8 * of_nat j)) else validate_loop probe rd page (Suc j) n))"

definition validate_page :: "(64 word \<Rightarrow> int) \<Rightarrow> reader \<Rightarrow> 64 word \<Rightarrow> 64 word option outcome" where
  "validate_page probe rd page = validate_loop probe rd page 0 PAGE_WORDS"

fun find_loop :: "(64 word \<Rightarrow> int) \<Rightarrow> reader \<Rightarrow> 64 word \<Rightarrow> nat \<Rightarrow> 64 word option outcome" where
  "find_loop probe rd k 0 = Inr None"
| "find_loop probe rd k (Suc n) =
     (if probe k \<noteq> NO_MAP then
        and_then (validate_page probe rd k) (\<lambda>r.
        case r of Some a \<Rightarrow> Inr (Some a) | None \<Rightarrow> find_loop probe rd (k + 4096) n)
      else find_loop probe rd (k + 4096) n)"

text \<open>The indices of the entries that equal entry 134, at most \<open>MAX_FREE\<close> of them.\<close>

fun collect_free :: "reader \<Rightarrow> 64 word \<Rightarrow> nat \<Rightarrow> nat \<Rightarrow> nat list \<Rightarrow> nat list outcome" where
  "collect_free rd tbl i 0 found = Inr found"
| "collect_free rd tbl i (Suc n) found =
     and_then (rd (elem tbl i)) (\<lambda>x.
     and_then (rd (elem tbl FIRST_NI_SYSCALL)) (\<lambda>y.
     if x = y then
       if length found + 1 \<ge> MAX_FREE then Inr (found @ [i])
       else collect_free rd tbl (Suc i) n (found @ [i])
     else collect_free rd tbl (Suc i) n found))"

text \<open>
  \<open>syscall_table_finder\<close> with the contents of \<open>free_entry_par\<close>: the table and \<open>sys_ni_syscall\<close> given to
  the caller (\<open>None\<close> when its pointers are left alone), the new contents and the new state.
\<close>

definition syscall_table_finder ::
    "(64 word \<Rightarrow> int) \<Rightarrow> int list \<Rightarrow> machine \<Rightarrow> ((64 word \<times> 64 word) option \<times> int list \<times> machine) outcome" where
  "syscall_table_finder probe par s =
     and_then (find_loop probe (read8 s) START PAGES) (\<lambda>r.
     case r of
       None \<Rightarrow> Inr (None, par, s)
     | Some a \<Rightarrow>
         and_then (read8 s (elem a FIRST_NI_SYSCALL)) (\<lambda>ni.
         and_then (collect_free (read8 s) a 0 ENTRIES_TO_EXPLORE []) (\<lambda>free.
         Inr (Some (a, ni), map int free @ drop (length free) par,
              s\<lparr>tbl_found := a, ni_found := ni\<rparr>))))"

section \<open>The installation\<close>

definition write_cr0_forced :: "64 word \<Rightarrow> machine \<Rightarrow> machine" where
  "write_cr0_forced v s = s\<lparr>cr0_reg := v\<rparr>"

definition protect_memory :: "machine \<Rightarrow> machine" where
  "protect_memory s = write_cr0_forced (cr0 s) s"

definition unprotect_memory :: "machine \<Rightarrow> machine" where
  "unprotect_memory s = write_cr0_forced (cr0 s AND NOT 0x10000) s"

definition entry_addr :: "machine \<Rightarrow> int \<Rightarrow> 64 word" where
  "entry_addr s position = tbl_found s + 8 * of_int position"

definition install_syscall :: "64 word \<Rightarrow> int \<Rightarrow> machine \<Rightarrow> (int \<times> machine) outcome" where
  "install_syscall f position s =
     and_then (read8 s (entry_addr s position)) (\<lambda>x.
     if x \<noteq> ni_found s then Inr (FAILURE, s)
     else
       let s = s\<lparr>cr0 := cr0_reg s\<rparr> in
       and_then (write8 (entry_addr s position) f (unprotect_memory s)) (\<lambda>s.
         Inr (SUCCESS, protect_memory s)))"

definition uninstall_syscall :: "64 word \<Rightarrow> int \<Rightarrow> machine \<Rightarrow> (int \<times> machine) outcome" where
  "uninstall_syscall f position s =
     and_then (read8 s (entry_addr s position)) (\<lambda>x.
     if x \<noteq> f then Inr (FAILURE, s)
     else
       let s = s\<lparr>cr0 := cr0_reg s\<rparr> in
       and_then (write8 (entry_addr s position) (ni_found s) (unprotect_memory s)) (\<lambda>s.
         Inr (SUCCESS, protect_memory s)))"

section \<open>The pattern\<close>

lemma good_loop_spec:
  "good_loop rd addr i n = Inr r \<Longrightarrow> (r = SUCCESS \<or> r = FAILURE) \<and>
    (r = SUCCESS \<longrightarrow> (\<forall>k. i \<le> k \<and> k < i + n \<longrightarrow>
      (\<exists>x y. rd (elem addr k) = Inr x \<and> rd (elem addr FIRST_NI_SYSCALL) = Inr y \<and> x \<noteq> y)))"
proof (induction n arbitrary: i)
  case 0
  then show ?case by auto
next
  case (Suc n)
  obtain x y where xy: "rd (elem addr i) = Inr x" "rd (elem addr FIRST_NI_SYSCALL) = Inr y"
    using Suc.prems by (auto elim!: and_then_InrE)
  show ?case
  proof (cases "x = y")
    case True
    then show ?thesis using Suc.prems xy by simp
  next
    case False
    then have IH: "(r = SUCCESS \<or> r = FAILURE) \<and> (r = SUCCESS \<longrightarrow> (\<forall>k. Suc i \<le> k \<and> k < Suc i + n \<longrightarrow>
      (\<exists>x y. rd (elem addr k) = Inr x \<and> rd (elem addr FIRST_NI_SYSCALL) = Inr y \<and> x \<noteq> y)))"
      using Suc.prems xy by (intro Suc.IH) simp
    have "k = i \<or> Suc i \<le> k" if "i \<le> k" for k using that by auto
    then show ?thesis using IH xy False by (metis add_Suc_right add_Suc)
  qed
qed

lemma same_entries_spec:
  "same_entries rd addr x is = Inr b \<Longrightarrow> b \<longleftrightarrow> (\<forall>i \<in> set is. rd (elem addr i) = Inr x)"
  by (induction "is") (auto elim!: and_then_InrE split: if_splits)

text \<open>What makes an address look like the system call table.\<close>

definition table_pattern :: "reader \<Rightarrow> 64 word \<Rightarrow> bool" where
  "table_pattern rd a \<longleftrightarrow> (\<exists>x. rd (elem a FIRST_NI_SYSCALL) = Inr x \<and> x AND 3 = 0 \<and> x > START
     \<and> (\<forall>i \<in> set NI_ENTRIES. rd (elem a i) = Inr x)
     \<and> (\<forall>i. 1 \<le> i \<and> i < FIRST_NI_SYSCALL \<longrightarrow> (\<exists>y. rd (elem a i) = Inr y \<and> y \<noteq> x)))"

lemma pattern_at_sound: "pattern_at rd a = Inr True \<Longrightarrow> table_pattern rd a"
proof -
  assume p: "pattern_at rd a = Inr True"
  then obtain x g where x: "rd (elem a 134) = Inr x" "x AND 3 = 0" "x > START"
    "same_entries rd a x NI_ENTRIES = Inr True" "good_area rd a = Inr g" "g \<noteq> 0"
    by (auto simp: pattern_at_def elim!: and_then_InrE split: if_splits)
  have "\<forall>i \<in> set NI_ENTRIES. rd (elem a i) = Inr x" using same_entries_spec [OF x(4)] by simp
  moreover have "\<forall>k. 1 \<le> k \<and> k < 1 + 133 \<longrightarrow>
      (\<exists>y z. rd (elem a k) = Inr y \<and> rd (elem a FIRST_NI_SYSCALL) = Inr z \<and> y \<noteq> z)"
    using good_loop_spec [of rd a 1 133 g] x(5,6) by (simp add: good_area_def)
  ultimately show ?thesis using x by (fastforce simp: table_pattern_def)
qed

section \<open>The probe of pages\<close>

text \<open>
  What the search relies on: the probe answers for whole pages. The page-table walk provides this.
\<close>

locale page_probe =
  fixes probe :: "64 word \<Rightarrow> int"
  assumes probe_page: "probe (v AND ADDRESS_MASK) = probe v"
    and probe_range: "probe v = NO_MAP \<or> 0 \<le> probe v"
begin

definition mapped :: "64 word \<Rightarrow> bool" where
  "mapped v \<longleftrightarrow> probe v \<noteq> NO_MAP"

lemma mapped_page: "v AND ADDRESS_MASK = w AND ADDRESS_MASK \<Longrightarrow> mapped v = mapped w"
  unfolding mapped_def using probe_page by metis

lemma mapped_nonneg: "mapped v = (0 \<le> probe v)"
  using probe_range [of v] by (auto simp: mapped_def)

lemma validate_sound:
  "validate_loop probe rd page j n = Inr (Some a) \<Longrightarrow>
   table_pattern rd a \<and> (\<exists>k. j \<le> k \<and> k < j + n \<and> a = page + 8 * of_nat k)"
proof (induction n arbitrary: j)
  case 0
  then show ?case by simp
next
  case (Suc n)
  obtain b where b: "pattern_at rd (page + 8 * of_nat j) = Inr b"
    "(if b then Inr (Some (page + 8 * of_nat j)) else validate_loop probe rd page (Suc j) n) = Inr (Some a)"
    using Suc.prems by (auto simp: Let_def elim!: and_then_InrE split: if_splits)
  show ?case
  proof (cases b)
    case True
    then show ?thesis using b pattern_at_sound by auto
  next
    case False
    then obtain k where "table_pattern rd a" "Suc j \<le> k" "k < Suc j + n" "a = page + 8 * of_nat k"
      using b(2) Suc.IH [of "Suc j"] by auto
    then show ?thesis by (intro conjI exI [of _ k]) auto
  qed
qed

lemma find_sound:
  "find_loop probe rd k n = Inr (Some a) \<Longrightarrow> table_pattern rd a \<and>
   (\<exists>m j. m < n \<and> j < 512 \<and> a = k + 4096 * of_nat m + 8 * of_nat j \<and> mapped (k + 4096 * of_nat m))"
proof (induction n arbitrary: k)
  case 0
  then show ?case by simp
next
  case (Suc n)
  have later: ?case if found: "find_loop probe rd (k + 4096) n = Inr (Some a)"
  proof -
    obtain m j where "table_pattern rd a" "m < n" "j < 512" "a = k + 4096 + 4096 * of_nat m + 8 * of_nat j"
      "mapped (k + 4096 + 4096 * of_nat m)" using Suc.IH [OF found] by blast
    then show ?thesis by (intro conjI exI [of _ "Suc m"] exI [of _ j]) (simp_all add: algebra_simps)
  qed
  show ?case
  proof (cases "mapped k")
    case False
    then show ?thesis using Suc.prems later by (simp add: mapped_def)
  next
    case True
    then obtain r where r: "validate_page probe rd k = Inr r"
      "(case r of Some a \<Rightarrow> Inr (Some a) | None \<Rightarrow> find_loop probe rd (k + 4096) n) = Inr (Some a)"
      using Suc.prems by (auto simp: mapped_def elim!: and_then_InrE)
    show ?thesis
    proof (cases r)
      case None
      then show ?thesis using r(2) later by simp
    next
      case (Some a')
      then have "a' = a" using r(2) by simp
      then obtain j where "table_pattern rd a" "j < 512" "a = k + 8 * of_nat j"
        using r(1) Some validate_sound [of rd k 0 512 a] by (auto simp: validate_page_def)
      then show ?thesis using True by (intro conjI exI [of _ 0] exI [of _ j]) simp_all
    qed
  qed
qed

end

interpretation vt: page_probe "vtpmo pt cr3" for pt cr3
  by unfold_locales (rule vtpmo_page, metis vtpmo_bounds)

section \<open>What the search finds\<close>

lemma collect_free_spec:
  assumes "collect_free rd tbl i n found = Inr r" "rd (elem tbl FIRST_NI_SYSCALL) = Inr ni" "length found < 15"
  shows "r = take 15 (found @ filter (\<lambda>k. rd (elem tbl k) = Inr ni) [i..<i + n])"
  using assms
proof (induction n arbitrary: i found)
  case 0
  then show ?case by simp
next
  case (Suc n)
  have up: "[i..<i + Suc n] = i # [Suc i..<Suc i + n]" by (simp add: upt_rec)
  obtain x where x: "rd (elem tbl i) = Inr x" using Suc.prems by (auto elim!: and_then_InrE)
  consider "x \<noteq> ni" | "x = ni" "length found + 1 < 15" | "x = ni" "length found + 1 = 15"
    using Suc.prems(3) by fastforce
  then show ?case
  proof cases
    case 1
    then have "r = take 15 (found @ filter (\<lambda>k. rd (elem tbl k) = Inr ni) [Suc i..<Suc i + n])"
      using Suc.prems x by (intro Suc.IH) simp_all
    then show ?thesis unfolding up using 1 x by simp
  next
    case 2
    then have "r = take 15 ((found @ [i]) @ filter (\<lambda>k. rd (elem tbl k) = Inr ni) [Suc i..<Suc i + n])"
      using Suc.prems x by (intro Suc.IH) simp_all
    then show ?thesis unfolding up using 2 x by simp
  next
    case 3
    then have "r = found @ [i]" using Suc.prems x by simp
    then show ?thesis unfolding up using 3 x by simp
  qed
qed

lemma finder_result:
  assumes "syscall_table_finder (vtpmo pt cr3) par s = Inr (Some (a, ni), par', s')"
  shows "table_pattern (read8 s) a
    \<and> (\<exists>m j. m < PAGES \<and> j < 512 \<and> a = START + 4096 * of_nat m + 8 * of_nat j
        \<and> vtpmo pt cr3 (START + 4096 * of_nat m) \<noteq> NO_MAP)
    \<and> read8 s (elem a FIRST_NI_SYSCALL) = Inr ni
    \<and> (let free = take 15 (filter (\<lambda>k. read8 s (elem a k) = Inr ni) [0..<256])
       in par' = map int free @ drop (length free) par)
    \<and> s' = s\<lparr>tbl_found := a, ni_found := ni\<rparr>"
proof -
  obtain free where f: "find_loop (vtpmo pt cr3) (read8 s) START PAGES = Inr (Some a)"
    "read8 s (elem a FIRST_NI_SYSCALL) = Inr ni"
    "collect_free (read8 s) a 0 256 [] = Inr free"
    "par' = map int free @ drop (length free) par" "s' = s\<lparr>tbl_found := a, ni_found := ni\<rparr>"
    using assms by (auto simp: syscall_table_finder_def elim!: and_then_InrE split: option.splits)
  have "free = take 15 (filter (\<lambda>k. read8 s (elem a k) = Inr ni) [0..<256])"
    using collect_free_spec [OF f(3,2)] by simp
  moreover note vt.find_sound [OF f(1)]
  ultimately show ?thesis using f(2,4,5) by (simp add: vt.mapped_def Let_def)
qed

section \<open>What the installation does\<close>

text \<open>
  C33 \<open>install_syscall\<close> on an entry that holds \<open>sys_ni_syscall\<close> writes exactly this entry and leaves
  \<open>cr0\<close> as it found it, although the table is write-protected; on any other entry it fails and
  changes nothing. Uninstalling puts \<open>sys_ni_syscall\<close> back: the table is as before.
\<close>

theorem install_uninstall:
  assumes "mem s (entry_addr s pos) = Some x"
  shows "(x \<noteq> ni_found s \<longrightarrow> install_syscall f pos s = Inr (FAILURE, s))
    \<and> (x = ni_found s \<longrightarrow> (\<exists>s'. install_syscall f pos s = Inr (SUCCESS, s')
        \<and> mem s' = (mem s)(entry_addr s pos \<mapsto> f) \<and> cr0_reg s' = cr0_reg s
        \<and> (\<exists>s''. uninstall_syscall f pos s' = Inr (SUCCESS, s'') \<and> mem s'' = mem s
            \<and> cr0_reg s'' = cr0_reg s \<and> tbl_found s'' = tbl_found s \<and> ni_found s'' = ni_found s)))"
proof -
  have wp: "\<not> bit (c AND NOT 0x10000) 16" for c :: "64 word"
  proof -
    have "(0x10000 :: 64 word) = push_bit 16 1" by simp
    then show ?thesis by (simp only: bit_and_iff bit_not_iff bit_push_bit_iff) simp
  qed
  show ?thesis
    using assms wp
    by (auto simp: install_syscall_def uninstall_syscall_def read8_def write8_def entry_addr_def Let_def
        unprotect_memory_def protect_memory_def write_cr0_forced_def fun_upd_idem)
qed

section \<open>Where the search stops in a page\<close>

lemma page_of: "uint (w AND ADDRESS_MASK) = uint w div 4096 * 4096"
proof -
  have "w AND ADDRESS_MASK = push_bit 12 (drop_bit 12 w)"
    unfolding page_mask by (rule bit_word_eqI) (auto simp: bit_simps)
  then have "uint (w AND ADDRESS_MASK) = take_bit 64 (push_bit 12 (drop_bit 12 (uint w)))"
    by (simp add: unsigned_push_bit_eq unsigned_drop_bit_eq take_bit_int_eq_self uint_lt2p [where 'a = 64, simplified])
  also have "push_bit 12 (drop_bit 12 (uint w)) = uint w div 4096 * 4096"
    by (simp add: push_bit_eq_mult drop_bit_eq_div)
  also have "take_bit 64 (uint w div 4096 * 4096) = uint w div 4096 * 4096"
  proof -
    have "uint w div 4096 * 4096 \<le> uint w" by presburger
    moreover have "uint w < 2 ^ 64" using uint_lt2p [of w] by simp
    moreover have "0 \<le> uint w div 4096" by (simp add: pos_imp_zdiv_nonneg_iff)
    ultimately show ?thesis by (intro take_bit_int_eq_self) auto
  qed
  finally show ?thesis .
qed

text \<open>A page-aligned address with two pages above it.\<close>

definition page_start :: "64 word \<Rightarrow> bool" where
  "page_start page \<longleftrightarrow> uint page mod 4096 = 0 \<and> uint page + 8192 < 2 ^ 64"

lemma uint_small: "0 \<le> x \<Longrightarrow> x < 2 ^ 64 \<Longrightarrow> uint (word_of_int x :: 64 word) = x"
  by (simp add: uint_word_of_int_eq take_bit_int_eq_self)

lemma next_page_reached:
  assumes "page_start page" "j < 512"
  shows "(page + 4096 = (page + 8 * of_nat j + 8 * of_nat SECOND_NI_SYSCALL) AND ADDRESS_MASK) \<longleftrightarrow> 338 \<le> j"
proof -
  let ?w = "page + 8 * of_nat j + 8 * of_nat SECOND_NI_SYSCALL"
  have p: "uint page mod 4096 = 0" "uint page + 8192 < 2 ^ 64" "0 \<le> uint page"
    using assms(1) by (simp_all add: page_start_def)
  have ew: "?w = word_of_int (uint page + 8 * int j + 1392)" by simp
  have w: "uint ?w = uint page + 8 * int j + 1392"
    unfolding ew using p assms(2) by (intro uint_small) auto
  have en: "page + 4096 = word_of_int (uint page + 4096)" by simp
  have n: "uint (page + 4096) = uint page + 4096"
    unfolding en using p by (intro uint_small) auto
  have "(page + 4096 = ?w AND ADDRESS_MASK) \<longleftrightarrow> uint (page + 4096) = uint (?w AND ADDRESS_MASK)"
    by (rule word_uint_eq_iff)
  also have "\<dots> \<longleftrightarrow> uint page + 4096 = (uint page + 8 * int j + 1392) div 4096 * 4096"
    by (simp only: n page_of w)
  also have "\<dots> \<longleftrightarrow> 338 \<le> j"
  proof -
    define x where "x = 8 * int j + 1392"
    have "4096 dvd uint page" using p(1) by (simp add: dvd_eq_mod_eq_0)
    then obtain q where q: "uint page = 4096 * q" by blast
    have e: "uint page + 8 * int j + 1392 = q * 4096 + x" by (simp add: q x_def)
    have d: "(q * 4096 + x) div 4096 = q + x div 4096" by simp
    have "(uint page + 4096 = (uint page + 8 * int j + 1392) div 4096 * 4096) \<longleftrightarrow> x div 4096 = 1"
      unfolding e d by (auto simp: q)
    also have "\<dots> \<longleftrightarrow> 4096 \<le> x \<and> x < 8192"
      using div_mult_mod_eq [of x 4096] pos_mod_bound [of 4096 x] pos_mod_sign [of 4096 x] by linarith
    also have "\<dots> \<longleftrightarrow> 338 \<le> j" using assms(2) unfolding x_def by linarith
    finally show ?thesis .
  qed
  finally show ?thesis .
qed

lemma elem_shift: "elem (page + 8 * of_nat j) i = elem page (j + i)"
  by (simp add: elem_def algebra_simps)

text \<open>
  C34 The search can crash the kernel: only the page that holds entry 174 is probed, but entries up to
  236 are read. On a page filled with one aligned kernel address and followed by a page without a
  frame, \<open>validate_page\<close> faults, whatever the probe answers.
\<close>

theorem validate_reads_past_probe:
  assumes "page_start page" "c AND 3 = 0" "START < c"
    and here: "\<forall>m<512. rd (elem page m) = Inr c"
    and beyond: "\<forall>m. 512 \<le> m \<and> m < 1024 \<longrightarrow> rd (elem page m) = Inl PageFault"
  shows "validate_page probe rd page = Inl PageFault"
proof -
  have step: "validate_loop probe rd page j (Suc n) =
      (if j < 276 then validate_loop probe rd page (Suc j) n else Inl PageFault)" if j: "j \<le> 276" for j n
  proof -
    have b: "\<not> page + 4096 = (page + 8 * of_nat j + 8 * of_nat SECOND_NI_SYSCALL) AND ADDRESS_MASK"
      using next_page_reached [OF assms(1), of j] j by simp
    have r: "rd (elem (page + 8 * of_nat j) i) = (if j + i < 512 then Inr c else Inl PageFault)"
      if "i \<le> 236" for i
      using here beyond j that by (simp add: elem_shift)
    have nz: "c \<noteq> 0" using assms(3) by (auto simp: START_def)
    have p: "pattern_at rd (page + 8 * of_nat j) = (if j < 276 then Inr False else Inl PageFault)"
    proof (cases "j < 276")
      case True
      have e: "FIRST_NI_SYSCALL - 1 = Suc 132" by simp
      have "good_area rd (page + 8 * of_nat j) = Inr FAILURE"
        unfolding good_area_def e good_loop.simps(2) using True by (simp add: r)
      then show ?thesis using True r assms(2,3) nz by (simp add: pattern_at_def NI_ENTRIES_def)
    next
      case False
      then show ?thesis using j r assms(2,3) nz by (simp add: pattern_at_def NI_ENTRIES_def)
    qed
    show ?thesis using b p by (simp add: Let_def)
  qed
  have "validate_loop probe rd page (276 - k) (236 + k) = Inl PageFault" if "k \<le> 276" for k
    using that
  proof (induction k)
    case 0
    have "validate_loop probe rd page 276 (Suc 235) = Inl PageFault" by (subst step) simp_all
    then show ?case by simp
  next
    case (Suc k)
    have "Suc (276 - Suc k) = 276 - k" using Suc.prems by simp
    moreover have "validate_loop probe rd page (276 - Suc k) (Suc (236 + k)) =
        validate_loop probe rd page (Suc (276 - Suc k)) (236 + k)"
      by (subst step) (use Suc.prems in auto)
    ultimately show ?case using Suc by simp
  qed
  from this [of 276] show ?thesis by (simp add: validate_page_def)
qed

section \<open>The search finds a table\<close>

text \<open>Where the words that the pattern looks at can be read, it is decided.\<close>

definition table_readable :: "reader \<Rightarrow> 64 word \<Rightarrow> bool" where
  "table_readable rd a \<longleftrightarrow> (\<forall>i<256. ok (rd (elem a i)))"

lemma table_readableE:
  "table_readable rd a \<Longrightarrow> i < 256 \<Longrightarrow> (\<And>v. rd (elem a i) = Inr v \<Longrightarrow> thesis) \<Longrightarrow> thesis"
  unfolding table_readable_def ok_iff by blast

text \<open>
  The first two comparisons of the pattern: an aligned kernel address in entry 134, found again in
  entry 174. Only on such a pair does the search read further.
\<close>

definition lookalike :: "reader \<Rightarrow> 64 word \<Rightarrow> bool" where
  "lookalike rd a \<longleftrightarrow> (\<exists>x. rd (elem a FIRST_NI_SYSCALL) = Inr x \<and> x AND 3 = 0 \<and> x > START
     \<and> rd (elem a SECOND_NI_SYSCALL) = Inr x)"

lemma good_loop_decides:
  assumes "table_readable rd addr" "rd (elem addr FIRST_NI_SYSCALL) = Inr x" "i + n \<le> 256"
  shows "good_loop rd addr i n =
    Inr (if \<forall>k. i \<le> k \<and> k < i + n \<longrightarrow> rd (elem addr k) \<noteq> Inr x then SUCCESS else FAILURE)"
  using assms(3)
proof (induction n arbitrary: i)
  case 0
  then show ?case by simp
next
  case (Suc n)
  have "i < 256" using Suc.prems by simp
  then obtain y where y: "rd (elem addr i) = Inr y" using assms(1) by (elim table_readableE)
  have split: "(i \<le> k \<and> k < i + Suc n) \<longleftrightarrow> (k = i \<or> (Suc i \<le> k \<and> k < Suc i + n))" for k by auto
  have IH: "good_loop rd addr (Suc i) n = Inr (if \<forall>k. Suc i \<le> k \<and> k < Suc i + n \<longrightarrow>
      rd (elem addr k) \<noteq> Inr x then SUCCESS else FAILURE)"
    using Suc.prems by (intro Suc.IH) simp
  show ?case
  proof (cases "y = x")
    case True
    then show ?thesis using y assms(2) by force
  next
    case False
    then have "good_loop rd addr i (Suc n) = good_loop rd addr (Suc i) n" using y assms(2) by simp
    then show ?thesis unfolding IH split using y False by auto
  qed
qed

lemma same_entries_decides:
  "table_readable rd addr \<Longrightarrow> \<forall>i \<in> set is. i < 256 \<Longrightarrow>
   same_entries rd addr x is = Inr (\<forall>i \<in> set is. rd (elem addr i) = Inr x)"
proof (induction "is")
  case (Cons i js)
  obtain y where "rd (elem addr i) = Inr y" using Cons.prems by (auto elim: table_readableE)
  then show ?case using Cons by auto
qed simp

lemma pattern_at_decides:
  assumes "table_readable rd a" shows "pattern_at rd a = Inr (table_pattern rd a)"
proof -
  obtain x where x: "rd (elem a 134) = Inr x" using assms by (rule table_readableE [of _ _ 134]) simp_all
  have g: "good_area rd a = Inr (if \<forall>k. 1 \<le> k \<and> k < 134 \<longrightarrow> rd (elem a k) \<noteq> Inr x then SUCCESS else FAILURE)"
    using good_loop_decides [OF assms, of x 1 133] x by (simp add: good_area_def)
  have e: "same_entries rd a x NI_ENTRIES = Inr (\<forall>i \<in> set NI_ENTRIES. rd (elem a i) = Inr x)" for x
    using assms by (rule same_entries_decides) (simp add: NI_ENTRIES_def)
  have d: "(rd (elem a k) \<noteq> Inr x) = (\<exists>y. rd (elem a k) = Inr y \<and> y \<noteq> x)" if "k < 134" for k
    using assms that by (elim table_readableE [of rd a k]) auto
  have nz: "START < x \<Longrightarrow> x \<noteq> 0" by (auto simp: START_def)
  show ?thesis
    using x nz by (auto simp: pattern_at_def table_pattern_def e g d)
qed

lemma pattern_at_no_lookalike:
  assumes "ok (rd (elem a 134))" "ok (rd (elem a 174))" "\<not> lookalike rd a"
  shows "pattern_at rd a = Inr False" "\<not> table_pattern rd a"
  using assms by (auto simp: pattern_at_def table_pattern_def lookalike_def NI_ENTRIES_def ok_iff)

lemma collect_free_total:
  assumes "table_readable rd tbl" "i + n \<le> 256" shows "\<exists>r. collect_free rd tbl i n found = Inr r"
  using assms(2)
proof (induction n arbitrary: i found)
  case (Suc n)
  obtain x where x: "rd (elem tbl i) = Inr x"
    using assms(1) Suc.prems by (elim table_readableE [of _ _ i]) simp_all
  obtain y where y: "rd (elem tbl 134) = Inr y"
    using assms(1) by (rule table_readableE [of _ _ 134]) simp_all
  show ?case using x y Suc by simp
qed simp

text \<open>
  What the search asks of the memory it walks through. The words of a page with a frame can be read;
  and where the next page has none, no lookalike stands so close to the end of the page that the rest
  of the pattern, or of the 256 entries, would lie beyond it: the search would read there without a
  probe and fault.
\<close>

definition words_readable :: "reader \<Rightarrow> 64 word \<Rightarrow> bool" where
  "words_readable rd page \<longleftrightarrow> (\<forall>i<512. ok (rd (elem page i)))"

definition searchable :: "(64 word \<Rightarrow> int) \<Rightarrow> reader \<Rightarrow> 64 word \<Rightarrow> bool" where
  "searchable probe rd page \<longleftrightarrow> probe page \<noteq> NO_MAP \<longrightarrow> words_readable rd page
     \<and> (if probe (page + 4096) = NO_MAP then \<forall>j. 256 < j \<and> j < 338 \<longrightarrow> \<not> lookalike rd (elem page j)
        else words_readable rd (page + 4096))"

lemma next_page_elem: "512 \<le> i \<Longrightarrow> elem page i = elem (page + 4096) (i - 512)"
proof -
  assume "512 \<le> i"
  then obtain k where "i = 512 + k" using le_Suc_ex by blast
  then show ?thesis by (simp add: elem_def algebra_simps)
qed

lemma searchable_decides:
  assumes "searchable probe rd page" "probe page \<noteq> NO_MAP" "j < 512"
    "j < 338 \<or> probe (page + 4096) \<noteq> NO_MAP"
  shows "pattern_at rd (elem page j) = Inr (table_pattern rd (elem page j))"
    "table_pattern rd (elem page j) \<Longrightarrow> table_readable rd (elem page j)"
proof -
  have shift: "elem (elem page j) i = elem page (j + i)" for i
    by (simp add: elem_def algebra_simps)
  have here: "ok (rd (elem page i))" if "i < 512" for i
    using assms(1,2) that by (auto simp: searchable_def words_readable_def)
  have "table_readable rd (elem page j) \<or> pattern_at rd (elem page j) = Inr False \<and> \<not> table_pattern rd (elem page j)"
  proof (cases "probe (page + 4096) = NO_MAP \<and> 256 < j")
    case True
    then have "\<not> lookalike rd (elem page j)" "j < 338"
      using assms by (auto simp: searchable_def)
    then show ?thesis using here pattern_at_no_lookalike [of rd "elem page j"] by (simp add: shift)
  next
    case False
    have "ok (rd (elem page (j + i)))" if i: "i < 256" for i
    proof (cases "j + i < 512")
      case True
      then show ?thesis by (rule here)
    next
      case beyond: False
      then have "probe (page + 4096) \<noteq> NO_MAP" using False i by auto
      then have "words_readable rd (page + 4096)" using assms(1,2) by (simp add: searchable_def)
      then show ?thesis using beyond i assms(3) by (simp add: words_readable_def next_page_elem)
    qed
    then show ?thesis by (simp add: table_readable_def shift)
  qed
  then show "pattern_at rd (elem page j) = Inr (table_pattern rd (elem page j))"
    "table_pattern rd (elem page j) \<Longrightarrow> table_readable rd (elem page j)"
    using pattern_at_decides by auto
qed

context page_probe begin

lemma validate_decides:
  assumes "searchable probe rd page" "page_start page" "mapped page"
  shows "j + n = 512 \<Longrightarrow> \<exists>r. validate_loop probe rd page j n = Inr r
    \<and> (r = None \<longrightarrow> (\<forall>i. j \<le> i \<and> i < 512 \<and> (i < 338 \<or> mapped (page + 4096)) \<longrightarrow> \<not> table_pattern rd (elem page i)))
    \<and> (\<forall>a. r = Some a \<longrightarrow> table_readable rd a)"
proof (induction n arbitrary: j)
  case 0
  then show ?case by auto
next
  case (Suc n)
  let ?w = "page + 8 * of_nat j + 8 * of_nat SECOND_NI_SYSCALL"
  have at: "page + 8 * of_nat j = elem page j" by (simp add: elem_def)
  have pm: "probe ?w = probe (page + 4096)" if "page + 4096 = ?w AND ADDRESS_MASK"
    using probe_page [of ?w] unfolding that [symmetric] by simp
  have stop: "page + 4096 = ?w AND ADDRESS_MASK \<and> probe ?w = NO_MAP \<longleftrightarrow> 338 \<le> j \<and> \<not> mapped (page + 4096)"
    using next_page_reached [OF assms(2), of j] Suc.prems pm by (auto simp: mapped_def)
  show ?case
  proof (cases "338 \<le> j \<and> \<not> mapped (page + 4096)")
    case True
    then show ?thesis using stop by (intro exI [of _ None]) (auto simp: Let_def)
  next
    case False
    then have j: "j < 338 \<or> probe (page + 4096) \<noteq> NO_MAP" by (auto simp: mapped_def)
    note d = searchable_decides [OF assms(1) _ _ j]
    have d1: "pattern_at rd (elem page j) = Inr (table_pattern rd (elem page j))"
      "table_pattern rd (elem page j) \<Longrightarrow> table_readable rd (elem page j)"
      using d assms(3) Suc.prems by (simp_all add: mapped_def)
    have e: "validate_loop probe rd page j (Suc n) =
        (if table_pattern rd (elem page j) then Inr (Some (elem page j)) else validate_loop probe rd page (Suc j) n)"
      unfolding validate_loop.simps(2) Let_def stop if_not_P [OF False] unfolding at
      by (simp only: d1(1) and_then_Inr)
    show ?thesis
    proof (cases "table_pattern rd (elem page j)")
      case True
      then show ?thesis using d1(2) unfolding e by simp
    next
      case none: False
      obtain r where r: "validate_loop probe rd page (Suc j) n = Inr r"
        "r = None \<longrightarrow> (\<forall>i. Suc j \<le> i \<and> i < 512 \<and> (i < 338 \<or> mapped (page + 4096)) \<longrightarrow> \<not> table_pattern rd (elem page i))"
        "\<forall>a. r = Some a \<longrightarrow> table_readable rd a"
        using Suc.IH [of "Suc j"] Suc.prems by auto
      have "j \<le> i \<Longrightarrow> i = j \<or> Suc j \<le> i" for i by auto
      then show ?thesis unfolding e if_not_P [OF none] using r none by (intro exI [of _ r]) blast
    qed
  qed
qed

text \<open>The loop over the pages ends: with nothing, or with a table whose 256 entries can be read.\<close>

lemma find_decides:
  assumes "\<And>m. m < n \<Longrightarrow> searchable probe rd (k + 4096 * of_nat m) \<and> page_start (k + 4096 * of_nat m)"
  shows "\<exists>r. find_loop probe rd k n = Inr r \<and> (\<forall>a. r = Some a \<longrightarrow> table_readable rd a)
    \<and> (r = None \<longrightarrow> (\<forall>m j. m < n \<and> j < 512 \<and> mapped (k + 4096 * of_nat m)
        \<and> (j < 338 \<or> mapped (k + 4096 * of_nat m + 4096))
        \<longrightarrow> \<not> table_pattern rd (elem (k + 4096 * of_nat m) j)))"
  using assms
proof (induction n arbitrary: k)
  case 0
  then show ?case by simp
next
  case (Suc n)
  have shift: "k + 4096 * of_nat (Suc m) = (k + 4096) + 4096 * of_nat m" for m
    by (simp add: algebra_simps)
  have "searchable probe rd ((k + 4096) + 4096 * of_nat m) \<and> page_start ((k + 4096) + 4096 * of_nat m)" if "m < n" for m
    using Suc.prems [of "Suc m"] that unfolding shift by simp
  from Suc.IH [OF this] obtain r where r: "find_loop probe rd (k + 4096) n = Inr r"
    "\<forall>a. r = Some a \<longrightarrow> table_readable rd a"
    "r = None \<longrightarrow> (\<forall>m j. m < n \<and> j < 512 \<and> mapped (k + 4096 + 4096 * of_nat m)
        \<and> (j < 338 \<or> mapped (k + 4096 + 4096 * of_nat m + 4096))
        \<longrightarrow> \<not> table_pattern rd (elem (k + 4096 + 4096 * of_nat m) j))" by blast
  have first: "searchable probe rd k" "page_start k" using Suc.prems [of 0] by simp_all
  show ?case
  proof (cases "mapped k")
    case False
    have "\<not> table_pattern rd (elem (k + 4096 * of_nat m) j)"
      if "r = None" "m < Suc n" "j < 512" "mapped (k + 4096 * of_nat m)"
        "j < 338 \<or> mapped (k + 4096 * of_nat m + 4096)" for m j
    proof (cases m)
      case 0
      then show ?thesis using that False by simp
    next
      case (Suc m')
      then show ?thesis using that r(3) unfolding Suc shift by auto
    qed
    then show ?thesis using False r(1,2) by (intro exI [of _ r]) (auto simp: mapped_def)
  next
    case True
    obtain v where v: "validate_page probe rd k = Inr v"
      "v = None \<longrightarrow> (\<forall>i. i < 512 \<and> (i < 338 \<or> mapped (k + 4096)) \<longrightarrow> \<not> table_pattern rd (elem k i))"
      "\<forall>a. v = Some a \<longrightarrow> table_readable rd a"
      using validate_decides [OF first True, of 0 512] by (auto simp: validate_page_def)
    show ?thesis
    proof (cases v)
      case (Some a)
      then show ?thesis using True v by (intro exI [of _ "Some a"]) (simp add: mapped_def)
    next
      case None
      have "\<not> table_pattern rd (elem (k + 4096 * of_nat m) j)"
        if "r = None" "m < Suc n" "j < 512" "mapped (k + 4096 * of_nat m)"
          "j < 338 \<or> mapped (k + 4096 * of_nat m + 4096)" for m j
      proof (cases m)
        case 0
        then show ?thesis using that v(2) None by auto
      next
        case (Suc m')
        then show ?thesis using that r(3) unfolding Suc shift by auto
      qed
      then show ?thesis using True v(1) None r(1,2) by (intro exI [of _ r]) (auto simp: mapped_def)
    qed
  qed
qed

end

lemma search_pages_start: "m < PAGES \<Longrightarrow> page_start (START + 4096 * of_nat m)"
proof -
  assume m: "m < PAGES"
  have e: "START + 4096 * of_nat m = word_of_int (0xffffffff00000000 + 4096 * int m)"
    by (simp add: START_def)
  have "uint (START + 4096 * of_nat m) = 0xffffffff00000000 + 4096 * int m"
    unfolding e using m by (intro uint_small) (auto simp: PAGES_eq)
  moreover have "(0xffffffff00000000 + 4096 * int m) mod 4096 = 0"
    by (simp add: mod_add_eq [symmetric])
  ultimately show ?thesis using m by (simp add: page_start_def PAGES_eq)
qed

lemma finder_finds:
  assumes "\<forall>m<PAGES. searchable (vtpmo pt cr3) (read8 s) (START + 4096 * of_nat m)"
    "m < PAGES" "j < 512" "page = START + 4096 * of_nat m" "vtpmo pt cr3 page \<noteq> NO_MAP"
    "table_pattern (read8 s) (elem page j)"
    "j < 338 \<or> vtpmo pt cr3 (page + 4096) \<noteq> NO_MAP"
  shows "\<exists>a ni par' s'. syscall_table_finder (vtpmo pt cr3) par s = Inr (Some (a, ni), par', s')"
proof -
  obtain r where r: "find_loop (vtpmo pt cr3) (read8 s) START PAGES = Inr r"
    "\<forall>a. r = Some a \<longrightarrow> table_readable (read8 s) a"
    "r = None \<longrightarrow> (\<forall>m j. m < PAGES \<and> j < 512 \<and> vtpmo pt cr3 (START + 4096 * of_nat m) \<noteq> NO_MAP
        \<and> (j < 338 \<or> vtpmo pt cr3 (START + 4096 * of_nat m + 4096) \<noteq> NO_MAP)
        \<longrightarrow> \<not> table_pattern (read8 s) (elem (START + 4096 * of_nat m) j))"
    using vt.find_decides [of PAGES pt cr3 "read8 s" START] assms(1) search_pages_start
    unfolding vt.mapped_def by blast
  then obtain a where a: "find_loop (vtpmo pt cr3) (read8 s) START PAGES = Inr (Some a)"
    "table_readable (read8 s) a"
    using assms(2-) by (cases r) auto
  obtain ni where ni: "read8 s (elem a 134) = Inr ni"
    using a(2) by (rule table_readableE [of _ _ 134]) simp_all
  obtain free where "collect_free (read8 s) a 0 256 [] = Inr free"
    using collect_free_total [OF a(2), of 0 256] by auto
  then show ?thesis using a(1) ni by (simp add: syscall_table_finder_def)
qed

text \<open>
  C32 The search succeeds whenever there is something to find: if every page of the range is
  searchable, and some page with a frame holds the pattern of the system call table, in its first 338
  words or with the next page mapped as well, then a table is returned. A page is searchable when it
  has no frame, or when its words can be read and either the words of the next page can be read too or
  no pair of equal kernel addresses 40 words apart stands close to its end; C35 is what happens
  otherwise.
\<close>

theorem finder_complete:
  assumes "\<forall>m<PAGES. searchable (vtpmo pt cr3) (read8 s) (START + 4096 * of_nat m)"
    "m < PAGES" "j < 512" "page = START + 4096 * of_nat m" "vtpmo pt cr3 page \<noteq> NO_MAP"
    "table_pattern (read8 s) (elem page j)"
    "j < 338 \<or> vtpmo pt cr3 (page + 4096) \<noteq> NO_MAP"
  shows "\<exists>a ni par' s'. syscall_table_finder (vtpmo pt cr3) par s = Inr (Some (a, ni), par', s')"
  using finder_finds [OF assms] by blast

section \<open>A machine to run on\<close>

text \<open>A kernel whose table is at \<open>START\<close>: the entries that the search knows hold \<open>sys_ni_syscall\<close>.\<close>

definition demo_machine :: machine where
  "demo_machine = \<lparr>mem = (\<lambda>a. Some (if a \<in> elem START ` set (FIRST_NI_SYSCALL # NI_ENTRIES)
      then 0xffffffff81000000 else 0)), cr0_reg = 0x80050033, cr0 = 0, tbl_found = 0, ni_found = 0\<rparr>"

definition demo_tables :: page_tables where
  "demo_tables = (\<lambda>base i. base + 0x1001)"

lemma elem_inj: "i < 1024 \<Longrightarrow> k < 1024 \<Longrightarrow> elem a i = elem a k \<longleftrightarrow> i = k"
proof -
  assume b: "i < 1024" "k < 1024"
  have "8 * word_of_nat i = (8 * word_of_nat k :: 64 word) \<longleftrightarrow> 8 * i = 8 * k"
    using b word_of_nat_eq_iff [of "8 * i" "8 * k", where 'a = 64] by (simp add: take_bit_nat_eq_self)
  then show ?thesis by (simp add: elem_def)
qed

lemma demo_mapped: "vtpmo demo_tables 0x5000 v = 9"
  by (simp add: vtpmo_def demo_tables_def ADDRESS_MASK_def VALID_def PT_ADDRESS_MASK_def LH_MAPPING_def
      frame_of_def)

lemma demo_searchable:
  "\<forall>m<PAGES. searchable (vtpmo demo_tables 0x5000) (read8 demo_machine) (START + 4096 * of_nat m)"
  by (simp add: searchable_def words_readable_def demo_mapped read8_def demo_machine_def)

lemma demo_entry: "i < 1024 \<Longrightarrow> read8 demo_machine (elem START i) =
    Inr (if i \<in> set (FIRST_NI_SYSCALL # NI_ENTRIES) then 0xffffffff81000000 else 0)"
proof -
  assume i: "i < 1024"
  have "elem START i \<in> elem START ` set (FIRST_NI_SYSCALL # NI_ENTRIES)
      \<longleftrightarrow> i \<in> set (FIRST_NI_SYSCALL # NI_ENTRIES)"
    using i elem_inj [of i _ START] by (auto simp: NI_ENTRIES_def)
  then show ?thesis by (simp only: read8_def demo_machine_def machine.simps option.case)
qed

lemma demo_pattern: "table_pattern (read8 demo_machine) START"
proof -
  have "read8 demo_machine (elem START i) = Inr 0" if "1 \<le> i" "i < 134" for i
    using that demo_entry [of i] by (simp add: NI_ENTRIES_def)
  moreover have "read8 demo_machine (elem START i) = Inr 0xffffffff81000000"
    if "i \<in> set (FIRST_NI_SYSCALL # NI_ENTRIES)" for i
    using that demo_entry [of i] by (auto simp: NI_ENTRIES_def)
  ultimately show ?thesis
    unfolding table_pattern_def by (intro exI [of _ "0xffffffff81000000"]) (auto simp: START_def)
qed

lemma demo_assumptions: "0 < PAGES" "(0::nat) < 512" "START = START + 4096 * of_nat 0"
  "vtpmo demo_tables 0x5000 START \<noteq> NO_MAP"
  "table_pattern (read8 demo_machine) (elem START 0)"
  "0 < (338::nat) \<or> vtpmo demo_tables 0x5000 (START + 4096) \<noteq> NO_MAP"
  using demo_pattern by (simp_all add: demo_mapped PAGES_eq elem_def)

theorem finder_complete_witness:
  "\<exists>a ni par' s'. syscall_table_finder (vtpmo demo_tables 0x5000) (replicate 15 0) demo_machine
     = Inr (Some (a, ni), par', s')"
  by (rule finder_complete [OF demo_searchable demo_assumptions])

text \<open>
  C31 What \<open>syscall_table_finder\<close> hands to its caller: the table lies on a word of a mapped page from
  \<open>START\<close> on and matches the whole pattern, the second pointer is the value of its entry 134, and the
  free entries are the first 15 indices below 256 that hold this value, in order.
\<close>

theorem finder_sound:
  assumes "syscall_table_finder (vtpmo pt cr3) par s = Inr (Some (a, ni), par', s')"
  shows "table_pattern (read8 s) a
    \<and> (\<exists>m j. m < PAGES \<and> j < 512 \<and> a = START + 4096 * of_nat m + 8 * of_nat j
        \<and> vtpmo pt cr3 (START + 4096 * of_nat m) \<noteq> NO_MAP)
    \<and> read8 s (elem a FIRST_NI_SYSCALL) = Inr ni
    \<and> (let free = take 15 (filter (\<lambda>k. read8 s (elem a k) = Inr ni) [0..<256])
       in par' = map int free @ drop (length free) par)
    \<and> s' = s\<lparr>tbl_found := a, ni_found := ni\<rparr>"
  using assms by (rule finder_result)

theorem finder_sound_witness:
  "\<exists>a. table_pattern (read8 demo_machine) a
     \<and> (\<exists>m j. m < PAGES \<and> j < 512 \<and> a = START + 4096 * of_nat m + 8 * of_nat j)"
proof -
  obtain a ni par' s' where f: "syscall_table_finder (vtpmo demo_tables 0x5000) [] demo_machine
      = Inr (Some (a, ni), par', s')"
    using finder_finds [OF demo_searchable demo_assumptions] by blast
  show ?thesis using finder_sound [OF f] by blast
qed

theorem install_uninstall_witness:
  "\<exists>s'. install_syscall 0x1234 134 (demo_machine\<lparr>tbl_found := START, ni_found := 0xffffffff81000000\<rparr>)
     = Inr (SUCCESS, s')"
proof -
  let ?s = "demo_machine\<lparr>tbl_found := START, ni_found := 0xffffffff81000000\<rparr>"
  have "mem ?s (entry_addr ?s 134) = Some 0xffffffff81000000"
    by (simp add: demo_machine_def entry_addr_def elem_def)
  from install_uninstall [OF this, of "0x1234"] show ?thesis by auto
qed

text \<open>A page of one kernel address, followed by a page without a frame.\<close>

definition demo_last_page :: reader where
  "demo_last_page a = (if uint (a - START) < 4096 then Inr 0xffffffff81000000 else Inl PageFault)"

lemma demo_last_page_at: "m < 1024 \<Longrightarrow>
  demo_last_page (elem START m) = (if m < 512 then Inr 0xffffffff81000000 else Inl PageFault)"
proof -
  assume m: "m < 1024"
  have "elem START m - START = word_of_int (8 * int m)" by (simp add: elem_def)
  then have "uint (elem START m - START) = 8 * int m" using m uint_small [of "8 * int m"] by simp
  then show ?thesis by (simp add: demo_last_page_def)
qed

theorem validate_reads_past_probe_witness:
  "validate_page (\<lambda>_. 9) demo_last_page START = Inl PageFault"
proof (rule validate_reads_past_probe)
  show "page_start START" by (simp add: page_start_def START_def)
  show "START < 0xffffffff81000000" by (simp add: START_def)
  show "\<forall>m<512. demo_last_page (elem START m) = Inr 0xffffffff81000000" by (simp add: demo_last_page_at)
  show "\<forall>m. 512 \<le> m \<and> m < 1024 \<longrightarrow> demo_last_page (elem START m) = Inl PageFault"
    by (simp add: demo_last_page_at)
qed simp

end
