(* ===== verification/Module_Init.thy ===== *)
theory Module_Init
  imports Tag_Ctl Usctm
begin

text \<open>
  Mounting and unmounting the module: \<open>start\<close> and \<open>end\<close> of \<open>tag_service.c\<close>, \<open>init_device_driver\<close> and
  \<open>destroy_driver_and_all_devices\<close> of the driver.
\<close>

section \<open>The state around the module\<close>

text \<open>
  What a mount gets from the kernel: whether its two allocations succeed, the results of
  \<open>alloc_chrdev_region\<close> (with the major number it chooses) and of \<open>class_create\<close> (0, or the error in
  the pointer), and the addresses of the four handlers.
\<close>

record mount_env =
  zalloc_ok :: bool
  dm_alloc_ok :: bool
  region_result :: int
  region_major :: "32 word"
  class_result :: int
  handlers :: "64 word list"

text \<open>
  The state of the system calls, the machine, the globals of \<open>tag_service.c\<close> (addresses, 0 is NULL),
  and what the mount holds from the kernel: the array of services, the \<open>dev_manager\<close>, the class and
  the regions of device numbers, by their major.
\<close>

record module_state =
  kst :: kstate
  mach :: machine
  free_entry_array :: "int list"
  hacked_syscall_tbl :: "64 word"
  hacked_ni_syscall :: "64 word"
  sys_call_table_address :: "64 word"
  sys_ni_syscall_address :: "64 word"
  array_live :: bool
  dm_live :: bool
  class_live :: bool
  regions :: "32 word set"

definition MOUNT_SUCCESS :: int where [simp]: "MOUNT_SUCCESS = 0"
definition MOUNT_FAILURE :: int where [simp]: "MOUNT_FAILURE = -1"

section \<open>The driver's part\<close>

text \<open>
  The fresh \<open>dev_manager\<close>: no device is registered, its mutexes are not initialised yet, its content
  pointers hold garbage. When \<open>kmalloc\<close> failed there is nothing behind the pointer.
\<close>

definition fresh_dm :: "bool \<Rightarrow> kstate \<Rightarrow> kstate" where
  "fresh_dm good s =
     s\<lparr>dm := (dm s)\<lparr>cdev_added := (if good then replicate 512 False else []), device_lock := [],
       content := (if good then replicate 512 Dangling else [])\<rparr>\<rparr>"

definition set_major :: "32 word \<Rightarrow> kstate \<Rightarrow> kstate" where
  "set_major m s = s\<lparr>dm := (dm s)\<lparr>ts_major := m\<rparr>, tsm := (tsm s)\<lparr>major := m\<rparr>\<rparr>"

definition set_class :: "class_ptr \<Rightarrow> kstate \<Rightarrow> kstate" where
  "set_class c s = s\<lparr>dm := (dm s)\<lparr>ts_class := c\<rparr>\<rparr>"

definition init_device_locks :: "kstate \<Rightarrow> kstate" where
  "init_device_locks s =
     s\<lparr>dm := (dm s)\<lparr>device_lock := replicate (nat MAX_TAG_SERVICES) False\<rparr>\<rparr>"

definition init_device_driver :: "mount_env \<Rightarrow> module_state \<Rightarrow> (int \<times> module_state) outcome" where
  "init_device_driver me st =
     (let st = st\<lparr>kst := fresh_dm (dm_alloc_ok me) (kst st), dm_live := dm_alloc_ok me\<rparr> in
      if region_result me < 0 then Inr (region_result me, st)
      else
        let st = st\<lparr>kst := set_major (region_major me) (kst st),
              regions := insert (region_major me) (regions st)\<rparr> in
        if class_result me \<noteq> 0 then
          Inr (class_result me, st\<lparr>kst := set_class ClassErr (kst st),
            regions := regions st - {region_major me}\<rparr>)
        else if \<not> dm_alloc_ok me then Inl NullDeref
        else Inr (0, st\<lparr>kst := init_device_locks (set_class ClassOk (kst st)), class_live := True\<rparr>))"

fun destroy_loop :: "nat \<Rightarrow> nat \<Rightarrow> kstate \<Rightarrow> kstate outcome" where
  "destroy_loop i 0 s = Inr s"
| "destroy_loop i (Suc n) s =
     and_then (slot s (int i)) (\<lambda>p.
     and_then (if p \<noteq> None then ts_destroy_char_device_file (int i) s else Inr s) (\<lambda>s.
     destroy_loop (Suc i) n s))"

text \<open>\<open>class_destroy\<close> ignores an error pointer; unregistering a region that is not there does nothing.\<close>

definition destroy_driver_and_all_devices :: "module_state \<Rightarrow> module_state outcome" where
  "destroy_driver_and_all_devices st =
     and_then (destroy_loop 0 (nat MAX_TAG_SERVICES) (kst st)) (\<lambda>s.
     Inr (st\<lparr>kst := fresh_dm False s,
       class_live := (if ts_class (dm s) = ClassOk then False else class_live st),
       regions := regions st - {ts_major (dm s)}, dm_live := False\<rparr>))"

section \<open>Mounting\<close>

text \<open>The lines of the log read the table at the free entries 0 to 3.\<close>

fun print_entries :: "int \<Rightarrow> nat \<Rightarrow> module_state \<Rightarrow> unit outcome" where
  "print_entries k 0 st = Inr ()"
| "print_entries k (Suc n) st =
     and_then (arr_get (free_entry_array st) k) (\<lambda>i.
     and_then (read8 (mach st) (hacked_syscall_tbl st + 8 * of_int i)) (\<lambda>_.
     print_entries (k + 1) n st))"

fun install_all :: "int \<Rightarrow> 64 word list \<Rightarrow> module_state \<Rightarrow> module_state outcome" where
  "install_all k [] st = Inr st"
| "install_all k (f # fs) st =
     and_then (arr_get (free_entry_array st) k) (\<lambda>i.
     and_then (install_syscall f i (mach st)) (\<lambda>(_, m).
     install_all (k + 1) fs (st\<lparr>mach := m\<rparr>)))"

fun uninstall_all :: "int \<Rightarrow> 64 word list \<Rightarrow> module_state \<Rightarrow> module_state outcome" where
  "uninstall_all k [] st = Inr st"
| "uninstall_all k (f # fs) st =
     and_then (arr_get (free_entry_array st) k) (\<lambda>i.
     and_then (uninstall_syscall f i (mach st)) (\<lambda>(_, m).
     uninstall_all (k + 1) fs (st\<lparr>mach := m\<rparr>)))"

definition init_tsm :: "kstate \<Rightarrow> kstate" where
  "init_tsm s =
     s\<lparr>tsm := (tsm s)\<lparr>all_tag_services := replicate ARRAY_SLOTS None,
       access_lock := replicate (nat MAX_TAG_SERVICES) False,
       first_free_entry := 0, remaining_entries := of_int MAX_TAG_SERVICES\<rparr>\<rparr>"

definition start :: "(64 word \<Rightarrow> int) \<Rightarrow> mount_env \<Rightarrow> module_state \<Rightarrow> (int \<times> module_state) outcome" where
  "start probe me st =
     and_then (syscall_table_finder probe (free_entry_array st) (mach st)) (\<lambda>(r, par, m).
     let st = st\<lparr>mach := m, free_entry_array := par\<rparr>;
         st = (case r of None \<Rightarrow> st
                | Some (a, ni) \<Rightarrow> st\<lparr>hacked_syscall_tbl := a, hacked_ni_syscall := ni\<rparr>) in
     if hacked_syscall_tbl st = 0 then Inr (MOUNT_FAILURE, st)
     else if \<not> zalloc_ok me then Inr (MOUNT_FAILURE, st)
     else
       let st = st\<lparr>kst := init_tsm (kst st), array_live := True,
             sys_ni_syscall_address := hacked_ni_syscall st,
             sys_call_table_address := hacked_syscall_tbl st\<rparr> in
       and_then (print_entries 0 4 st) (\<lambda>_.
       and_then (install_all 0 (handlers me) st) (\<lambda>st.
       and_then (init_device_driver me st) (\<lambda>(_, st). Inr (MOUNT_SUCCESS, st)))))"

section \<open>Unmounting\<close>

fun free_level_messages :: "tag_service \<Rightarrow> nat \<Rightarrow> nat \<Rightarrow> nat \<Rightarrow> kstate \<Rightarrow> kstate outcome" where
  "free_level_messages t p lev 0 s = Inr s"
| "free_level_messages t p lev (Suc n) s =
     and_then (get_level t (int lev)) (\<lambda>_. free_level_messages t p (Suc lev) n (kfree (MessageObj p lev) s))"

fun free_services :: "nat \<Rightarrow> nat \<Rightarrow> kstate \<Rightarrow> kstate outcome" where
  "free_services i 0 s = Inr s"
| "free_services i (Suc n) s =
     and_then (slot s (int i)) (\<lambda>ptr.
     and_then (case ptr of
         None \<Rightarrow> Inr s
       | Some p \<Rightarrow>
           and_then (get_ts s p) (\<lambda>t.
           and_then (free_level_messages t p 0 (nat MAX_LEVELS) s) (\<lambda>s.
           Inr (free_ts p (kfree (LevelsObj p) s))))) (\<lambda>s.
     free_services (Suc i) n s))"

definition end_module :: "mount_env \<Rightarrow> module_state \<Rightarrow> module_state outcome" where
  "end_module me st =
     and_then (destroy_driver_and_all_devices st) (\<lambda>st.
     and_then (free_services 0 (nat MAX_TAG_SERVICES) (kst st)) (\<lambda>s.
     uninstall_all 0 (handlers me)
       (st\<lparr>kst := s\<lparr>tsm := (tsm s)\<lparr>all_tag_services := [], access_lock := []\<rparr>\<rparr>, array_live := False\<rparr>)))"

section \<open>The system call table\<close>

lemma wp_cleared: "\<not> bit (c AND NOT 0x10000 :: 64 word) 16"
proof -
  have "(0x10000 :: 64 word) = push_bit 16 1" by simp
  then show ?thesis by (simp only: bit_and_iff bit_not_iff bit_push_bit_iff) simp
qed

lemma entry_addr_elem: "entry_addr m (int i) = elem (tbl_found m) i"
  by (simp add: entry_addr_def elem_def)

lemma install_effect:
  "mem m (elem (tbl_found m) i) = Some (ni_found m) \<Longrightarrow> install_syscall f (int i) m =
     Inr (SUCCESS, m\<lparr>mem := (mem m)(elem (tbl_found m) i \<mapsto> f), cr0 := cr0_reg m\<rparr>)"
  using wp_cleared [of "cr0_reg m"]
  by (simp add: install_syscall_def read8_def write8_def Let_def
      unprotect_memory_def protect_memory_def write_cr0_forced_def entry_addr_def elem_def)

lemma uninstall_effect:
  "mem m (elem (tbl_found m) i) = Some f \<Longrightarrow> uninstall_syscall f (int i) m =
     Inr (SUCCESS, m\<lparr>mem := (mem m)(elem (tbl_found m) i \<mapsto> ni_found m), cr0 := cr0_reg m\<rparr>)"
  using wp_cleared [of "cr0_reg m"]
  by (simp add: uninstall_syscall_def read8_def write8_def Let_def
      unprotect_memory_def protect_memory_def write_cr0_forced_def entry_addr_def elem_def)

lemma drop_Cons_nth: "drop k xs = y # ys \<Longrightarrow> k < length xs \<and> xs ! k = y \<and> drop (Suc k) xs = ys"
  by (metis Cons_nth_drop_Suc drop_all leI list.distinct(1) list.inject)

lemma arr_get_drop: "drop k xs = y # ys \<Longrightarrow> arr_get xs (int k) = Inr y"
  using drop_Cons_nth [of k xs y ys] by (simp add: in_range_def)

lemma install_all_effect:
  assumes "length is = length fs" "distinct is" "\<forall>i \<in> set is. i < 1024"
    "\<forall>i \<in> set is. mem (mach st) (elem (tbl_found (mach st)) i) = Some (ni_found (mach st))"
    "drop k (free_entry_array st) = map int is @ rest"
  shows "\<exists>c. install_all (int k) fs st = Inr (st\<lparr>mach := (mach st)\<lparr>
    mem := (mem (mach st))(map (elem (tbl_found (mach st))) is [\<mapsto>] fs), cr0 := c\<rparr>\<rparr>)"
  using assms
proof (induction fs arbitrary: "is" k st)
  case Nil
  then show ?case by (auto intro!: exI [of _ "cr0 (mach st)"])
next
  case (Cons f fs)
  let ?m = "mach st" and ?a = "tbl_found (mach st)"
  obtain i js where ij: "is = i # js" using Cons.prems(1) by (cases "is") auto
  let ?m' = "?m\<lparr>mem := (mem ?m)(elem ?a i \<mapsto> f), cr0 := cr0_reg ?m\<rparr>"
  let ?st = "st\<lparr>mach := ?m'\<rparr>"
  have d: "drop k (free_entry_array st) = int i # map int js @ rest" using Cons.prems(5) ij by simp
  have other: "elem ?a j \<noteq> elem ?a i" if "j \<in> set js" for j
    using that Cons.prems(2,3) ij elem_inj [of j i ?a] by auto
  have "install_syscall f (int i) ?m = Inr (SUCCESS, ?m')" using Cons.prems(4) ij by (intro install_effect) simp
  then have "install_all (int k) (f # fs) st = install_all (int (Suc k)) fs ?st"
    using arr_get_drop [OF d] by (simp add: add.commute)
  moreover have "\<exists>c. install_all (int (Suc k)) fs ?st = Inr (?st\<lparr>mach := (mach ?st)\<lparr>
      mem := (mem (mach ?st))(map (elem (tbl_found (mach ?st))) js [\<mapsto>] fs), cr0 := c\<rparr>\<rparr>)"
    using Cons.prems ij drop_Cons_nth [OF d] other by (intro Cons.IH) auto
  ultimately show ?case using ij by simp
qed

lemma uninstall_all_effect:
  assumes "distinct is" "\<forall>i \<in> set is. i < 1024"
    "list_all2 (\<lambda>i f. mem (mach st) (elem (tbl_found (mach st)) i) = Some f) is fs"
    "drop k (free_entry_array st) = map int is @ rest"
  shows "\<exists>c. uninstall_all (int k) fs st = Inr (st\<lparr>mach := (mach st)\<lparr>
    mem := (mem (mach st))(map (elem (tbl_found (mach st))) is [\<mapsto>] replicate (length is) (ni_found (mach st))),
    cr0 := c\<rparr>\<rparr>)"
  using assms
proof (induction fs arbitrary: "is" k st)
  case Nil
  then show ?case by (auto intro!: exI [of _ "cr0 (mach st)"])
next
  case (Cons f fs)
  let ?m = "mach st" and ?a = "tbl_found (mach st)"
  obtain i js where ij: "is = i # js" using Cons.prems(3) by (cases "is") auto
  let ?m' = "?m\<lparr>mem := (mem ?m)(elem ?a i \<mapsto> ni_found ?m), cr0 := cr0_reg ?m\<rparr>"
  let ?st = "st\<lparr>mach := ?m'\<rparr>"
  have d: "drop k (free_entry_array st) = int i # map int js @ rest" using Cons.prems(4) ij by simp
  have other: "elem ?a j \<noteq> elem ?a i" if "j \<in> set js" for j
    using that Cons.prems(1,2) ij elem_inj [of j i ?a] by auto
  have rest: "list_all2 (\<lambda>i f. mem (mach ?st) (elem (tbl_found (mach ?st)) i) = Some f) js fs"
    using Cons.prems(3) ij other by (auto elim!: list.rel_mono_strong)
  have "uninstall_syscall f (int i) ?m = Inr (SUCCESS, ?m')" using Cons.prems(3) ij by (intro uninstall_effect) simp
  then have "uninstall_all (int k) (f # fs) st = uninstall_all (int (Suc k)) fs ?st"
    using arr_get_drop [OF d] by (simp add: add.commute)
  moreover have "\<exists>c. uninstall_all (int (Suc k)) fs ?st = Inr (?st\<lparr>mach := (mach ?st)\<lparr>
      mem := (mem (mach ?st))(map (elem (tbl_found (mach ?st))) js [\<mapsto>] replicate (length js) (ni_found (mach ?st))),
      cr0 := c\<rparr>\<rparr>)"
    using Cons.prems ij drop_Cons_nth [OF d] rest by (intro Cons.IH) auto
  ultimately show ?case using ij by simp
qed

text \<open>Writing one value everywhere hides what was written before.\<close>

lemma map_upds_replicate:
  "(mm(xs [\<mapsto>] replicate (length xs) v)) x = (if x \<in> set xs then Some v else mm x)"
  by (induction xs arbitrary: mm) auto

lemma restored:
  assumes "\<forall>x \<in> set xs. mm x = Some v" "length fs = length xs"
  shows "(mm(xs [\<mapsto>] fs))(xs [\<mapsto>] replicate (length xs) v) = mm"
  using assms by (intro ext) (auto simp: map_upds_replicate map_upds_apply_nontin)

lemma map_upds_all2:
  assumes "length fs = length xs" "distinct xs"
  shows "list_all2 (\<lambda>x f. (mm(xs [\<mapsto>] fs)) x = Some f) xs fs"
  using assms
proof (induction xs arbitrary: fs mm)
  case (Cons x xs)
  then obtain g gs where g: "fs = g # gs" "length gs = length xs" by (cases fs) auto
  then show ?case using Cons.IH [of gs "mm(x \<mapsto> g)"] Cons.prems
    by (simp add: map_upds_apply_nontin del: fun_upd_apply) simp
qed simp

section \<open>The devices and the services\<close>

lemma get_content_other: "0 \<le> i \<Longrightarrow> j \<noteq> i \<Longrightarrow> get_content (set_content i c s) j = get_content s j"
proof (cases "in_range (content (dm s)) j")
  case True
  assume "0 \<le> i" "j \<noteq> i"
  then have "nat i \<noteq> nat j" using True by (auto simp: in_range_def)
  then show ?thesis using True by (simp add: get_content_def set_content_def)
qed (simp add: get_content_def set_content_def)

lemma destroy_keeps_content:
  assumes "ts_destroy_char_device_file i s = Inr s'" "0 \<le> i" "j \<noteq> i"
  shows "get_content s' j = get_content s j"
proof -
  have c: "content (dm s2) = content (dm s1) \<Longrightarrow> get_content s2 k = get_content s1 k" for s1 s2 k
    by (simp add: get_content_def)
  obtain s1 where s1: "dev_lock i s = Inr s1"
    "dev_unlock i (set_content i Dangling (set_cdev i False s1)) = Inr s'"
    using assms(1) by (auto simp: ts_destroy_char_device_file_def Let_def elim!: and_then_InrE split: if_splits)
  have "get_content s' j = get_content (set_content i Dangling (set_cdev i False s1)) j"
    using s1(2) by (intro c) (auto simp: dev_unlock_def elim!: and_then_InrE)
  also have "\<dots> = get_content (set_cdev i False s1) j"
    using assms(2,3) by (rule get_content_other)
  also have "\<dots> = get_content s j"
    using s1(1) by (intro c) (auto simp: dev_lock_def set_cdev_def elim!: and_then_InrE)
  finally show ?thesis .
qed

text \<open>Every service has its device.\<close>

definition devices_ready :: "nat \<Rightarrow> kstate \<Rightarrow> bool" where
  "devices_ready i s \<longleftrightarrow> (\<forall>j. i \<le> j \<and> j < 512 \<and> entry s j \<noteq> None \<longrightarrow> ok (get_content s (int j)))"

lemma destroy_loop_ok:
  assumes "table_wf s" "driver_wf s" "\<forall>j. \<not> dev_held s j" "devices_ready i s" "i + n = 512"
  shows "\<exists>s'. destroy_loop i n s = Inr s' \<and> core s' = core s \<and> driver_wf s' \<and> ts_major (dm s') = ts_major (dm s)"
  using assms
proof (induction n arbitrary: i s)
  case (Suc n)
  have sl: "slot s (int i) = Inr (entry s i)" using slot_entry [of s "int i"] Suc.prems(1,5) by simp
  show ?case
  proof (cases "entry s i = None")
    case True
    have "\<exists>s'. destroy_loop (Suc i) n s = Inr s' \<and> core s' = core s \<and> driver_wf s' \<and> ts_major (dm s') = ts_major (dm s)"
      using Suc.prems by (intro Suc.IH) (auto simp: devices_ready_def)
    then show ?thesis using sl True by simp
  next
    case False
    then obtain b where "get_content s (int i) = Inr b"
      using Suc.prems(4,5) by (auto simp: devices_ready_def ok_iff)
    moreover have "i < 512" "\<not> dev_held s (int i)" using Suc.prems by auto
    ultimately obtain s1 where s1: "ts_destroy_char_device_file (int i) s = Inr s1" "core s1 = core s"
      "driver_wf s1" "dev_held s1 = dev_held s"
      using destroy_device_ok [OF Suc.prems(2)] by metis
    have m: "ts_major (dm s1) = ts_major (dm s)"
      using s1(1) by (auto simp: ts_destroy_char_device_file_def Let_def dev_lock_def dev_unlock_def
          set_content_def set_cdev_def elim!: and_then_InrE split: if_splits)
    have "\<exists>s'. destroy_loop (Suc i) n s1 = Inr s' \<and> core s' = core s1 \<and> driver_wf s' \<and> ts_major (dm s') = ts_major (dm s1)"
    proof (rule Suc.IH)
      show "table_wf s1" using Suc.prems(1) s1(2) core_eqD(1) [OF s1(2)] entry_core [OF s1(2)]
        by (simp add: table_wf_def)
      show "devices_ready (Suc i) s1"
        using Suc.prems(4) entry_core [OF s1(2)] destroy_keeps_content [OF s1(1)]
        by (auto simp: devices_ready_def)
    qed (use Suc.prems s1 in auto)
    then show ?thesis using sl False s1 m by auto
  qed
qed auto

definition service_objs :: "nat \<Rightarrow> kobj set" where
  "service_objs p = {TsObj p, LevelsObj p} \<union> MessageObj p ` {..<32}"

definition mounted_from :: "nat \<Rightarrow> kstate \<Rightarrow> nat set" where
  "mounted_from i s = {p. \<exists>j. i \<le> j \<and> j < 512 \<and> entry s j = Some p}"

lemma free_level_messages_ok:
  "length (level t) = 32 \<Longrightarrow> lev + n = 32 \<Longrightarrow>
   free_level_messages t p lev n s = Inr (s\<lparr>live := live s - MessageObj p ` {lev..<32}\<rparr>)"
proof (induction n arbitrary: lev s)
  case (Suc n)
  have "{lev..<32} = insert lev {Suc lev..<32}" using Suc.prems by auto
  then have "live s - {MessageObj p lev} - MessageObj p ` {Suc lev..<32} = live s - MessageObj p ` {lev..<32}"
    by auto
  then show ?case using Suc by (simp add: get_level_def in_range_def kfree_def)
qed simp

lemma free_one_service:
  assumes "heap s p = Some t" "length (level t) = 32"
  shows "and_then (get_ts s p) (\<lambda>t. and_then (free_level_messages t p 0 (nat MAX_LEVELS) s)
      (\<lambda>s. Inr (free_ts p (kfree (LevelsObj p) s))))
    = Inr (s\<lparr>heap := (heap s)(p := None), live := live s - service_objs p\<rparr>)"
proof -
  have "live s - MessageObj p ` {0..<32} - {LevelsObj p} - {TsObj p} = live s - service_objs p"
    by (auto simp: service_objs_def)
  then show ?thesis
    using assms free_level_messages_ok [of t 0 32 p s] by (simp add: get_ts_def free_ts_def kfree_def)
qed

lemma mounted_from_Suc:
  "i < 512 \<Longrightarrow> mounted_from i s = (case entry s i of None \<Rightarrow> {} | Some p \<Rightarrow> {p}) \<union> mounted_from (Suc i) s"
proof -
  assume i: "i < 512"
  have split_le: "(i \<le> j) = (j = i \<or> Suc i \<le> j)" for j by auto
  show ?thesis unfolding mounted_from_def split_le using i by (auto split: option.split)
qed

lemma free_services_ok:
  assumes "table_wf s" "i + n = 512"
    "\<forall>p \<in> mounted_from i s. \<exists>t. heap s p = Some t \<and> length (level t) = 32"
    "\<forall>j k p. j < 512 \<and> k < 512 \<and> entry s j = Some p \<and> entry s k = Some p \<longrightarrow> j = k"
  shows "free_services i n s = Inr (s\<lparr>heap := heap s |` (- mounted_from i s),
      live := live s - (\<Union>p \<in> mounted_from i s. service_objs p)\<rparr>)"
  using assms
proof (induction n arbitrary: i s)
  case 0
  then have "mounted_from i s = {}" by (simp add: mounted_from_def)
  then show ?case by simp
next
  case (Suc n)
  have sl: "slot s (int i) = Inr (entry s i)" using slot_entry [of s "int i"] Suc.prems(1,2) by simp
  note mf = mounted_from_Suc [of i s]
  show ?case
  proof (cases "entry s i")
    case None
    then have "mounted_from i s = mounted_from (Suc i) s" using mf Suc.prems by simp
    then show ?thesis using Suc.IH [of s "Suc i"] Suc.prems sl None by simp
  next
    case (Some p)
    let ?s = "s\<lparr>heap := (heap s)(p := None), live := live s - service_objs p\<rparr>"
    have m: "mounted_from i s = insert p (mounted_from (Suc i) s)" using mf Suc.prems Some by simp
    have np: "p \<notin> mounted_from (Suc i) s"
    proof
      assume "p \<in> mounted_from (Suc i) s"
      then obtain j where j: "Suc i \<le> j" "j < 512" "entry s j = Some p" by (auto simp: mounted_from_def)
      then have "j = i" using Suc.prems(2,4) Some by auto
      then show False using j(1) by simp
    qed
    have e: "entry ?s = entry s" "mounted_from (Suc i) ?s = mounted_from (Suc i) s"
      by (simp_all add: mounted_from_def)
    obtain t where t: "heap s p = Some t" "length (level t) = 32" using Suc.prems(3) m by auto
    have "free_services i (Suc n) s = free_services (Suc i) n ?s"
      using sl Some free_one_service [OF t] by simp
    also have "\<dots> = Inr (?s\<lparr>heap := heap ?s |` (- mounted_from (Suc i) ?s),
        live := live ?s - (\<Union>p \<in> mounted_from (Suc i) ?s. service_objs p)\<rparr>)"
    proof (rule Suc.IH)
      show "table_wf ?s" "Suc i + n = 512" using Suc.prems(1,2) by (simp_all add: table_wf_def)
      show "\<forall>p \<in> mounted_from (Suc i) ?s. \<exists>t. heap ?s p = Some t \<and> length (level t) = 32"
        using Suc.prems(3) m np unfolding e(2) by auto
      show "\<forall>j k p. j < 512 \<and> k < 512 \<and> entry ?s j = Some p \<and> entry ?s k = Some p \<longrightarrow> j = k"
        using Suc.prems(4) unfolding e(1) .
    qed
    also have "\<dots> = Inr (s\<lparr>heap := heap s |` (- mounted_from i s),
        live := live s - (\<Union>p \<in> mounted_from i s. service_objs p)\<rparr>)"
    proof -
      have "((heap s)(p := None)) |` (- mounted_from (Suc i) s) = heap s |` (- mounted_from i s)"
        unfolding m by (auto simp: restrict_map_def fun_eq_iff)
      moreover have "live s - service_objs p - (\<Union>p \<in> mounted_from (Suc i) s. service_objs p)
          = live s - (\<Union>p \<in> mounted_from i s. service_objs p)" unfolding m by auto
      ultimately show ?thesis unfolding e(2) by simp
    qed
    finally show ?thesis .
  qed
qed

section \<open>What unmounting does\<close>

text \<open>
  The handlers sit in the entries \<open>is\<close> of the table, which are the first four of \<open>free_entry_array\<close>.
\<close>

definition hooked :: "mount_env \<Rightarrow> nat list \<Rightarrow> module_state \<Rightarrow> bool" where
  "hooked me is st \<longleftrightarrow> length is = 4 \<and> distinct is \<and> (\<forall>i \<in> set is. i < 1024)
     \<and> take 4 (free_entry_array st) = map int is
     \<and> list_all2 (\<lambda>i f. mem (mach st) (elem (tbl_found (mach st)) i) = Some f) is (handlers me)"

definition mounted :: "module_state \<Rightarrow> bool" where
  "mounted st \<longleftrightarrow> module_ok (kst st) \<and> driver_wf (kst st) \<and> (\<forall>j. \<not> dev_held (kst st) j)
     \<and> devices_ready 0 (kst st)"

lemma end_module_result:
  assumes m: "mounted st" and h: "hooked me is st"
  shows "\<exists>st'. end_module me st = Inr st' \<and> cr0_reg (mach st') = cr0_reg (mach st)
    \<and> mem (mach st') = (mem (mach st))(map (elem (tbl_found (mach st))) is [\<mapsto>] replicate 4 (ni_found (mach st)))
    \<and> heap (kst st') = heap (kst st) |` (- mounted_from 0 (kst st))
    \<and> live (kst st') = live (kst st) - (\<Union>p \<in> mounted_from 0 (kst st). service_objs p)
    \<and> \<not> array_live st' \<and> \<not> dm_live st' \<and> \<not> class_live st'
    \<and> regions st' = regions st - {ts_major (dm (kst st))}"
proof -
  let ?s = "kst st"
  have wf: "table_wf ?s" "entries_ok ?s" "driver_wf ?s" using m by (simp_all add: mounted_def module_ok_def)
  obtain s1 where s1: "destroy_loop 0 512 ?s = Inr s1" "core s1 = core ?s" "driver_wf s1"
    "ts_major (dm s1) = ts_major (dm ?s)"
    using destroy_loop_ok [OF wf(1,3), of 0 512] m by (auto simp: mounted_def)
  let ?s2 = "fresh_dm False s1"
  have e: "entry ?s2 = entry ?s" "heap ?s2 = heap ?s" "live ?s2 = live ?s" "tsm ?s2 = tsm ?s"
    using core_eqD(1-3) [OF s1(2)] entry_core [OF s1(2)] by (simp_all add: fresh_dm_def)
  then have mf: "mounted_from 0 ?s2 = mounted_from 0 ?s" by (simp add: mounted_from_def)
  have c: "ts_class (dm s1) = ClassOk" using s1(3) by (simp add: driver_wf_def)
  let ?s3 = "?s2\<lparr>heap := heap ?s |` (- mounted_from 0 ?s),
      live := live ?s - (\<Union>p \<in> mounted_from 0 ?s. service_objs p)\<rparr>"
  have f: "free_services 0 512 ?s2 = Inr ?s3"
  proof -
    have "\<exists>t. heap ?s p = Some t \<and> length (level t) = 32" if "p \<in> mounted_from 0 ?s" for p
      using that wf(2) by (fastforce simp: mounted_from_def entries_ok_def ts_wf_def)
    moreover have "table_wf ?s2" using wf(1) e by (simp add: table_wf_def)
    ultimately show ?thesis
      using free_services_ok [of ?s2 0 512] entries_distinct [OF wf(2)] unfolding e mf by simp
  qed
  have d: "destroy_driver_and_all_devices st = Inr (st\<lparr>kst := ?s2, class_live := False,
      regions := regions st - {ts_major (dm ?s)}, dm_live := False\<rparr>)"
    using s1 c by (simp add: destroy_driver_and_all_devices_def)
  let ?st = "st\<lparr>class_live := False, regions := regions st - {ts_major (dm ?s)}, dm_live := False,
      kst := ?s3\<lparr>tsm := (tsm ?s3)\<lparr>all_tag_services := [], access_lock := []\<rparr>\<rparr>, array_live := False\<rparr>"
  have "end_module me st = uninstall_all (int 0) (handlers me) ?st"
    using d f by (simp add: end_module_def)
  moreover obtain c where "uninstall_all (int 0) (handlers me) ?st = Inr (?st\<lparr>mach := (mach ?st)\<lparr>
      mem := (mem (mach ?st))(map (elem (tbl_found (mach ?st))) is [\<mapsto>] replicate (length is) (ni_found (mach ?st))),
      cr0 := c\<rparr>\<rparr>)"
  proof -
    have "drop 0 (free_entry_array ?st) = map int is @ drop 4 (free_entry_array st)"
      using h append_take_drop_id [of 4 "free_entry_array st"] by (simp add: hooked_def)
    from uninstall_all_effect [OF _ _ _ this] show thesis using h that unfolding hooked_def by auto
  qed
  moreover have "length is = 4" using h by (simp add: hooked_def)
  ultimately show ?thesis by simp
qed

section \<open>What mounting does\<close>

text \<open>The module as it is loaded: all globals are zero.\<close>

definition unloaded :: "machine \<Rightarrow> module_state" where
  "unloaded m =
     \<lparr>kst = \<lparr>tsm = \<lparr>first_free_entry = 0, remaining_entries = 0, access_lock = [], major = 0,
          all_tag_services = []\<rparr>,
        heap = Map.empty, live = {}, next_addr = 0, rcu_readers = {}, rcu_queue = [],
        dm = \<lparr>ts_class = ClassNull, ts_major = 0, cdev_added = [], device_lock = [], content = []\<rparr>,
        module_refs = 0\<rparr>,
      mach = m, free_entry_array = replicate MAX_FREE 0, hacked_syscall_tbl = 0, hacked_ni_syscall = 0,
      sys_call_table_address = 0, sys_ni_syscall_address = 0, array_live = False, dm_live = False,
      class_live = False, regions = {}\<rparr>"

lemma free_entries_found:
  assumes "table_pattern rd a" "rd (elem a FIRST_NI_SYSCALL) = Inr ni"
  defines "free \<equiv> take 15 (filter (\<lambda>k. rd (elem a k) = Inr ni) [0..<256])"
  shows "4 \<le> length free" "distinct free" "\<forall>i \<in> set free. i < 256 \<and> rd (elem a i) = Inr ni"
proof -
  let ?f = "filter (\<lambda>k. rd (elem a k) = Inr ni) [0..<256]"
  have "{134, 174, 182, 183} \<subseteq> set ?f"
    using assms(1,2) by (auto simp: table_pattern_def NI_ENTRIES_def)
  from card_mono [OF _ this] have "4 \<le> card (set ?f)" by simp
  then have "4 \<le> length ?f" using card_length [of ?f] by linarith
  then show "4 \<le> length free" by (simp add: free_def)
  show "distinct free" by (simp add: free_def)
  show "\<forall>i \<in> set free. i < 256 \<and> rd (elem a i) = Inr ni"
    using set_take_subset [of 15 ?f] by (auto simp: free_def)
qed

lemma table_not_null:
  assumes "m < PAGES" "j < 512" shows "START + 4096 * of_nat m + 8 * of_nat j \<noteq> 0"
proof -
  have e: "START + 4096 * of_nat m + 8 * of_nat j = word_of_int (0xffffffff00000000 + 4096 * int m + 8 * int j)"
    by (simp add: START_def)
  have "uint (START + 4096 * of_nat m + 8 * of_nat j) = 0xffffffff00000000 + 4096 * int m + 8 * int j"
    unfolding e using assms by (intro uint_small) (auto simp: PAGES_eq)
  then show ?thesis by auto
qed

lemma print_entries_ok:
  assumes "drop k (free_entry_array st) = map int is @ rest" "n = length is"
    "\<forall>i \<in> set is. ok (read8 (mach st) (elem (hacked_syscall_tbl st) i))"
  shows "print_entries (int k) n st = Inr ()"
  using assms
proof (induction n arbitrary: k "is")
  case (Suc n)
  obtain i js where ij: "is = i # js" using Suc.prems(2) by (cases "is") auto
  then have d: "drop k (free_entry_array st) = int i # map int js @ rest" using Suc.prems(1) by simp
  have "print_entries (int (Suc k)) n st = Inr ()"
    using drop_Cons_nth [OF d] Suc.prems ij by (intro Suc.IH [of "Suc k" js]) auto
  then show ?case using arr_get_drop [OF d] Suc.prems(3) ij by (auto simp: ok_iff elem_def add.commute)
qed simp

text \<open>The first four entries of the table that hold \<open>sys_ni_syscall\<close>.\<close>

definition first_free :: "machine \<Rightarrow> 64 word \<Rightarrow> 64 word \<Rightarrow> nat list" where
  "first_free m a ni = take 4 (filter (\<lambda>k. read8 m (elem a k) = Inr ni) [0..<256])"

text \<open>Up to the initialisation of the driver, whose result \<open>start\<close> ignores.\<close>

lemma start_until_driver:
  assumes f: "syscall_table_finder (vtpmo pt cr3) (replicate MAX_FREE 0) m = Inr (Some (a, ni), par, m')"
    and z: "zalloc_ok me" "length (handlers me) = 4"
  shows "\<exists>is st1. start (vtpmo pt cr3) me (unloaded m) =
      and_then (init_device_driver me st1) (\<lambda>(_, st). Inr (MOUNT_SUCCESS, st))
    \<and> kst st1 = init_tsm (kst (unloaded m)) \<and> hooked me is st1 \<and> tbl_found (mach st1) = a \<and> ni_found (mach st1) = ni
    \<and> is = first_free m a ni \<and> (\<forall>i \<in> set is. mem m (elem a i) = Some ni)
    \<and> mem (mach st1) = (mem m)(map (elem a) is [\<mapsto>] handlers me) \<and> cr0_reg (mach st1) = cr0_reg m
    \<and> regions st1 = {} \<and> free_entry_array st1 = par"
proof -
  note F = finder_result [OF f]
  define free where "free = take 15 (filter (\<lambda>k. read8 m (elem a k) = Inr ni) [0..<256])"
  note free = free_entries_found [OF conjunct1 [OF F], of ni, folded free_def]
  have F2: "read8 m (elem a FIRST_NI_SYSCALL) = Inr ni" "par = map int free @ drop (length free) (replicate 15 0)"
    "m' = m\<lparr>tbl_found := a, ni_found := ni\<rparr>" "a \<noteq> 0"
    using F table_not_null by (auto simp: free_def Let_def)
  note free = free [OF F2(1)]
  define "is" where "is = take 4 free"
  have ff: "is = first_free m a ni" by (simp add: is_def free_def first_free_def)
  have i4: "length is = 4" "distinct is" "\<forall>i \<in> set is. i < 1024 \<and> mem m (elem a i) = Some ni"
    using free set_take_subset [of 4 free] by (fastforce simp: is_def read8_def split: option.splits)+
  define st0 where "st0 = (unloaded m)\<lparr>mach := m', free_entry_array := par, hacked_syscall_tbl := a,
    hacked_ni_syscall := ni, kst := init_tsm (kst (unloaded m)), array_live := True,
    sys_ni_syscall_address := ni, sys_call_table_address := a\<rparr>"
  have d: "drop 0 (free_entry_array st0) = map int is @ map int (drop 4 free) @ drop (length free) (replicate 15 0)"
    by (simp add: st0_def F2(2) is_def flip: map_append append_assoc)
  have "print_entries 0 4 st0 = Inr ()"
    using print_entries_ok [OF d, of 4] i4 by (auto simp: st0_def F2(3) read8_def)
  moreover obtain c where c: "install_all 0 (handlers me) st0 = Inr (st0\<lparr>mach := (mach st0)\<lparr>
    mem := (mem (mach st0))(map (elem (tbl_found (mach st0))) is [\<mapsto>] handlers me), cr0 := c\<rparr>\<rparr>)"
    using install_all_effect [OF _ _ _ _ d, of "handlers me"] i4 z(2) by (auto simp: st0_def F2(3))
  let ?st1 = "st0\<lparr>mach := (mach st0)\<lparr>
    mem := (mem (mach st0))(map (elem (tbl_found (mach st0))) is [\<mapsto>] handlers me), cr0 := c\<rparr>\<rparr>"
  have "start (vtpmo pt cr3) me (unloaded m) =
      and_then (init_device_driver me ?st1) (\<lambda>(_, st). Inr (MOUNT_SUCCESS, st))"
  proof -
    have "start (vtpmo pt cr3) me (unloaded m) = and_then (print_entries 0 4 st0) (\<lambda>_.
       and_then (install_all 0 (handlers me) st0) (\<lambda>st.
       and_then (init_device_driver me st) (\<lambda>(_, st). Inr (MOUNT_SUCCESS, st))))"
      using f F2(4) z(1) by (simp add: start_def st0_def unloaded_def Let_def)
    then show ?thesis using c calculation by simp
  qed
  moreover have "hooked me is ?st1"
  proof -
    have "list_all2 (\<lambda>x f. ((mem m)(map (elem a) is [\<mapsto>] handlers me)) x = Some f) (map (elem a) is) (handlers me)"
      using i4 elem_inj [of _ _ a] by (intro map_upds_all2) (auto simp: z(2) distinct_map inj_on_def)
    then show ?thesis using i4 d by (simp add: hooked_def st0_def F2(3) list_all2_map1)
  qed
  ultimately show ?thesis using i4 ff by (intro exI [of _ "is"] exI [of _ ?st1]) (simp add: st0_def F2(3) unloaded_def)
qed

lemma init_tsm_unloaded: "tsm (init_tsm (kst (unloaded m))) =
    \<lparr>first_free_entry = 0, remaining_entries = 512, access_lock = replicate 512 False, major = 0,
     all_tag_services = replicate ARRAY_SLOTS None\<rparr>"
  by (simp add: init_tsm_def unloaded_def)

lemma driver_ready:
  assumes "dm_alloc_ok me" "region_result me = 0" "class_result me = 0" "kst st = init_tsm (kst (unloaded m))"
  shows "init_device_driver me st = Inr (0, st\<lparr>kst := booted (region_major me), dm_live := True,
    regions := insert (region_major me) (regions st), class_live := True\<rparr>)"
proof -
  have "init_device_locks (set_class ClassOk (set_major (region_major me) (fresh_dm True (init_tsm (kst (unloaded m))))))
      = booted (region_major me)"
    by (simp add: init_device_locks_def set_class_def set_major_def fresh_dm_def init_tsm_def unloaded_def booted_def)
  then show ?thesis using assms by (simp add: init_device_driver_def Let_def)
qed

lemma booted_mounted: "kst st = booted w \<Longrightarrow> mounted st"
  using booted_quiet [of w] by (auto simp: mounted_def quiet_def devices_ready_def booted_entry)

definition mount_ok :: "mount_env \<Rightarrow> bool" where
  "mount_ok me \<longleftrightarrow> zalloc_ok me \<and> dm_alloc_ok me \<and> region_result me = 0 \<and> class_result me = 0
     \<and> length (handlers me) = 4"

lemma start_result:
  assumes "syscall_table_finder (vtpmo pt cr3) (replicate MAX_FREE 0) m = Inr (Some (a, ni), par, m')" "mount_ok me"
  shows "\<exists>is st. start (vtpmo pt cr3) me (unloaded m) = Inr (MOUNT_SUCCESS, st)
    \<and> kst st = booted (region_major me) \<and> regions st = {region_major me} \<and> hooked me is st
    \<and> is = first_free m a ni \<and> (\<forall>i \<in> set is. mem m (elem a i) = Some ni)
    \<and> mem (mach st) = (mem m)(map (elem a) is [\<mapsto>] handlers me) \<and> cr0_reg (mach st) = cr0_reg m
    \<and> tbl_found (mach st) = a \<and> ni_found (mach st) = ni \<and> free_entry_array st = par"
proof -
  have z: "zalloc_ok me" "length (handlers me) = 4" using assms(2) by (simp_all add: mount_ok_def)
  obtain "is" st1 where s: "start (vtpmo pt cr3) me (unloaded m) =
      and_then (init_device_driver me st1) (\<lambda>(_, st). Inr (MOUNT_SUCCESS, st))"
    "kst st1 = init_tsm (kst (unloaded m))" "hooked me is st1" "tbl_found (mach st1) = a" "ni_found (mach st1) = ni"
    "is = first_free m a ni" "\<forall>i \<in> set is. mem m (elem a i) = Some ni"
    "mem (mach st1) = (mem m)(map (elem a) is [\<mapsto>] handlers me)" "cr0_reg (mach st1) = cr0_reg m" "regions st1 = {}"
    "free_entry_array st1 = par"
    using start_until_driver [OF assms(1) z] by blast
  have "init_device_driver me st1 = Inr (0, st1\<lparr>kst := booted (region_major me), dm_live := True,
    regions := insert (region_major me) (regions st1), class_live := True\<rparr>)"
    using assms(2) s(2) by (intro driver_ready) (simp_all add: mount_ok_def)
  then show ?thesis using s by (intro exI [of _ "is"]) (simp add: hooked_def)
qed

text \<open>
  C35 A mount where everything succeeds leaves the state that all statements about the system calls start
  from: an empty table of 512 free entries with unlocked mutexes and a driver without devices. The
  four handlers, in their order, are in the first four entries of the system call table that held
  \<open>sys_ni_syscall\<close> (no earlier one of the 256 entries searched does); no other word of memory and no bit
  of the register \<open>cr0\<close> has changed.
\<close>

theorem start_mounts:
  assumes "syscall_table_finder (vtpmo pt cr3) (replicate MAX_FREE 0) m = Inr (Some (a, ni), par, m')" "mount_ok me"
  shows "\<exists>is st. start (vtpmo pt cr3) me (unloaded m) = Inr (MOUNT_SUCCESS, st)
    \<and> kst st = booted (region_major me) \<and> regions st = {region_major me} \<and> hooked me is st
    \<and> is = first_free m a ni \<and> (\<forall>i \<in> set is. mem m (elem a i) = Some ni)
    \<and> mem (mach st) = (mem m)(map (elem a) is [\<mapsto>] handlers me) \<and> cr0_reg (mach st) = cr0_reg m"
  using start_result [OF assms] by blast

definition demo_mount :: mount_env where
  "demo_mount = \<lparr>zalloc_ok = True, dm_alloc_ok = True, region_result = 0, region_major = 240, class_result = 0,
     handlers = [0xffffffffc0001000, 0xffffffffc0002000, 0xffffffffc0003000, 0xffffffffc0004000]\<rparr>"

lemma demo_mount_ok: "mount_ok demo_mount"
  by (simp add: mount_ok_def demo_mount_def)

theorem start_mounts_witness:
  "\<exists>st. start (vtpmo demo_tables 0x5000) demo_mount (unloaded demo_machine) = Inr (MOUNT_SUCCESS, st)
     \<and> kst st = booted 240"
proof -
  obtain a ni par m' where f: "syscall_table_finder (vtpmo demo_tables 0x5000) (replicate MAX_FREE 0) demo_machine
      = Inr (Some (a, ni), par, m')"
    using finder_finds [OF demo_searchable demo_assumptions] by blast
  from start_mounts [OF f demo_mount_ok] show ?thesis by (auto simp: demo_mount_def)
qed

text \<open>
  C36 Unmounting a well-formed module always gets to its end and takes back everything that belongs to
  the services it finds (struct, levels, messages), the array, the devices, the class and the device
  numbers, and puts \<open>sys_ni_syscall\<close> back into its four entries. What earlier removals left
  allocated stays allocated.
\<close>

theorem end_unmounts:
  assumes "mounted st" "hooked me is st"
  shows "\<exists>st'. end_module me st = Inr st'
    \<and> mem (mach st') = (mem (mach st))(map (elem (tbl_found (mach st))) is [\<mapsto>] replicate 4 (ni_found (mach st)))
    \<and> heap (kst st') = heap (kst st) |` (- mounted_from 0 (kst st))
    \<and> live (kst st') = live (kst st) - (\<Union>p \<in> mounted_from 0 (kst st). service_objs p)
    \<and> \<not> array_live st' \<and> \<not> dm_live st' \<and> \<not> class_live st'
    \<and> regions st' = regions st - {ts_major (dm (kst st))}"
  using end_module_result [OF assms] by blast

theorem end_unmounts_witness:
  "\<exists>st st'. end_module demo_mount st = Inr st' \<and> kst st = booted 240 \<and> live (kst st') = {}"
proof -
  obtain a ni par m' where f: "syscall_table_finder (vtpmo demo_tables 0x5000) (replicate MAX_FREE 0) demo_machine
      = Inr (Some (a, ni), par, m')"
    using finder_finds [OF demo_searchable demo_assumptions] by blast
  obtain "is" st where st: "kst st = booted 240" "hooked demo_mount is st"
    using start_result [OF f demo_mount_ok] by (auto simp: demo_mount_def)
  from end_unmounts [OF booted_mounted [OF st(1)] st(2)] st(1) show ?thesis by (auto simp: booted_def)
qed

text \<open>
  C37 Mounting and unmounting gives the kernel back as it was: the same memory, so the same system call
  table, the same \<open>cr0\<close>, no device numbers, no class and no allocation.
\<close>

theorem mount_unmount_restores:
  assumes "syscall_table_finder (vtpmo pt cr3) (replicate MAX_FREE 0) m = Inr (Some (a, ni), par, m')" "mount_ok me"
  shows "\<exists>st st'. start (vtpmo pt cr3) me (unloaded m) = Inr (MOUNT_SUCCESS, st) \<and> end_module me st = Inr st'
    \<and> mem (mach st') = mem m \<and> cr0_reg (mach st') = cr0_reg m \<and> regions st' = {} \<and> live (kst st') = {} \<and> heap (kst st') = Map.empty
    \<and> \<not> array_live st' \<and> \<not> dm_live st' \<and> \<not> class_live st'"
proof -
  obtain "is" st where s: "start (vtpmo pt cr3) me (unloaded m) = Inr (MOUNT_SUCCESS, st)"
    "kst st = booted (region_major me)" "regions st = {region_major me}" "hooked me is st"
    "\<forall>i \<in> set is. mem m (elem a i) = Some ni" "mem (mach st) = (mem m)(map (elem a) is [\<mapsto>] handlers me)"
    "tbl_found (mach st) = a" "ni_found (mach st) = ni" "cr0_reg (mach st) = cr0_reg m"
    using start_result [OF assms] by blast
  have "length is = 4" "length (handlers me) = 4" using s(4) assms(2) by (simp_all add: hooked_def mount_ok_def)
  then have "(mem (mach st))(map (elem a) is [\<mapsto>] replicate 4 ni) = mem m"
    unfolding s(6) using restored [of "map (elem a) is" "mem m" ni "handlers me"] s(5) by simp
  then show ?thesis
    using s(1) end_module_result [OF booted_mounted [OF s(2)] s(4)] s(2,3,7,8,9) by (auto simp: booted_def)
qed

theorem mount_unmount_restores_witness:
  "\<exists>st st'. start (vtpmo demo_tables 0x5000) demo_mount (unloaded demo_machine) = Inr (MOUNT_SUCCESS, st)
     \<and> end_module demo_mount st = Inr st' \<and> mem (mach st') = mem demo_machine"
proof -
  obtain a ni par m' where f: "syscall_table_finder (vtpmo demo_tables 0x5000) (replicate MAX_FREE 0) demo_machine
      = Inr (Some (a, ni), par, m')"
    using finder_finds [OF demo_searchable demo_assumptions] by blast
  from mount_unmount_restores [OF f demo_mount_ok] show ?thesis by blast
qed

section \<open>A mount whose driver is not there\<close>

lemma create_without_driver:
  assumes "table_wf s" "\<forall>i. \<not> held s i" "entry s (nat (k mod 512)) = None" "0 < k"
    "perm = EVERYONE \<or> perm = ONLY_OWNER" "usable e"
    and pub: "\<And>s'. dm s' = dm s \<Longrightarrow> slot s' (k mod 512) = Inr (Some (next_addr s)) \<Longrightarrow>
      ts_create_char_device_file e (k mod 512) s' = Inl f"
  shows "tag_get e k CREATE_TAG perm s = Inl f"
proof -
  let ?i = "nat (k mod 512)"
  have i: "int ?i = k mod 512" "?i < 512" by (simp_all add: nat_less_iff)
  let ?s = "module_get s"
  let ?sl = "?s\<lparr>tsm := (tsm ?s)\<lparr>access_lock := (access_lock (tsm ?s))[?i := True]\<rparr>\<rparr>"
  have wf: "table_wf ?s" using assms(1) by simp
  have sl: "table_wf ?sl" "entry ?sl ?i = None"
    using wf assms(3) by (simp_all only: table_wf_lock entry_frame)
  have "mutex_lock (k mod 512) ?s = Inr ?sl" using mutex_lock_ok [OF wf, of "k mod 512"] assms(2) by simp
  moreover obtain s1 where c: "tag_get_create e k perm (k mod 512) ?sl = Inr (None, s1)"
    using tag_get_create_total [OF sl(1) _ _ sl(2), of e k perm] assms(6) by (auto simp: usable_def)
  moreover have "tag_get_select k CREATE_TAG perm s = Inr (Inr (k mod 512), ?s)"
    using assms(4,5) by (auto simp: tag_get_select_def hash_function_nonneg Let_def)
  moreover have "ts_create_char_device_file e (k mod 512) (dec_remaining s1) = Inl f"
  proof (rule pub)
    have len: "length (all_tag_services (tsm s)) = 4096" using assms(1) by (simp add: table_wf_def)
    show "dm (dec_remaining s1) = dm s" "slot (dec_remaining s1) (k mod 512) = Inr (Some (next_addr s))"
      using tag_get_create_succeeds [OF c] len i
      by (simp_all add: dec_remaining_def unlocked_def slot_def in_range_def)
  qed
  ultimately show ?thesis by (simp add: tag_get_def tag_get_locked_def tag_get_publish_def tag_get_device_def)
qed

text \<open>
  C38 \<open>start\<close> reports success although \<open>init_device_driver\<close> failed, and the first creation of a service
  then brings the kernel down: without device numbers it meets the \<open>BUG_ON\<close> of the driver, without
  a class it locks a mutex that was never initialised.
\<close>

theorem start_hides_driver_error:
  assumes "syscall_table_finder (vtpmo pt cr3) (replicate MAX_FREE 0) m = Inr (Some (a, ni), par, m')"
    "zalloc_ok me" "length (handlers me) = 4" "region_result me < 0 \<or> region_result me = 0 \<and> class_result me \<noteq> 0"
    "0 < k" "perm = EVERYONE \<or> perm = ONLY_OWNER" "usable e"
  shows "\<exists>st. start (vtpmo pt cr3) me (unloaded m) = Inr (MOUNT_SUCCESS, st)
    \<and> tag_get e k CREATE_TAG perm (kst st) = Inl (if region_result me < 0 then KernelBug else OutOfBounds)"
proof -
  obtain st1 where s: "start (vtpmo pt cr3) me (unloaded m) =
      and_then (init_device_driver me st1) (\<lambda>(_, st). Inr (MOUNT_SUCCESS, st))"
    "kst st1 = init_tsm (kst (unloaded m))"
    using start_until_driver [OF assms(1-3)] by blast
  obtain r st w where st: "init_device_driver me st1 = Inr (r, st)"
    "tsm (kst st) = tsm (booted w)" "device_lock (dm (kst st)) = []"
    "ts_class (dm (kst st)) = (if region_result me < 0 then ClassNull else ClassErr)"
  proof (cases "region_result me < 0")
    case True
    then show thesis using that [of "region_result me" _ 0] s(2)
      by (simp add: init_device_driver_def Let_def fresh_dm_def init_tsm_def unloaded_def booted_def)
  next
    case False
    then show thesis using that [of "class_result me" _ "region_major me"] s(2) assms(4)
      by (simp add: init_device_driver_def Let_def fresh_dm_def init_tsm_def unloaded_def booted_def
          set_major_def set_class_def)
  qed
  have "table_wf (kst st)" "\<forall>i. \<not> held (kst st) i" "entry (kst st) (nat (k mod 512)) = None"
    unfolding table_wf_def held_def entry_def st(2)
    by (simp_all add: booted_def held_at_def in_range_def nat_less_iff)
  moreover have no_mutex: "\<not> in_range ([] :: bool list) i" for i by (simp add: in_range_def)
  ultimately have "tag_get e k CREATE_TAG perm (kst st) = Inl (if region_result me < 0 then KernelBug else OutOfBounds)"
    using assms(5-7) st(3,4) no_mutex
    by (intro create_without_driver) (simp_all add: ts_create_char_device_file_def dev_lock_def lock_at_cases)
  then show ?thesis using s(1) st(1) by simp
qed

theorem start_hides_driver_error_witness:
  "\<exists>st. start (vtpmo demo_tables 0x5000) (demo_mount\<lparr>region_result := - EBUSY\<rparr>) (unloaded demo_machine)
       = Inr (MOUNT_SUCCESS, st)
     \<and> tag_get (plain_env 1000) 5 CREATE_TAG EVERYONE (kst st) = Inl KernelBug"
proof -
  obtain a ni par m' where f: "syscall_table_finder (vtpmo demo_tables 0x5000) (replicate MAX_FREE 0) demo_machine
      = Inr (Some (a, ni), par, m')"
    using finder_finds [OF demo_searchable demo_assumptions] by blast
  show ?thesis
    using start_hides_driver_error [OF f, of "demo_mount\<lparr>region_result := - EBUSY\<rparr>" 5 EVERYONE "plain_env 1000"]
      plain_env_usable by (simp add: demo_mount_def)
qed

end
