(* ===== verification/User_Lib.thy ===== *)
theory User_Lib
  imports Module_Init
begin

text \<open>
  The user side: the wrappers of \<open>user/test_definitions.c\<close> around \<open>syscall\<close>, and the interactive
  program \<open>user/user_program.c\<close>. The kernel is a parameter: \<open>sysc nr args w\<close> gives the return value
  of \<open>syscall\<close>, \<open>errno\<close>, the bytes written through the pointer argument, and the new world.
\<close>

section \<open>The wrappers\<close>

text \<open>An argument is a number, a string, memory that the call only writes, or a size.\<close>

datatype sysarg = ArgInt int | ArgBuf buffer | ArgOut | ArgSize nat

type_synonym 'w syscall_fn = "int \<Rightarrow> sysarg list \<Rightarrow> 'w \<Rightarrow> (int \<times> int \<times> buffer) \<times> 'w"

definition NR_tag_get :: int where [simp]: "NR_tag_get = 134"
definition NR_tag_send :: int where [simp]: "NR_tag_send = 174"
definition NR_tag_receive :: int where [simp]: "NR_tag_receive = 177"
definition NR_tag_ctl :: int where [simp]: "NR_tag_ctl = 178"

definition user_tag_get :: "'w syscall_fn \<Rightarrow> int \<Rightarrow> int \<Rightarrow> int \<Rightarrow> 'w \<Rightarrow> (int \<times> int \<times> buffer) \<times> 'w" where
  "user_tag_get sysc k command perm = sysc NR_tag_get [ArgInt k, ArgInt command, ArgInt perm]"

definition user_tag_send :: "'w syscall_fn \<Rightarrow> int \<Rightarrow> int \<Rightarrow> buffer \<Rightarrow> nat \<Rightarrow> 'w \<Rightarrow> (int \<times> int \<times> buffer) \<times> 'w" where
  "user_tag_send sysc i lev b n = sysc NR_tag_send [ArgInt i, ArgInt lev, ArgBuf b, ArgSize n]"

definition user_tag_receive :: "'w syscall_fn \<Rightarrow> int \<Rightarrow> int \<Rightarrow> nat \<Rightarrow> 'w \<Rightarrow> (int \<times> int \<times> buffer) \<times> 'w" where
  "user_tag_receive sysc i lev n = sysc NR_tag_receive [ArgInt i, ArgInt lev, ArgOut, ArgSize n]"

definition user_tag_ctl :: "'w syscall_fn \<Rightarrow> int \<Rightarrow> int \<Rightarrow> 'w \<Rightarrow> (int \<times> int \<times> buffer) \<times> 'w" where
  "user_tag_ctl sysc i command = sysc NR_tag_ctl [ArgInt i, ArgInt command]"

definition expected_tag :: "int \<Rightarrow> int" where
  "expected_tag k = k smod MAX_TAG_SERVICES"

section \<open>Input\<close>

text \<open>\<open>fgets\<close> takes at most \<open>n - 1\<close> characters and stops after a newline; \<open>None\<close> at the end of the input.\<close>

fun fgets_take :: "nat \<Rightarrow> string \<Rightarrow> string \<times> string" where
  "fgets_take 0 s = ([], s)"
| "fgets_take (Suc n) [] = ([], [])"
| "fgets_take (Suc n) (c # s) =
     (if c = NL then ([c], s) else case fgets_take n s of (a, b) \<Rightarrow> (c # a, b))"

definition fgets :: "nat \<Rightarrow> string \<Rightarrow> (string \<times> string) option" where
  "fgets n s = (if s = [] then None else Some (fgets_take (n - 1) s))"

text \<open>
  The array after \<open>fgets\<close>, and the rest of the input; the code never looks at the result of \<open>fgets\<close>,
  and at the end of the input the array stays as it is.
\<close>

definition fgets_into :: "nat \<Rightarrow> buffer \<Rightarrow> string \<Rightarrow> buffer \<times> string" where
  "fgets_into n b s =
     (case fgets n s of None \<Rightarrow> (b, s) | Some (l, rest) \<Rightarrow> (l @ NUL # drop (length l + 1) b, rest))"

text \<open>\<open>strtol\<close> in base 10, saturating at the bounds of \<open>long\<close>; a cast to \<open>int\<close> keeps 32 bits.\<close>

definition is_space :: "char \<Rightarrow> bool" where
  "is_space c \<longleftrightarrow> c = CHR '' '' \<or> c \<in> {CHR 0x09, CHR 0x0A, CHR 0x0B, CHR 0x0C, CHR 0x0D}"

definition strtol :: "string \<Rightarrow> int" where
  "strtol s =
     (let t = dropWhile is_space s;
          neg = (t \<noteq> [] \<and> hd t = CHR ''-'');
          t = (if t \<noteq> [] \<and> (hd t = CHR ''-'' \<or> hd t = CHR ''+'') then tl t else t);
          v = digits_val 0 (takeWhile is_digit t);
          v = (if neg then - v else v)
      in max (- (2 ^ 63)) (min (2 ^ 63 - 1) v))"

text \<open>\<open>strtol\<close> stops at the first character that does not belong to the number: the array must hold one.\<close>

definition number_ends :: "buffer \<Rightarrow> bool" where
  "number_ends s =
     (let t = dropWhile is_space s;
          t = (if t \<noteq> [] \<and> (hd t = CHR ''-'' \<or> hd t = CHR ''+'') then tl t else t)
      in dropWhile is_digit t \<noteq> [])"

definition cast_int :: "int \<Rightarrow> int" where
  "cast_int v = signed_take_bit 31 v"

section \<open>The program\<close>

text \<open>What the program tells its user; the fixed texts of the menu are left out.\<close>

datatype event = Failed int | Created int | Opened int int | Sent | AwakenedNotice
  | Received int int string | AwokenAll int | Removed int | NoFile string | Shown string string
  | Goodbye | BadChoice

text \<open>
  The rest of the standard input, what was printed, the arrays \<open>line\<close>, \<open>buffer\<close> and \<open>receive_buffer\<close> of
  \<open>main\<close> (which start with whatever is on the stack), the world outside, and what the array \<open>input\<close>
  holds when \<open>getNumber\<close> is called for the n-th time, with the number of calls so far.
\<close>

record 'w uprog =
  inp :: string
  events :: "event list"
  line_buf :: buffer
  send_buf :: buffer
  recv_buf :: buffer
  stack :: "nat \<Rightarrow> buffer"
  calls :: nat
  world :: 'w

definition say :: "event \<Rightarrow> 'w uprog \<Rightarrow> 'w uprog" where
  "say ev u = u\<lparr>events := events u @ [ev]\<rparr>"

text \<open>At the end of the input \<open>strtol\<close> reads the uninitialised array.\<close>

definition getNumber :: "'w uprog \<Rightarrow> (int \<times> 'w uprog) outcome" where
  "getNumber u =
     (case fgets_into 256 (stack u (calls u)) (inp u) of
        (b, rest) \<Rightarrow>
          if number_ends b then Inr (cast_int (strtol b), u\<lparr>inp := rest, calls := Suc (calls u)\<rparr>)
          else Inl OverRead)"

definition ask_create_or_open :: "'w syscall_fn \<Rightarrow> int \<Rightarrow> 'w uprog \<Rightarrow> (bool \<times> 'w uprog) outcome" where
  "ask_create_or_open sysc command u =
     and_then (getNumber u) (\<lambda>(n, u).
     let k = (if n = 0 then IPC_PRIVATE else n) in
     and_then (getNumber u) (\<lambda>(p, u).
     let perm = (if p = 0 then ONLY_OWNER else EVERYONE) in
     case user_tag_get sysc k command perm (world u) of
       ((r, err, _), w) \<Rightarrow>
         let u = u\<lparr>world := w\<rparr> in
         if r < 0 then Inr (False, say (Failed err) u)
         else if command = CREATE_TAG then Inr (True, say (Created r) u)
         else Inr (True, say (Opened k r) u)))"

text \<open>
  The line read is a message: its last character, the newline, is overwritten. At the end of the input
  it is what the array held before.
\<close>

definition ask_send :: "'w syscall_fn \<Rightarrow> 'w uprog \<Rightarrow> (bool \<times> 'w uprog) outcome" where
  "ask_send sysc u =
     and_then (getNumber u) (\<lambda>(i, u).
     and_then (getNumber u) (\<lambda>(lev, u).
     case fgets_into MAX_MESSAGE_SIZE (send_buf u) (inp u) of
       (b, rest) \<Rightarrow>
         and_then (strlen b) (\<lambda>n.
         if n = 0 then Inl OutOfBounds
         else
           let b = b[n - 1 := NUL] in
           and_then (strlen b) (\<lambda>m.
           case user_tag_send sysc i lev (take (m + 1) b) m (world u) of
             ((r, err, _), w) \<Rightarrow>
               and_then (memset0 b m) (\<lambda>b.
               let u = u\<lparr>inp := rest, send_buf := b, world := w\<rparr> in
               if r < 0 then
                 if err \<noteq> EINTR then Inr (True, say AwakenedNotice u)
                 else Inr (False, say (Failed err) u)
               else Inr (True, say Sent u))))))"

definition ask_receive :: "'w syscall_fn \<Rightarrow> 'w uprog \<Rightarrow> (bool \<times> 'w uprog) outcome" where
  "ask_receive sysc u =
     and_then (getNumber u) (\<lambda>(i, u).
     and_then (getNumber u) (\<lambda>(lev, u).
     case user_tag_receive sysc i lev MAX_MESSAGE_SIZE (world u) of
       ((r, err, out), w) \<Rightarrow>
         let b = out @ drop (length out) (recv_buf u); u = u\<lparr>world := w, recv_buf := b\<rparr> in
         if r < 0 then Inr (False, say (Failed err) u)
         else if \<not> terminated b then Inl OverRead
         else
           and_then (memset0 b MAX_MESSAGE_SIZE) (\<lambda>b'.
             Inr (True, say (Received i lev (c_str b)) (u\<lparr>recv_buf := b'\<rparr>)))))"

definition ask_ctl :: "'w syscall_fn \<Rightarrow> int \<Rightarrow> 'w uprog \<Rightarrow> (bool \<times> 'w uprog) outcome" where
  "ask_ctl sysc command u =
     and_then (getNumber u) (\<lambda>(i, u).
     case user_tag_ctl sysc i command (world u) of
       ((r, err, _), w) \<Rightarrow>
         let u = u\<lparr>world := w\<rparr> in
         if r < 0 then Inr (False, say (Failed err) u)
         else if command = AWAKE_ALL then Inr (True, say (AwokenAll i) u)
         else Inr (True, say (Removed i) u))"

lemma fgets_take_rest: "length (snd (fgets_take n s)) \<le> length s"
  by (induction n s rule: fgets_take.induct) (auto split: prod.split)

lemma fgets_take_shorter:
  assumes "0 < n" "s \<noteq> []" shows "length (snd (fgets_take n s)) < length s"
proof -
  obtain m c t where "n = Suc m" "s = c # t" using assms by (cases n; cases s) auto
  then show ?thesis using fgets_take_rest [of m t] by (cases "fgets_take m t") (auto simp: less_Suc_eq_le)
qed

lemma fgets_shorter: "fgets n s = Some (l, rest) \<Longrightarrow> 1 < n \<Longrightarrow> length rest < length s"
  using fgets_take_shorter [of "n - 1" s] by (auto simp: fgets_def split: if_splits)

text \<open>The loop that prints a file in pieces of at most 127 characters.\<close>

function show_file :: "string \<Rightarrow> buffer \<Rightarrow> string \<times> buffer" where
  "show_file s b =
     (if s = [] then ([], b)
      else
        let (l, rest) = fgets_take 127 s;
            (printed, b) = show_file rest (l @ NUL # drop (length l + 1) b)
        in (c_str l @ printed, b))"
  by pat_completeness auto
termination
proof (relation "measure (\<lambda>(s, b). length s)")
  fix s :: string and b :: buffer and x l rest
  assume "s \<noteq> []" "x = fgets_take 127 s" "(l, rest) = x"
  then show "((rest, l @ NUL # drop (length l + 1) b), s, b) \<in> measure (\<lambda>(s, b). length s)"
    using fgets_take_shorter [of 127 s] by (metis in_measure prod.case snd_conv zero_less_numeral)
qed simp

declare show_file.simps [simp del]

definition read_device :: "('w \<Rightarrow> string \<Rightarrow> string option) \<Rightarrow> 'w uprog \<Rightarrow> (bool \<times> 'w uprog) outcome" where
  "read_device files u =
     and_then (getNumber u) (\<lambda>(i, u).
     let path = ''/dev/tsdev_'' @ show_int i in
     case files (world u) path of
       None \<Rightarrow> Inr (True, say (NoFile path) u)
     | Some text \<Rightarrow>
         and_then (strlen (line_buf u)) (\<lambda>n.
         and_then (memset0 (line_buf u) n) (\<lambda>b.
         case show_file text b of
           (printed, b) \<Rightarrow> Inr (True, say (Shown path printed) (u\<lparr>line_buf := b\<rparr>)))))"

text \<open>One round from the label \<open>restart\<close>: whether the program goes on.\<close>

definition main_round ::
    "'w syscall_fn \<Rightarrow> ('w \<Rightarrow> string \<Rightarrow> string option) \<Rightarrow> 'w uprog \<Rightarrow> (bool \<times> 'w uprog) outcome" where
  "main_round sysc files u =
     and_then (getNumber u) (\<lambda>(n, u).
     if n = 1 then ask_create_or_open sysc CREATE_TAG u
     else if n = 2 then ask_create_or_open sysc OPEN_TAG u
     else if n = 3 then ask_send sysc u
     else if n = 4 then ask_receive sysc u
     else if n = 5 then ask_ctl sysc AWAKE_ALL u
     else if n = 6 then ask_ctl sysc REMOVE_TAG u
     else if n = 7 then read_device files u
     else if n = 8 then Inr (False, say Goodbye u)
     else Inr (True, say BadChoice u))"

text \<open>
  The loop over \<open>restart\<close>, which need not end: then there is no value. Otherwise the value is the fault,
  or the state at the label \<open>exit\<close>.
\<close>

partial_function (option) main_loop ::
    "'w syscall_fn \<Rightarrow> ('w \<Rightarrow> string \<Rightarrow> string option) \<Rightarrow> 'w uprog \<Rightarrow> 'w uprog outcome option" where
  "main_loop sysc files u =
     (case main_round sysc files u of
        Inl f \<Rightarrow> Some (Inl f)
      | Inr (go, u) \<Rightarrow> if go then main_loop sysc files u else Some (Inr u))"

section \<open>Numbers typed by the user\<close>

lemma is_digit_digit: "d < 10 \<Longrightarrow> is_digit (digit d) \<and> digit_val (digit d) = int d"
proof -
  assume d: "d < 10"
  have "(of_char (digit d) :: int) = int (of_char (digit d))" by (simp add: of_char_def)
  then show ?thesis using d by (simp add: is_digit_def digit_val_def)
qed

lemma show_nat_digits: "\<forall>c \<in> set (show_nat n). is_digit c"
  using show_nat_plain is_digit_digit by blast

lemma digits_val_show_nat: "digits_val 0 (show_nat n) = int n"
proof (induction n rule: show_nat.induct)
  case (1 n)
  have "int (10 * (n div 10) + n mod 10) = int n" by (simp only: mult_div_mod_eq)
  then have "10 * int (n div 10) + int (n mod 10) = int n" by (simp only: of_nat_add of_nat_mult of_nat_numeral)
  then show ?case
    using 1 is_digit_digit [of "n mod 10"] is_digit_digit [of n]
    by (subst show_nat.simps) (simp add: digits_val_def)
qed

lemma strtol_show_int:
  assumes "- (2 ^ 63) \<le> n" "n < 2 ^ 63"
  shows "strtol (show_int n @ NL # t) = n" "number_ends (show_int n @ NL # t)"
proof -
  have sp: "\<not> is_space c \<and> c \<noteq> CHR ''-'' \<and> c \<noteq> CHR ''+''" if "is_digit c" for c
    using that by (auto simp: is_space_def is_digit_def)
  have nl: "\<not> is_digit NL" by (simp add: is_digit_def)
  have tw: "takeWhile is_digit (show_nat m @ NL # t) = show_nat m"
    "dropWhile is_digit (show_nat m @ NL # t) = NL # t" for m
    using show_nat_digits [of m] nl by (simp_all add: takeWhile_append dropWhile_append)
  obtain c cs where c: "show_nat (nat \<bar>n\<bar>) = c # cs" using show_nat_not_Nil by (metis list.exhaust)
  then have d: "is_digit c" using show_nat_digits [of "nat \<bar>n\<bar>"] by simp
  have m: "\<not> is_space CHR ''-''" by (simp add: is_space_def)
  have "strtol (show_int n @ NL # t) = n \<and> number_ends (show_int n @ NL # t)"
  proof (cases "n < 0")
    case True
    then have "show_int n = CHR ''-'' # show_nat (nat \<bar>n\<bar>)" by (simp add: show_int_def)
    then show ?thesis using True m tw assms by (simp add: strtol_def number_ends_def Let_def digits_val_show_nat nl del: dropWhile_eq_Nil_conv)
  next
    case False
    then have e: "show_int n @ NL # t = c # cs @ NL # t" "show_int n = show_nat (nat n)" "show_nat (nat n) = c # cs"
      using c by (simp_all add: show_int_def)
    have "takeWhile is_digit (c # cs @ NL # t) = show_nat (nat n)" "dropWhile is_digit (c # cs @ NL # t) = NL # t"
      using tw [of "nat n"] e by simp_all
    then show ?thesis unfolding e(1)
      using False sp [OF d] assms
      by (simp add: strtol_def number_ends_def Let_def digits_val_show_nat nl del: dropWhile_eq_Nil_conv)
  qed
  then show "strtol (show_int n @ NL # t) = n" "number_ends (show_int n @ NL # t)" by blast+
qed

lemma fgets_take_line: "NL \<notin> set l \<Longrightarrow> length l < n \<Longrightarrow> fgets_take n (l @ NL # rest) = (l @ [NL], rest)"
proof (induction l arbitrary: n)
  case Nil
  then show ?case by (cases n) auto
next
  case (Cons c l)
  then show ?case by (cases n) auto
qed

definition int32 :: "int \<Rightarrow> bool" where
  "int32 n \<longleftrightarrow> - (2 ^ 31) \<le> n \<and> n < 2 ^ 31"

definition line :: "int \<Rightarrow> string" where
  "line n = show_int n @ [NL]"

text \<open>
  A number in the range of \<open>int\<close> that is typed in decimal on a line of its own is read back as this
  number, and exactly its line is consumed.
\<close>

lemma getNumber_line:
  assumes "int32 n" "inp u = line n @ rest"
  shows "getNumber u = Inr (n, u\<lparr>inp := rest, calls := Suc (calls u)\<rparr>)"
proof -
  have n: "- (2 ^ 31) \<le> n" "n < 2 ^ 31" using assms(1) by (simp_all add: int32_def)
  then have "length (show_nat (nat \<bar>n\<bar>)) \<le> 10" by (intro length_show_nat_le) auto
  then have l: "length (show_int n) < 255" by (auto simp: show_int_def)
  have "fgets 256 (inp u) = Some (show_int n @ [NL], rest)"
    using fgets_take_line [OF show_int_no_specials(3) l, of rest] assms(2) by (simp add: fgets_def line_def)
  moreover have "cast_int n = n"
    using n by (simp add: cast_int_def signed_take_bit_int_eq_self)
  ultimately show ?thesis using strtol_show_int [of n] n by (simp add: getNumber_def fgets_into_def)
qed

section \<open>What the program does\<close>

lemma show_file_text:
  assumes "nul_free tx" shows "fst (show_file tx b) = tx"
  using assms
proof (induction tx b rule: show_file.induct)
  case (1 s b)
  show ?case
  proof (cases "s = []")
    case False
    obtain l rest where f: "fgets_take 127 s = (l, rest)" by fastforce
    have whole: "fgets_take n t = (x, y) \<Longrightarrow> t = x @ y" for n t x y
      by (induction n t arbitrary: x y rule: fgets_take.induct) (auto split: if_splits prod.splits)
    have "s = l @ rest" using whole [OF f] .
    then have n: "nul_free l" "nul_free rest" using "1.prems" by simp_all
    obtain pr b' where p: "show_file rest (l @ NUL # drop (length l + 1) b) = (pr, b')" by fastforce
    have "pr = rest" using "1.IH" [OF False f [symmetric] refl n(2)] p by simp
    then show ?thesis using False f p n \<open>s = l @ rest\<close> by (subst show_file.simps) (simp add: Let_def)
  qed (simp add: show_file.simps)
qed

lemma show_file_terminated:
  "terminated b \<Longrightarrow> terminated (snd (show_file tx b))"
proof (induction tx b rule: show_file.induct)
  case (1 s b)
  show ?case
  proof (cases "s = []")
    case False
    obtain l rest where f: "fgets_take 127 s = (l, rest)" by fastforce
    have "terminated (snd (show_file rest (l @ NUL # drop (length l + 1) b)))"
      using "1.IH" [OF False f [symmetric] refl] by simp
    then show ?thesis using False f by (subst show_file.simps) (auto simp: Let_def split: prod.split)
  qed (use "1.prems" in \<open>simp add: show_file.simps\<close>)
qed

text \<open>
  A session at the terminal: what a user who sees the questions wants (\<open>command\<close>), what has to be typed
  for it, and what the program does, without its buffers: whether it goes on, what it reports, and the
  world after the call.
\<close>

datatype command = CreateTag int int | OpenTag int int | SendTo int int string | ReceiveFrom int int
  | AwakeAll int | RemoveTag int | ReadDevice int | NoChoice int

fun typed :: "command \<Rightarrow> string" where
  "typed (CreateTag k p) = line 1 @ line k @ line p"
| "typed (OpenTag k p) = line 2 @ line k @ line p"
| "typed (SendTo i lev msg) = line 3 @ line i @ line lev @ msg @ [NL]"
| "typed (ReceiveFrom i lev) = line 4 @ line i @ line lev"
| "typed (AwakeAll i) = line 5 @ line i"
| "typed (RemoveTag i) = line 6 @ line i"
| "typed (ReadDevice i) = line 7 @ line i"
| "typed (NoChoice n) = line n"

text \<open>A message has at most 4094 characters, none of them a newline; of a longer line only these are sent.\<close>

fun typable :: "command \<Rightarrow> bool" where
  "typable (CreateTag k p) \<longleftrightarrow> int32 k \<and> int32 p"
| "typable (OpenTag k p) \<longleftrightarrow> int32 k \<and> int32 p"
| "typable (SendTo i lev msg) \<longleftrightarrow> int32 i \<and> int32 lev \<and> NL \<notin> set msg \<and> nul_free msg \<and> length msg < 4095"
| "typable (ReceiveFrom i lev) \<longleftrightarrow> int32 i \<and> int32 lev"
| "typable (AwakeAll i) \<longleftrightarrow> int32 i"
| "typable (RemoveTag i) \<longleftrightarrow> int32 i"
| "typable (ReadDevice i) \<longleftrightarrow> int32 i"
| "typable (NoChoice n) \<longleftrightarrow> int32 n \<and> (n < 1 \<or> 8 < n)"

text \<open>A call that fails ends the program, but for a send that fails with an error other than EINTR.\<close>

definition answered :: "(int \<times> int \<times> buffer) \<times> 'w \<Rightarrow> (int \<Rightarrow> bool) \<Rightarrow> (int \<Rightarrow> buffer \<Rightarrow> event) \<Rightarrow> bool \<times> event \<times> 'w" where
  "answered q stop reply =
     (case q of ((r, err, out), w) \<Rightarrow>
        if r < 0 then if stop err then (False, Failed err, w) else (True, AwakenedNotice, w)
        else (True, reply r out, w))"

fun perform :: "'w syscall_fn \<Rightarrow> ('w \<Rightarrow> string \<Rightarrow> string option) \<Rightarrow> command \<Rightarrow> 'w \<Rightarrow> bool \<times> event \<times> 'w" where
  "perform sysc files (CreateTag k p) w =
     answered (sysc 134 [ArgInt k, ArgInt CREATE_TAG, ArgInt (if p = 0 then ONLY_OWNER else EVERYONE)] w)
       (\<lambda>_. True) (\<lambda>r _. Created r)"
| "perform sysc files (OpenTag k p) w =
     answered (sysc 134 [ArgInt k, ArgInt OPEN_TAG, ArgInt (if p = 0 then ONLY_OWNER else EVERYONE)] w)
       (\<lambda>_. True) (\<lambda>r _. Opened k r)"
| "perform sysc files (SendTo i lev msg) w =
     answered (sysc 174 [ArgInt i, ArgInt lev, ArgBuf (msg @ [NUL]), ArgSize (length msg)] w)
       (\<lambda>err. err = EINTR) (\<lambda>_ _. Sent)"
| "perform sysc files (ReceiveFrom i lev) w =
     answered (sysc 177 [ArgInt i, ArgInt lev, ArgOut, ArgSize 4096] w)
       (\<lambda>_. True) (\<lambda>_ out. Received i lev (c_str out))"
| "perform sysc files (AwakeAll i) w =
     answered (sysc 178 [ArgInt i, ArgInt AWAKE_ALL] w) (\<lambda>_. True) (\<lambda>_ _. AwokenAll i)"
| "perform sysc files (RemoveTag i) w =
     answered (sysc 178 [ArgInt i, ArgInt REMOVE_TAG] w) (\<lambda>_. True) (\<lambda>_ _. Removed i)"
| "perform sysc files (ReadDevice i) w =
     (case files w (''/dev/tsdev_'' @ show_int i) of
        None \<Rightarrow> (True, NoFile (''/dev/tsdev_'' @ show_int i), w)
      | Some text \<Rightarrow> (True, Shown (''/dev/tsdev_'' @ show_int i) text, w))"
| "perform sysc files (NoChoice n) w = (True, BadChoice, w)"

text \<open>
  The commands one after the other and then choice 8: what is reported, the last world, and how much of
  what was typed is left over when a failure ends the program before.
\<close>

fun session :: "'w syscall_fn \<Rightarrow> ('w \<Rightarrow> string \<Rightarrow> string option) \<Rightarrow> command list \<Rightarrow> 'w \<Rightarrow> event list \<times> 'w \<times> string" where
  "session sysc files [] w = ([Goodbye], w, [])"
| "session sysc files (c # cs) w =
     (case perform sysc files c w of (go, ev, w) \<Rightarrow>
        if go then case session sysc files cs w of (evs, w, left) \<Rightarrow> (ev # evs, w, left)
        else ([ev], w, concat (map typed cs) @ line 8))"

text \<open>
  The kernel as the program relies on it: a receive that succeeds writes a string that fits the buffer,
  and the files are texts. Of its arrays the program needs the sizes, and that \<open>line\<close> happens to hold a
  NUL.
\<close>

definition well_behaved :: "'w syscall_fn \<Rightarrow> ('w \<Rightarrow> string \<Rightarrow> string option) \<Rightarrow> bool" where
  "well_behaved sysc files \<longleftrightarrow>
     (\<forall>i lev w r err out w'. sysc 177 [ArgInt i, ArgInt lev, ArgOut, ArgSize 4096] w = ((r, err, out), w')
        \<longrightarrow> length out \<le> 4096 \<and> (0 \<le> r \<longrightarrow> terminated out))
     \<and> (\<forall>w path text. files w path = Some text \<longrightarrow> nul_free text)"

definition arrays_ok :: "'w uprog \<Rightarrow> bool" where
  "arrays_ok u \<longleftrightarrow> terminated (line_buf u) \<and> length (send_buf u) = 4096 \<and> length (recv_buf u) = 4096"

lemma getNumber_then:
  assumes "int32 n" "inp u = line n @ rest"
  shows "and_then (getNumber u) f = f (n, u\<lparr>inp := rest, calls := Suc (calls u)\<rparr>)"
  by (simp add: getNumber_line [OF assms])

lemma int32_small: "int32 1" "int32 2" "int32 3" "int32 4" "int32 5" "int32 6" "int32 7" "int32 8"
  by (simp_all add: int32_def)

definition did :: "bool \<Rightarrow> event \<Rightarrow> 'w \<Rightarrow> string \<Rightarrow> 'w uprog \<Rightarrow> (bool \<times> 'w uprog) outcome \<Rightarrow> bool" where
  "did go ev w rest u r \<longleftrightarrow> (\<exists>u'. r = Inr (go, u') \<and> events u' = events u @ [ev] \<and> world u' = w
     \<and> inp u' = rest \<and> arrays_ok u')"

lemma ask_create_or_open_does:
  assumes "inp u = line k @ line p @ rest" "int32 k" "int32 p" "arrays_ok u" "c = CREATE_TAG \<or> c = OPEN_TAG"
    "answered (sysc 134 [ArgInt k, ArgInt c, ArgInt (if p = 0 then ONLY_OWNER else EVERYONE)] (world u))
       (\<lambda>_. True) (\<lambda>r _. if c = CREATE_TAG then Created r else Opened k r) = (go, ev, w)"
  shows "did go ev w rest u (ask_create_or_open sysc c u)"
proof -
  obtain perm where p: "(if p = 0 then ONLY_OWNER else EVERYONE) = perm" by blast
  obtain r err out w' where q: "sysc 134 [ArgInt k, ArgInt c, ArgInt perm] (world u) = ((r, err, out), w')"
    by (metis prod.collapse)
  have k: "(if k = 0 then IPC_PRIVATE else k) = k" by simp
  let ?u = "u\<lparr>inp := rest, calls := Suc (Suc (calls u)), world := w'\<rparr>"
  have "ask_create_or_open sysc c u = Inr (if r < 0 then (False, say (Failed err) ?u)
      else (True, say (if c = CREATE_TAG then Created r else Opened k r) ?u))"
    unfolding ask_create_or_open_def getNumber_then [OF assms(2,1)] Let_def prod.case k
    by (subst getNumber_then [OF assms(3)]) (simp_all add: p q user_tag_get_def cong: if_weak_cong split del: if_split,
      simp only: if_True if_False split: if_split, simp)
  moreover have "(go, ev, w) = (if r < 0 then (False, Failed err, w')
      else (True, if c = CREATE_TAG then Created r else Opened k r, w'))"
    using assms(6) unfolding p q answered_def prod.case if_True by (rule sym)
  ultimately show ?thesis
    using assms(4) by (cases "r < 0") (simp_all add: did_def say_def arrays_ok_def)
qed

lemma ask_ctl_does:
  assumes "inp u = line i @ rest" "int32 i" "arrays_ok u" "c = AWAKE_ALL \<or> c = REMOVE_TAG"
    "answered (sysc 178 [ArgInt i, ArgInt c] (world u))
       (\<lambda>_. True) (\<lambda>_ _. if c = AWAKE_ALL then AwokenAll i else Removed i) = (go, ev, w)"
  shows "did go ev w rest u (ask_ctl sysc c u)"
  using assms(3-)
  by (auto simp: ask_ctl_def getNumber_then [OF assms(2,1)] Let_def
      user_tag_ctl_def answered_def did_def say_def arrays_ok_def split: prod.splits if_splits)

lemma ask_send_does:
  assumes "inp u = line i @ line lev @ msg @ NL # rest" "int32 i" "int32 lev" "arrays_ok u"
    and msg: "NL \<notin> set msg" "nul_free msg" "length msg < 4095"
    and q: "answered (sysc 174 [ArgInt i, ArgInt lev, ArgBuf (msg @ [NUL]), ArgSize (length msg)] (world u))
       (\<lambda>err. err = EINTR) (\<lambda>_ _. Sent) = (go, ev, w)"
  shows "did go ev w rest u (ask_send sysc u)"
proof -
  obtain old where old: "drop (Suc (Suc (length msg))) (send_buf u) = old" "length old = 4094 - length msg"
    using assms(4) by (simp add: arrays_ok_def)
  let ?r = "replicate (length msg) NUL @ NUL # NUL # old"
  have f: "fgets_into 4096 (send_buf u) (msg @ NL # rest) = (msg @ NL # NUL # old, rest)"
    using fgets_take_line [OF msg(1,3), of rest] by (simp add: fgets_into_def fgets_def old)
  have s1: "strlen (msg @ NL # NUL # old) = Inr (Suc (length msg))"
    using strlen_append [of "msg @ [NL]" old] msg(2) by simp
  have u: "(msg @ NL # NUL # old)[length msg := NUL] = msg @ NUL # NUL # old"
    by (simp add: list_update_append)
  have m: "memset0 (msg @ NUL # NUL # old) (length msg) = Inr ?r" by (simp add: memset0_def)
  have l: "length ?r = 4096" using old(2) msg(3) by simp
  then show ?thesis
    using assms(4) msg(2) q m l
    by (auto simp: ask_send_def getNumber_then [OF assms(2,1)] getNumber_then [OF assms(3)] f s1 u Let_def
      user_tag_send_def answered_def did_def say_def arrays_ok_def split: prod.splits if_splits)
qed

lemma ask_receive_does:
  assumes "inp u = line i @ line lev @ rest" "int32 i" "int32 lev" "arrays_ok u" "well_behaved sysc files"
    and q: "answered (sysc 177 [ArgInt i, ArgInt lev, ArgOut, ArgSize 4096] (world u))
       (\<lambda>_. True) (\<lambda>_ out. Received i lev (c_str out)) = (go, ev, w)"
  shows "did go ev w rest u (ask_receive sysc u)"
proof -
  obtain r err out w' where c: "sysc 177 [ArgInt i, ArgInt lev, ArgOut, ArgSize 4096] (world u) = ((r, err, out), w')"
    by (metis prod.collapse)
  then have out: "length out \<le> 4096" "0 \<le> r \<Longrightarrow> terminated out"
    using assms(5) unfolding well_behaved_def by blast+
  show ?thesis
  proof (cases "r < 0")
    case True
    then show ?thesis
      using out(1) c q assms(4)
      by (auto simp: ask_receive_def getNumber_then [OF assms(2,1)] getNumber_then [OF assms(3)] Let_def
          user_tag_receive_def answered_def did_def say_def arrays_ok_def)
  next
    case False
    then have o: "terminated out" "length out \<le> 4096" using out by simp_all
    have e: "c_str (out @ x) = c_str out" "terminated (out @ x)" for x
      using o(1) by (auto simp: c_str_def terminated_def takeWhile_append)
    have "length (out @ drop (length out) (recv_buf u)) = 4096" using o(2) assms(4) by (simp add: arrays_ok_def)
    then have "memset0 (out @ drop (length out) (recv_buf u)) MAX_MESSAGE_SIZE = Inr (replicate 4096 NUL)"
      by (simp add: memset0_def)
    then show ?thesis
      using False c q assms(4) e
      by (auto simp: ask_receive_def getNumber_then [OF assms(2,1)] getNumber_then [OF assms(3)] Let_def
          user_tag_receive_def answered_def did_def say_def arrays_ok_def)
  qed
qed

lemma read_device_does:
  assumes "inp u = line i @ rest" "int32 i" "arrays_ok u" "well_behaved sysc files"
    and q: "perform sysc files (ReadDevice i) (world u) = (go, ev, w)"
  shows "did go ev w rest u (read_device files u)"
proof (cases "files (world u) (''/dev/tsdev_'' @ show_int i)")
  case None
  then show ?thesis using assms(3) q
    by (auto simp: read_device_def getNumber_then [OF assms(2,1)] Let_def did_def say_def arrays_ok_def)
next
  case (Some tx)
  have n: "nul_free tx" using assms(4) Some by (auto simp: well_behaved_def)
  obtain t where t: "line_buf u = c_str (line_buf u) @ NUL # t"
    using assms(3) by (auto simp: arrays_ok_def elim: terminated_split)
  let ?b = "replicate (length (c_str (line_buf u))) NUL @ NUL # t"
  have "length (c_str (line_buf u)) \<le> length (line_buf u)" by (simp add: c_str_def length_takeWhile_le)
  moreover have "drop (length (c_str (line_buf u))) (line_buf u) = NUL # t" by (subst (2) t) simp
  ultimately have m: "memset0 (line_buf u) (length (c_str (line_buf u))) = Inr ?b" by (simp add: memset0_def)
  obtain b' where "show_file tx ?b = (tx, b')"
    using show_file_text [OF n, of ?b] by (metis prod.collapse)
  moreover have "terminated (snd (show_file tx ?b))" by (rule show_file_terminated) simp
  ultimately show ?thesis using Some m assms(3) q
    by (auto simp: read_device_def getNumber_then [OF assms(2,1)] Let_def did_def say_def arrays_ok_def strlen_def)
qed


lemma did_after_number:
  assumes "did go ev w rest (u\<lparr>inp := t, calls := Suc (calls u)\<rparr>) r" shows "did go ev w rest u r"
  using assms by (simp add: did_def)

lemma main_round_does:
  assumes "typable c" "inp u = typed c @ rest" "arrays_ok u" "well_behaved sysc files"
    "perform sysc files c (world u) = (go, ev, w)"
  shows "did go ev w rest u (main_round sysc files u)"
proof -
  have read: "main_round sysc files u = (let u = u\<lparr>inp := t, calls := Suc (calls u)\<rparr> in
      if n = 1 then ask_create_or_open sysc CREATE_TAG u
      else if n = 2 then ask_create_or_open sysc OPEN_TAG u
      else if n = 3 then ask_send sysc u
      else if n = 4 then ask_receive sysc u
      else if n = 5 then ask_ctl sysc AWAKE_ALL u
      else if n = 6 then ask_ctl sysc REMOVE_TAG u
      else if n = 7 then read_device files u
      else if n = 8 then Inr (False, say Goodbye u)
      else Inr (True, say BadChoice u))" if "int32 n" "inp u = line n @ t" for n t
    using that by (simp only: main_round_def getNumber_then prod.case Let_def)
  note after = did_after_number [of go ev w rest u]
  have ok: "arrays_ok (u\<lparr>inp := t, calls := Suc (calls u)\<rparr>)" for t
    using assms(3) by (simp add: arrays_ok_def)
  show ?thesis
  proof (cases c)
    case (CreateTag k p)
    then have "main_round sysc files u =
        ask_create_or_open sysc CREATE_TAG (u\<lparr>inp := line k @ line p @ rest, calls := Suc (calls u)\<rparr>)"
      using read [of 1 "line k @ line p @ rest"] assms(2) int32_small by simp
    then show ?thesis using CreateTag assms(1,5) ok
      by (simp only:) (rule after, rule ask_create_or_open_does [of _ k p], simp_all)
  next
    case (OpenTag k p)
    then have "main_round sysc files u =
        ask_create_or_open sysc OPEN_TAG (u\<lparr>inp := line k @ line p @ rest, calls := Suc (calls u)\<rparr>)"
      using read [of 2 "line k @ line p @ rest"] assms(2) int32_small by simp
    then show ?thesis using OpenTag assms(1,5) ok
      by (simp only:) (rule after, rule ask_create_or_open_does [of _ k p], simp_all)
  next
    case (SendTo i lev msg)
    then have "main_round sysc files u =
        ask_send sysc (u\<lparr>inp := line i @ line lev @ msg @ NL # rest, calls := Suc (calls u)\<rparr>)"
      using read [of 3 "line i @ line lev @ msg @ NL # rest"] assms(2) int32_small by simp
    then show ?thesis using SendTo assms(1,5) ok
      by (simp only:) (rule after, rule ask_send_does [of _ i lev msg], simp_all)
  next
    case (ReceiveFrom i lev)
    then have "main_round sysc files u =
        ask_receive sysc (u\<lparr>inp := line i @ line lev @ rest, calls := Suc (calls u)\<rparr>)"
      using read [of 4 "line i @ line lev @ rest"] assms(2) int32_small by simp
    then show ?thesis using ReceiveFrom assms(1,4,5) ok
      by (simp only:) (rule after, rule ask_receive_does [of _ i lev], simp_all)
  next
    case (AwakeAll i)
    then have "main_round sysc files u =
        ask_ctl sysc AWAKE_ALL (u\<lparr>inp := line i @ rest, calls := Suc (calls u)\<rparr>)"
      using read [of 5 "line i @ rest"] assms(2) int32_small by simp
    then show ?thesis using AwakeAll assms(1,5) ok
      by (simp only:) (rule after, rule ask_ctl_does [of _ i], simp_all)
  next
    case (RemoveTag i)
    then have "main_round sysc files u =
        ask_ctl sysc REMOVE_TAG (u\<lparr>inp := line i @ rest, calls := Suc (calls u)\<rparr>)"
      using read [of 6 "line i @ rest"] assms(2) int32_small by simp
    then show ?thesis using RemoveTag assms(1,5) ok
      by (simp only:) (rule after, rule ask_ctl_does [of _ i], simp_all)
  next
    case (ReadDevice i)
    then have "main_round sysc files u =
        read_device files (u\<lparr>inp := line i @ rest, calls := Suc (calls u)\<rparr>)"
      using read [of 7 "line i @ rest"] assms(2) int32_small by simp
    then show ?thesis using ReadDevice assms(1,4,5) ok
      by (simp only:) (rule after, rule read_device_does [of _ i], simp_all)
  next
    case (NoChoice n)
    then have "main_round sysc files u = Inr (True, say BadChoice (u\<lparr>inp := rest, calls := Suc (calls u)\<rparr>))"
      using read [of n rest] assms(1,2) by (auto simp: Let_def)
    then show ?thesis using NoChoice assms(3,5) by (simp add: did_def say_def arrays_ok_def)
  qed
qed

lemma main_loop_runs:
  assumes "\<forall>c \<in> set cs. typable c" "inp u = concat (map typed cs) @ line 8 @ rest" "arrays_ok u"
    "well_behaved sysc files" "session sysc files cs (world u) = (evs, w, left)"
  shows "\<exists>u'. main_loop sysc files u = Some (Inr u') \<and> events u' = events u @ evs \<and> world u' = w
    \<and> inp u' = left @ rest"
  using assms(1-3,5)
proof (induction cs arbitrary: u evs)
  case Nil
  have "main_round sysc files u = Inr (False, say Goodbye (u\<lparr>inp := rest, calls := Suc (calls u)\<rparr>))"
    using Nil.prems(2) int32_small by (simp add: main_round_def getNumber_then)
  then show ?case using Nil.prems(4) by (simp add: main_loop.simps [of sysc files u] say_def)
next
  case (Cons c cs)
  obtain go ev w1 where p: "perform sysc files c (world u) = (go, ev, w1)" by (metis prod_cases3)
  have "inp u = typed c @ concat (map typed cs) @ line 8 @ rest" using Cons.prems(2) by simp
  from main_round_does [OF _ this Cons.prems(3) assms(4) p] Cons.prems(1)
  obtain u1 where u1: "main_round sysc files u = Inr (go, u1)" "events u1 = events u @ [ev]" "world u1 = w1"
    "inp u1 = concat (map typed cs) @ line 8 @ rest" "arrays_ok u1" by (auto simp: did_def)
  show ?case
  proof (cases go)
    case False
    then show ?thesis using u1 p Cons.prems(4) by (simp add: main_loop.simps [of sysc files u])
  next
    case True
    then obtain evs1 where s: "session sysc files cs (world u1) = (evs1, w, left)" "evs = ev # evs1"
      using Cons.prems(4) p u1(3) by (auto split: prod.splits)
    have "\<exists>u'. main_loop sysc files u1 = Some (Inr u') \<and> events u' = events u1 @ evs1 \<and> world u' = w
        \<and> inp u' = left @ rest"
      using Cons.prems(1) u1(4,5) s(1) by (intro Cons.IH) simp_all
    then show ?thesis using True u1(1,2) s(2) by (simp add: main_loop.simps [of sysc files u])
  qed
qed


text \<open>A program at its start, and a kernel that counts the calls and answers each with its number.\<close>

definition demo_prog :: "string \<Rightarrow> nat uprog" where
  "demo_prog text = \<lparr>inp = text, events = [], line_buf = replicate 128 NUL, send_buf = replicate 4096 NUL,
     recv_buf = replicate 4096 NUL, stack = (\<lambda>_. replicate 256 NUL), calls = 0, world = 0\<rparr>"

definition demo_calls :: "nat syscall_fn" where
  "demo_calls nr args n = ((if nr = 178 then - 1 else int n, EBADF, ''ciao'' @ [NUL]), Suc n)"


section \<open>The end of the input\<close>

text \<open>What the array holds is read as a number that is not on the menu.\<close>

definition no_choice :: "buffer \<Rightarrow> bool" where
  "no_choice b \<longleftrightarrow> number_ends b \<and> (cast_int (strtol b) < 1 \<or> 8 < cast_int (strtol b))"

lemma main_round_eof:
  assumes "inp u = []" "no_choice (stack u (calls u))"
  shows "main_round sysc files u = Inr (True, say BadChoice (u\<lparr>calls := Suc (calls u)\<rparr>))"
  using assms
  by (cases u) (auto simp: main_round_def getNumber_def fgets_into_def fgets_def no_choice_def)

lemma main_loop_never_ends:
  "main_loop sysc files u = Some y \<Longrightarrow> \<not> (inp u = [] \<and> (\<forall>n \<ge> calls u. no_choice (stack u n)))"
proof (erule main_loop.raw_induct [rotated])
  fix loop :: "'a syscall_fn \<Rightarrow> ('a \<Rightarrow> string \<Rightarrow> string option) \<Rightarrow> 'a uprog \<Rightarrow> 'a uprog outcome option"
    and sysc files and u :: "'a uprog" and y
  assume later: "\<And>sysc files u y. loop sysc files u = Some y \<Longrightarrow>
      \<not> (inp u = [] \<and> (\<forall>n \<ge> calls u. no_choice (stack u n)))"
    and now: "(case main_round sysc files u of Inl f \<Rightarrow> Some (Inl f)
      | Inr (go, u) \<Rightarrow> if go then loop sysc files u else Some (Inr u)) = Some y"
  show "\<not> (inp u = [] \<and> (\<forall>n \<ge> calls u. no_choice (stack u n)))"
  proof
    assume u: "inp u = [] \<and> (\<forall>n \<ge> calls u. no_choice (stack u n))"
    let ?u = "say BadChoice (u\<lparr>calls := Suc (calls u)\<rparr>)"
    have "main_round sysc files u = Inr (True, ?u)" using main_round_eof [of u] u by simp
    then have "loop sysc files ?u = Some y" using now by simp
    from later [OF this] u show False by (simp add: say_def)
  qed
qed

text \<open>
  C40 At the end of the input the program need not end. \<open>fgets\<close> fails, its result is ignored, and the
  number is read from an array that was never initialised; as long as this is no number of the menu
  (all zeros, for one), the menu starts again, for ever.
\<close>

theorem main_loop_eof:
  assumes "inp u = []" "\<forall>n \<ge> calls u. no_choice (stack u n)"
  shows "main_loop sysc files u = None"
  using main_loop_never_ends [of sysc files u] assms by (cases "main_loop sysc files u") auto

theorem main_loop_eof_witness: "main_loop demo_calls (\<lambda>_ _. None) (demo_prog []) = None"
proof (rule main_loop_eof)
  show "\<forall>n \<ge> calls (demo_prog []). no_choice (stack (demo_prog []) n)"
    by (simp add: demo_prog_def no_choice_def number_ends_def strtol_def digits_val_def cast_int_def is_space_def is_digit_def)
qed (simp add: demo_prog_def)

section \<open>The numbers of the wrappers and the entries of the table\<close>

definition LIBRARY_NUMBERS :: "int list" where
  "LIBRARY_NUMBERS = [NR_tag_get, NR_tag_send, NR_tag_receive, NR_tag_ctl]"

lemma first_four_filter:
  "take 4 (filter P [0..<256]) = [134, 174, 177, 178] \<longleftrightarrow>
   (\<forall>i<178. P i = (i \<in> {134, 174, 177})) \<and> P 178"
proof
  let ?F = "filter P [0..<256]"
  assume t: "take 4 ?F = [134, 174, 177, 178]"
  then obtain r where F: "?F = [134, 174, 177, 178] @ r" by (metis append_take_drop_id)
  have "sorted ([134, 174, 177, 178] @ r)" unfolding F [symmetric] by (rule sorted_wrt_filter [OF sorted_upt])
  then have "\<forall>i \<in> set r. 178 \<le> i" unfolding sorted_append by simp
  moreover have "distinct ([134, 174, 177, 178] @ r)" unfolding F [symmetric] by (rule distinct_filter [OF distinct_upt])
  then have "178 \<notin> set r" unfolding distinct_append by auto
  ultimately have later: "178 < i" if "i \<in> set r" for i using that by (metis le_neq_implies_less)
  have mem: "i \<in> set ?F \<longleftrightarrow> i < 256 \<and> P i" for i by (simp only: set_filter set_upt) auto
  have four: "i \<in> set ?F \<longleftrightarrow> i \<in> {134, 174, 177, 178} \<or> i \<in> set r" for i by (subst F) auto
  show "(\<forall>i<178. P i = (i \<in> {134, 174, 177})) \<and> P 178"
  proof (intro conjI allI impI)
    fix i :: nat assume "i < 178"
    then show "P i = (i \<in> {134, 174, 177})" using mem [of i] four [of i] later [of i] by auto
  qed (use mem [of 178] four [of 178] in simp)
next
  assume P: "(\<forall>i<178. P i = (i \<in> {134, 174, 177})) \<and> P 178"
  have "[0..<256] = [0..<179] @ [179..<256]" using upt_add_eq_append [of 0 179 77] by simp
  moreover have "filter P [0..<179] = filter (\<lambda>i. i \<in> {134, 174, 177, 178}) [0..<179]"
  proof (rule filter_cong [OF refl])
    fix i assume "i \<in> set [0..<179]"
    then have "i < 178 \<or> i = 178" by auto
    then show "P i = (i \<in> {134, 174, 177, 178})" using P by auto
  qed
  moreover have "filter (\<lambda>i. i \<in> {134, 174, 177, 178}) [0..<179] = [134, 174, 177, 178]"
    by (rule sorted_distinct_set_unique) (auto simp: sorted_wrt_filter)
  ultimately have "filter P [0..<256] = [134, 174, 177, 178] @ filter P [179..<256]"
    by (simp only: filter_append)
  then show "take 4 (filter P [0..<256]) = [134, 174, 177, 178]" by (simp only:) simp
qed

text \<open>
  The numbers 134, 174, 177 and 178 that the library calls are the entries into which \<open>start\<close> puts
  the handlers (then in the right order) exactly when these are the first entries of the table that hold
  \<open>sys_ni_syscall\<close>. The search guarantees this for 134 and 174 and for the entries 1 to 133 only.
\<close>

theorem library_numbers_match:
  assumes f: "syscall_table_finder (vtpmo pt cr3) (replicate MAX_FREE 0) m = Inr (Some (a, ni), par, m')" "mount_ok me"
  shows "\<exists>st. start (vtpmo pt cr3) me (unloaded m) = Inr (MOUNT_SUCCESS, st)
    \<and> (take 4 (free_entry_array st) = LIBRARY_NUMBERS \<longleftrightarrow>
        (\<forall>i. i = 0 \<or> 134 < i \<and> i < 174 \<or> i = 175 \<or> i = 176 \<longrightarrow> read8 m (elem a i) \<noteq> Inr ni)
        \<and> read8 m (elem a 177) = Inr ni \<and> read8 m (elem a 178) = Inr ni)
    \<and> (take 4 (free_entry_array st) = LIBRARY_NUMBERS \<longrightarrow>
        list_all2 (\<lambda>n f. mem (mach st) (elem a (nat n)) = Some f) LIBRARY_NUMBERS (handlers me))"
proof -
  let ?P = "\<lambda>i. read8 m (elem a i) = Inr ni"
  obtain "is" st where s: "start (vtpmo pt cr3) me (unloaded m) = Inr (MOUNT_SUCCESS, st)"
    "hooked me is st" "tbl_found (mach st) = a" "free_entry_array st = par"
    using start_result [OF f] by blast
  note F = finder_result [OF f(1)]
  define F where "F = filter ?P [0..<256]"
  have par: "par = map int (take 15 F) @ drop (length (take 15 F)) (replicate 15 0)"
    using F by (simp add: F_def Let_def)
  have pat: "table_pattern (read8 m) a" and ni: "?P 134" using F by simp_all
  have "4 \<le> length (take 15 F)" unfolding F_def using free_entries_found(1) [of "read8 m" a ni] pat ni by simp
  then have "take 4 par = map int (take 4 F)" by (simp add: par take_map)
  moreover have "map int xs = LIBRARY_NUMBERS \<longleftrightarrow> xs = [134, 174, 177, 178]" for xs
    unfolding LIBRARY_NUMBERS_def by auto
  ultimately have "take 4 (free_entry_array st) = LIBRARY_NUMBERS \<longleftrightarrow>
      (\<forall>i<178. ?P i = (i \<in> {134, 174, 177})) \<and> ?P 178"
    using first_four_filter [of ?P] s(4) by (simp add: F_def)
  also have "\<dots> \<longleftrightarrow> (\<forall>i. i = 0 \<or> 134 < i \<and> i < 174 \<or> i = 175 \<or> i = 176 \<longrightarrow> \<not> ?P i) \<and> ?P 177 \<and> ?P 178"
  proof -
    have low: "\<not> ?P i" if "1 \<le> i" "i < 134" for i
      using pat ni that by (fastforce simp: table_pattern_def)
    have two: "?P 174" using pat ni by (auto simp: table_pattern_def NI_ENTRIES_def)
    have r: "i < 178 \<longleftrightarrow> (1 \<le> i \<and> i < 134) \<or> i = 134 \<or> i = 174 \<or> i = 177
        \<or> (i = 0 \<or> 134 < i \<and> i < 174 \<or> i = 175 \<or> i = 176)" for i :: nat by auto
    show ?thesis unfolding r using low two ni by auto
  qed
  finally have iff: "take 4 (free_entry_array st) = LIBRARY_NUMBERS \<longleftrightarrow>
    (\<forall>i. i = 0 \<or> 134 < i \<and> i < 174 \<or> i = 175 \<or> i = 176 \<longrightarrow> \<not> ?P i) \<and> ?P 177 \<and> ?P 178" .
  have "list_all2 (\<lambda>n f. mem (mach st) (elem a (nat n)) = Some f) (map int is) (handlers me)"
    using s(2,3) by (simp add: hooked_def list_all2_map1)
  then show ?thesis using s(1,2) iff unfolding hooked_def by auto
qed

theorem library_numbers_match_witness:
  "\<exists>st. start (vtpmo demo_tables 0x5000) demo_mount (unloaded demo_machine) = Inr (MOUNT_SUCCESS, st)
     \<and> (take 4 (free_entry_array st) = LIBRARY_NUMBERS \<longrightarrow>
        (\<exists>a. mem (mach st) (elem a 134) = Some 0xffffffffc0001000))"
proof -
  obtain a ni par m' where f: "syscall_table_finder (vtpmo demo_tables 0x5000) (replicate MAX_FREE 0) demo_machine
      = Inr (Some (a, ni), par, m')"
    using finder_finds [OF demo_searchable demo_assumptions] by blast
  from library_numbers_match [OF f demo_mount_ok] show ?thesis
    by (auto simp: LIBRARY_NUMBERS_def demo_mount_def)
qed

end
