(* ===== verification/Spec2Isabelle.thy ===== *)
theory Spec2Isabelle
  imports Conc_Properties User_Lib
begin

text \<open>
  A model of a Linux kernel module for the exchange of messages by tag. The module finds the system
  call table in kernel memory and installs four system calls: \<open>tag_get\<close> creates or opens a tag
  service, \<open>tag_send\<close> delivers a message to the threads that wait on one of its 32 levels,
  \<open>tag_receive\<close> waits for one, \<open>tag_ctl\<close> removes a service or wakes up all its threads. A character
  device per service shows how many threads wait on each level. Names in the model are the names in
  the source wherever Isabelle allows it.

  \<^bold>\<open>The parts and where they are modelled\<close>

  \<^item> \<open>Prelude\<close>: outcomes of C code (a value, or the reason why there is none: blocked on a mutex, an
    access outside an object, a freed, NULL or unmapped pointer, a string function past its buffer, a
    \<open>BUG_ON\<close>), checked array accesses, and \<open>atomic_inc\<close>/\<open>atomic_dec\<close> on \<open>unsigned long\<close> counters, which
    act on the low 32 bits only. \<open>C_Strings\<close>: the functions of \<open>linux/string.h\<close> and the conversions of
    \<open>snprintf\<close> on buffers of known capacity.
  \<^item> \<open>Ts_State\<close>: the constants of \<open>commands.h\<close>, \<open>tag_service.h\<close> and \<open>tag_device_driver.h\<close>, their structs
    as records, and the kernel state: the table \<open>tsm\<close>, the heap of tag services by address, the ledger
    of allocations, RCU readers and queue, the driver's \<open>dm\<close>, the module's reference count.
  \<^item> \<open>Tag_Slots\<close>, \<open>Tag_Get\<close>, \<open>Tag_Send\<close>, \<open>Tag_Receive\<close>, \<open>Tag_Ctl\<close>: the functions of
    \<open>tag_service.c\<close>. Each system call is cut into the pieces between which other threads can run
    (\<open>tag_get_select\<close>, \<open>tag_get_locked\<close>, \<open>tag_get_publish\<close>, ...) and put together again
    (\<open>tag_get\<close>, ...) for the call that nobody disturbs; the RCU callbacks \<open>free_after_send\<close> and
    \<open>reset_awake_condition\<close> are functions of their own.
  \<^item> \<open>Chrdev_Numbers\<close>, \<open>Chrdev_Text\<close>, \<open>Device_Driver\<close>, \<open>Device_Files\<close>: \<open>tag_device_driver.c\<close>, from the
    digit arithmetic and \<open>my_atoi\<close> through the text of a device, byte for byte, to the creation, update
    and removal of devices and the file operations.
  \<^item> \<open>Vtpm\<close>, \<open>Usctm\<close>: \<open>lib/vtpm.c\<close> and \<open>lib/usctm.c\<close>, the page-table walk on 64-bit words, the search of
    the system call table and the installation of system calls behind \<open>cr0\<close>.
  \<^item> \<open>Module_Init\<close>: \<open>start\<close> and \<open>end\<close> of \<open>tag_service.c\<close> with \<open>init_device_driver\<close> and
    \<open>destroy_driver_and_all_devices\<close>.
  \<^item> \<open>User_Lib\<close>: the wrappers of \<open>user/test_definitions.c\<close> and the program of \<open>user/user_program.c\<close>.
  \<^item> \<open>Concurrency\<close>: any number of threads in the four system calls, any number of readers of the devices
    and the RCU callbacks, as a step relation \<open>sys_step\<close> over the pieces above. \<open>Conc_Invariant\<close>, \<open>Conc_Segments\<close>, \<open>Conc_Sections\<close> prove
    piece by piece what \<open>Conc_System\<close> puts together to an invariant of every reachable state;
    \<open>Conc_Registry\<close> refines an abstract registry of services, \<open>Conc_Rcu\<close> shows that grace periods end,
    \<open>Conc_Rest\<close> and \<open>Conc_Quiescent\<close> that between calls the module is in the state that the theories of
    the single calls start from, \<open>Conc_Runs\<close> and \<open>Conc_Races\<close> build concrete runs, \<open>Conc_Properties\<close> states the results.

  \<^bold>\<open>Interfaces\<close>

  \<open>mutex_array\<close> (an array of mutexes; interpreted for \<open>access_lock\<close> and \<open>device_lock\<close>), \<open>char_driver\<close>
  (what the driver promises to the system calls: it leaves their state and all locks alone;
  interpreted for the functions of \<open>tag_device_driver.c\<close>), \<open>page_probe\<close> (what the search of the table
  needs of a page-table walk; interpreted for \<open>vtpmo\<close>), \<open>transition_system\<close> and its extensions
  \<open>simulation\<close> and \<open>strengthened_system\<close> (invariants and refinement over runs; interpreted for the
  concurrent module).

  \<^bold>\<open>What is shown\<close>

  For the calls one at a time: functional results of every system call on every branch, with the errors
  and the faults that the code can run into; that a creation that fails leaves nothing behind, and that
  a removal leaks the levels; the round trip of a message; the text of a device and its updates; the
  soundness and completeness of the search for the table, and that mounting and unmounting restores
  everything. For the concurrent module: refinement of the registry, the correspondence of locks, flags
  and pending callbacks, exact counters, that a removal starts only without receivers, that every
  delivery ends, that each device lock has one holder, that a module without calls and callbacks is well
  formed and idle, and the runs in which the code loses a message, uses a freed service, leaves a device
  with a wrong count, updates or frees the text of a device that does not exist yet, and reads a freed
  text.

  \<^bold>\<open>Parameters and bounds\<close>

  What the module gets from the kernel is a field of an environment or an argument of the definitions
  that use it: the credentials of the caller, which allocations succeed, the bytes of fresh memory, the
  results of \<open>cdev_add\<close>, \<open>device_create\<close>, \<open>alloc_chrdev_region\<close> and \<open>class_create\<close>, the page tables and the
  words of kernel memory, the outcome of a signal; for the user programs, the system call itself and
  the line typed. \<open>int_pow\<close> of the kernel is a parameter where the digit sums use it. Loops are
  structural recursions over their number of rounds, or have a measure; no fuel is needed. A system has
  at most \<open>PID_MAX\<close> (4194304) threads, the limit of Linux, which keeps the 32-bit halves of the counters
  from wrapping.

  \<^bold>\<open>Not modelled\<close>

  The scenario tests (\<open>user/*_test.c\<close>, \<open>user/user_tests.c\<close>), the Makefile and scripts; log output; the
  fixed texts of the menu; failures of \<open>kmalloc\<close> for the driver's text buffers (the code does not check
  them). In the concurrent model everything between a \<open>mutex_lock\<close> and its \<open>mutex_unlock\<close> is one step,
  but for the exchange of a device's text, where the freed pointer is visible to readers; so is the end of a
  removal (entry, search for a free one, counter, struct), the whole creation of a device under its lock, and
  the copy of a device's text by its reader. A thread reads one device at a time and makes no system call
  meanwhile. Memory is sequentially consistent. Mounting and unmounting happen before and after all system
  calls.
\<close>

end
